(* ===== verification/Prelude.thy ===== *)
theory Prelude
  imports "HOL-Library.Word" "HOL-Library.List_Lexorder"
begin

text \<open>
  What the components share: the types that name the model's bytes and results, the
  sequencing of fallible steps, the big-endian integers of a \<open>DataView\<close>, and the
  contract of an encoder and its decoder, stated once as locales that the frame, the
  message and the key codecs interpret.

  A result is a sum: \<open>Inl\<close> carries what the code throws, \<open>Inr\<close> what it returns.
\<close>

named_theorems wire \<open>round trips of the byte-level encodings\<close>
named_theorems result_split \<open>case splits of fallible steps\<close>

type_synonym byte = "8 word"
type_synonym bytes = "8 word list"

subsection \<open>Fallible steps\<close>

definition bindR :: "'e + 'a \<Rightarrow> ('a \<Rightarrow> 'e + 'b) \<Rightarrow> 'e + 'b" where
  "bindR r f = (case r of Inl e \<Rightarrow> Inl e | Inr x \<Rightarrow> f x)"

definition guardR :: "bool \<Rightarrow> 'e \<Rightarrow> 'e + unit" where
  "guardR b e = (if b then Inr () else Inl e)"

fun mapR :: "('a \<Rightarrow> 'e + 'b) \<Rightarrow> 'a list \<Rightarrow> 'e + 'b list" where
  "mapR f [] = Inr []"
| "mapR f (x # xs) = bindR (f x) (\<lambda>y. bindR (mapR f xs) (\<lambda>ys. Inr (y # ys)))"

lemma bindR_simps [simp]:
  "bindR (Inl e) f = Inl e"
  "bindR (Inr x) f = f x"
  by (simp_all add: bindR_def)

lemma bindR_eq_Inr [result_split]:
  "bindR r f = Inr y \<longleftrightarrow> (\<exists>x. r = Inr x \<and> f x = Inr y)"
  by (cases r) auto

lemma bindR_eq_Inl [result_split]:
  "bindR r f = Inl e \<longleftrightarrow> r = Inl e \<or> (\<exists>x. r = Inr x \<and> f x = Inl e)"
  by (cases r) auto

lemma bindR_cong [fundef_cong]:
  "r = r' \<Longrightarrow> (\<And>x. r' = Inr x \<Longrightarrow> f x = f' x) \<Longrightarrow> bindR r f = bindR r' f'"
  by (cases r') auto

lemma guardR_eq_Inr [simp]: "guardR b e = Inr u \<longleftrightarrow> b"
  by (simp add: guardR_def)

lemma guardR_eq_Inl [simp]: "guardR b e = Inl e' \<longleftrightarrow> \<not> b \<and> e' = e"
  by (auto simp: guardR_def)

lemma guardR_True [simp]: "guardR True e = Inr ()"
  by (simp add: guardR_def)

lemma guardR_False [simp]: "guardR False e = Inl e"
  by (simp add: guardR_def)

lemma mapR_cong [fundef_cong]:
  "xs = ys \<Longrightarrow> (\<And>x. x \<in> set ys \<Longrightarrow> f x = g x) \<Longrightarrow> mapR f xs = mapR g ys"
  by (induction ys arbitrary: xs) (auto cong: bindR_cong)

lemma mapR_eq_Inr:
  "mapR f xs = Inr ys \<longleftrightarrow> list_all2 (\<lambda>x y. f x = Inr y) xs ys"
  by (induction xs arbitrary: ys) (auto simp: result_split list_all2_Cons1)

lemma mapR_length: "mapR f xs = Inr ys \<Longrightarrow> length ys = length xs"
  by (auto simp: mapR_eq_Inr dest: list_all2_lengthD)

lemma mapR_total: "(\<And>x. x \<in> set xs \<Longrightarrow> f x = Inr (g x)) \<Longrightarrow> mapR f xs = Inr (map g xs)"
  by (induction xs) auto

subsection \<open>Whole-number arithmetic\<close>

text \<open>\<open>Math.ceil(n / d)\<close> for whole \<open>n\<close> and positive whole \<open>d\<close>.\<close>

definition ceil_div :: "nat \<Rightarrow> nat \<Rightarrow> nat" where
  "ceil_div n d = (n + d - 1) div d"

lemma ceil_div_bounds:
  assumes "0 < d"
  shows "n \<le> ceil_div n d * d" and "ceil_div n d * d < n + d"
proof -
  have eq: "ceil_div n d * d + (n + d - 1) mod d = n + d - 1"
    by (simp add: ceil_div_def)
  moreover have "(n + d - 1) mod d < d" using assms by simp
  ultimately show "n \<le> ceil_div n d * d" and "ceil_div n d * d < n + d"
    using assms by linarith+
qed

lemma ceil_div_pos: "0 < n \<Longrightarrow> 0 < d \<Longrightarrow> 0 < ceil_div n d"
  using ceil_div_bounds(1)[of d n] by (cases "ceil_div n d = 0") auto

lemma ceil_div_mult [simp]: "0 < d \<Longrightarrow> ceil_div (k * d) d = k"
proof -
  assume d: "0 < d"
  have "k * d + d - 1 = (d - 1) + k * d" using d by simp
  then show ?thesis using d by (simp add: ceil_div_def del: add_diff_assoc2)
qed

lemma ceil_div_mono: "m \<le> n \<Longrightarrow> ceil_div m d \<le> ceil_div n d"
  by (simp add: ceil_div_def div_le_mono)

subsection \<open>Big-endian integers\<close>

text \<open>
  \<open>DataView.setUint32(at, n, false)\<close> writes four bytes, most significant first; each
  byte is the low eight bits of the shifted value. \<open>getUint32\<close> reads them back. The
  callers check the length before they read.
\<close>

definition be32 :: "nat \<Rightarrow> bytes" where
  "be32 n = [of_nat (n div 16777216), of_nat (n div 65536), of_nat (n div 256), of_nat n]"

definition rd32 :: "bytes \<Rightarrow> nat \<Rightarrow> nat" where
  "rd32 bs at = unat (bs ! at) * 16777216 + unat (bs ! (at + 1)) * 65536
     + unat (bs ! (at + 2)) * 256 + unat (bs ! (at + 3))"

lemma length_be32 [simp]: "length (be32 n) = 4"
  by (simp add: be32_def)

lemma unat_of_nat_byte: "unat (of_nat n :: byte) = n mod 256"
  by (simp add: unat_of_nat)

lemma byte_bound: "unat (b :: byte) < 256"
  using unsigned_less[of b, where ?'a = nat] by simp

lemma of_nat_byte_eqI: "n mod 256 = unat x \<Longrightarrow> of_nat n = (x :: byte)"
  by (metis unat_of_nat_byte word_unat_eq_iff)

lemma rd32_bound: "rd32 bs at < 2 ^ 32"
  unfolding rd32_def
  using byte_bound[of "bs ! at"] byte_bound[of "bs ! (at + 1)"]
    byte_bound[of "bs ! (at + 2)"] byte_bound[of "bs ! (at + 3)"]
  by simp

lemma digits256:
  "n div 16777216 * 16777216 + n div 65536 mod 256 * 65536 + n div 256 mod 256 * 256 + n mod 256 = (n::nat)"
proof -
  have "n div 65536 div 256 = n div 16777216" and "n div 256 div 256 = n div 65536"
    by (simp_all add: div_mult2_eq [symmetric])
  moreover have "n div 65536 = n div 65536 div 256 * 256 + n div 65536 mod 256"
    and "n div 256 = n div 256 div 256 * 256 + n div 256 mod 256"
    and "n = n div 256 * 256 + n mod 256"
    by (simp_all only: div_mult_mod_eq)
  ultimately show ?thesis by linarith
qed

lemma rd32_be32 [wire]:
  assumes "n < 2 ^ 32" and "length xs = at"
  shows "rd32 (xs @ be32 n @ ys) at = n"
proof -
  have "n div 16777216 < 256" using assms(1) by (simp add: less_mult_imp_div_less)
  then have "rd32 (xs @ be32 n @ ys) at = n div 16777216 * 16777216 + n div 65536 mod 256 * 65536
      + n div 256 mod 256 * 256 + n mod 256"
    using assms(2) by (simp add: rd32_def be32_def nth_append unat_of_nat_byte)
  with digits256[of n] show ?thesis by simp
qed

lemma be32_bytes:
  fixes a b c d :: byte
  shows "be32 (unat a * 16777216 + unat b * 65536 + unat c * 256 + unat d) = [a, b, c, d]"
proof -
  let ?n = "unat a * 16777216 + unat b * 65536 + unat c * 256 + unat d"
  have 1: "?n = (unat a * 65536 + unat b * 256 + unat c) * 256 + unat d" by simp
  have 2: "?n div 256 = (unat a * 256 + unat b) * 256 + unat c"
    unfolding 1 using byte_bound[of d] by simp
  have "?n div 65536 = ?n div 256 div 256"
    by (simp add: div_mult2_eq [symmetric])
  then have 3: "?n div 65536 = unat a * 256 + unat b"
    unfolding 2 using byte_bound[of c] by simp
  have "?n div 16777216 = ?n div 65536 div 256"
    by (simp add: div_mult2_eq [symmetric])
  then have 4: "?n div 16777216 = unat a"
    unfolding 3 using byte_bound[of b] by simp
  have m: "(q * 256 + unat x) mod 256 = unat x" for q and x :: byte
    using byte_bound[of x] by simp
  have "of_nat ?n = d" unfolding 1 by (rule of_nat_byte_eqI [OF m])
  moreover have "of_nat (?n div 256) = c" unfolding 2 by (rule of_nat_byte_eqI [OF m])
  moreover have "of_nat (?n div 65536) = b" unfolding 3 by (rule of_nat_byte_eqI [OF m])
  moreover have "of_nat (?n div 16777216) = a" unfolding 4 by simp
  ultimately show ?thesis unfolding be32_def by blast
qed

lemma be32_rd32 [wire]: "length bs = 4 \<Longrightarrow> be32 (rd32 bs 0) = bs"
proof -
  assume "length bs = 4"
  then obtain a b c d where "bs = [a, b, c, d]"
    by (auto simp: length_Suc_conv eval_nat_numeral)
  then show ?thesis using be32_bytes[of a b c d] by (simp add: rd32_def)
qed

lemma rd32_append: "at + 4 \<le> length xs \<Longrightarrow> rd32 (xs @ ys) at = rd32 xs at"
  by (simp add: rd32_def nth_append)

lemma rd32_drop: "at + 4 \<le> length xs \<Longrightarrow> rd32 xs at = rd32 (take 4 (drop at xs)) 0"
  by (simp add: rd32_def)

subsection \<open>Encoders and decoders\<close>

text \<open>
  The contract of a wire format. An \<open>encoder\<close> is undone by its reader on every valid
  value; a \<open>canonical_codec\<close> also reads nothing but what the encoder writes, so there
  is exactly one encoding of each value.
\<close>

locale encoder =
  fixes enc :: "'a \<Rightarrow> 'e + 'b"
    and dec :: "'b \<Rightarrow> 'f + 'a"
    and valid :: "'a \<Rightarrow> bool"
  assumes dec_enc: "valid x \<Longrightarrow> enc x = Inr y \<Longrightarrow> dec y = Inr x"
begin

lemma enc_inj: "valid x \<Longrightarrow> valid x' \<Longrightarrow> enc x = Inr y \<Longrightarrow> enc x' = Inr y \<Longrightarrow> x = x'"
  by (metis dec_enc sum.inject(2))

end

locale canonical_codec = encoder +
  assumes enc_dec: "dec y = Inr x \<Longrightarrow> valid x \<and> enc x = Inr y"
begin

lemma dec_iff: "dec y = Inr x \<longleftrightarrow> valid x \<and> enc x = Inr y"
  using dec_enc enc_dec by blast

lemma dec_inj: "dec y = Inr x \<Longrightarrow> dec y' = Inr x \<Longrightarrow> y = y'"
  by (metis enc_dec sum.inject(2))

end

end
