(* ===== verification/Jsstring.thy ===== *)
theory Jsstring
  imports Prelude
begin

text \<open>
  ECMAScript strings as the code uses them: sequences of 16-bit code units, read by
  code point where a regular expression has the \<open>u\<close> flag, and turned to and from
  UTF-8 by \<open>TextEncoder\<close> and a fatal \<open>TextDecoder\<close>. The white space of \<open>\s\<close>,
  \<open>trim\<close> and \<open>trimEnd\<close>, and \<open>startsWith\<close>, \<open>split\<close> and \<open>join\<close> on code units.
\<close>

type_synonym code_unit = "16 word"
type_synonym jsstr = "16 word list"

definition js :: "string \<Rightarrow> jsstr" where
  "js s = map of_char s"

text \<open>A code equation for literals that does not add on words.\<close>

fun bits_value :: "bool list \<Rightarrow> int" where
  "bits_value [] = 0"
| "bits_value (b # bs) = (if b then 1 else 0) + 2 * bits_value bs"

fun char_unit :: "char \<Rightarrow> code_unit" where
  "char_unit (Char b0 b1 b2 b3 b4 b5 b6 b7) = word_of_int (bits_value [b0, b1, b2, b3, b4, b5, b6, b7])"

lemma char_unit_of_char: "char_unit c = of_char c"
proof (cases c)
  case (Char b0 b1 b2 b3 b4 b5 b6 b7)
  then show ?thesis by (cases b0; cases b1; cases b2; cases b3; cases b4; cases b5; cases b6; cases b7) (simp_all add: of_char_def)
qed

lemma js_code [code]: "js s = map char_unit s"
  by (simp add: js_def char_unit_of_char)

subsection \<open>Code points\<close>

definition is_high :: "code_unit \<Rightarrow> bool" where
  "is_high u \<longleftrightarrow> 0xD800 \<le> unat u \<and> unat u \<le> 0xDBFF"

definition is_low :: "code_unit \<Rightarrow> bool" where
  "is_low u \<longleftrightarrow> 0xDC00 \<le> unat u \<and> unat u \<le> 0xDFFF"

definition surrogate :: "nat \<Rightarrow> bool" where
  "surrogate p \<longleftrightarrow> 0xD800 \<le> p \<and> p \<le> 0xDFFF"

definition scalar :: "nat \<Rightarrow> bool" where
  "scalar p \<longleftrightarrow> p < 0x110000 \<and> \<not> surrogate p"

definition pair_point :: "code_unit \<Rightarrow> code_unit \<Rightarrow> nat" where
  "pair_point h l = 0x10000 + (unat h - 0xD800) * 0x400 + (unat l - 0xDC00)"

fun code_points :: "jsstr \<Rightarrow> nat list" where
  "code_points [] = []"
| "code_points [u] = [unat u]"
| "code_points (u # l # us) =
     (if is_high u \<and> is_low l then pair_point u l # code_points us
      else unat u # code_points (l # us))"

definition point_units :: "nat \<Rightarrow> jsstr" where
  "point_units p =
     (if p < 0x10000 then [of_nat p]
      else [of_nat (0xD800 + (p - 0x10000) div 0x400), of_nat (0xDC00 + (p - 0x10000) mod 0x400)])"

definition from_points :: "nat list \<Rightarrow> jsstr" where
  "from_points ps = concat (map point_units ps)"

text \<open>The test of \<open>/\p{Surrogate}/u\<close>: a surrogate that is not half of a pair.\<close>

definition lone_surrogate :: "jsstr \<Rightarrow> bool" where
  "lone_surrogate s \<longleftrightarrow> list_ex surrogate (code_points s)"

lemma unit_bound: "unat (u :: code_unit) < 65536"
  using unsigned_less[of u, where ?'a = nat] by simp

lemma unat_of_nat_unit: "unat (of_nat n :: code_unit) = n mod 65536"
  by (simp add: unat_of_nat)

lemma of_nat_unit_eqI: "n mod 65536 = unat x \<Longrightarrow> of_nat n = (x :: code_unit)"
  by (metis unat_of_nat_unit word_unat_eq_iff)

lemma from_points_simps [simp]:
  "from_points [] = []"
  "from_points (p # ps) = point_units p @ from_points ps"
  by (simp_all add: from_points_def)

lemma point_units_unat [simp]: "point_units (unat u) = [u]"
  using unit_bound[of u] by (simp add: point_units_def)

lemma point_units_pair:
  assumes "is_high h" and "is_low l"
  shows "point_units (pair_point h l) = [h, l]"
proof -
  let ?a = "unat h - 0xD800" and ?b = "unat l - 0xDC00"
  have b: "?b < 0x400" and a: "?a < 0x400"
    and hb: "0xD800 + ?a = unat h" and lb: "0xDC00 + ?b = unat l"
    using assms by (auto simp: is_high_def is_low_def)
  have p: "pair_point h l - 0x10000 = ?a * 0x400 + ?b" "\<not> pair_point h l < 0x10000"
    by (simp_all add: pair_point_def)
  have "(?a * 0x400 + ?b) div 0x400 = ?a" and "(?a * 0x400 + ?b) mod 0x400 = ?b"
    using b by simp_all
  then show ?thesis using p hb lb by (simp add: point_units_def)
qed

lemma from_points_code_points [simp]: "from_points (code_points s) = s"
  by (induction s rule: code_points.induct) (auto simp: point_units_pair)

lemma code_points_bound: "p \<in> set (code_points s) \<Longrightarrow> p < 0x110000"
proof (induction s rule: code_points.induct)
  case (2 u)
  then show ?case using unit_bound[of u] by simp
next
  case (3 u l us)
  show ?case
  proof (cases "is_high u \<and> is_low l")
    case True
    then have "pair_point u l < 0x110000"
      by (auto simp: pair_point_def is_high_def is_low_def)
    with 3 True show ?thesis by auto
  next
    case False
    with 3 show ?thesis using unit_bound[of u] by auto
  qed
qed simp

lemma not_high_scalar: "scalar p \<Longrightarrow> p < 0x10000 \<Longrightarrow> \<not> is_high (of_nat p) \<and> \<not> is_low (of_nat p)"
  by (auto simp: scalar_def surrogate_def is_high_def is_low_def unat_of_nat_unit)

lemma code_points_single:
  "\<not> is_high u \<Longrightarrow> code_points (u # us) = unat u # code_points us"
  by (cases us) auto

lemma code_points_point_units:
  assumes "scalar p"
  shows "code_points (point_units p @ us) = p # code_points us"
proof (cases "p < 0x10000")
  case True
  with assms show ?thesis
    by (simp add: point_units_def code_points_single not_high_scalar unat_of_nat_unit)
next
  case False
  let ?h = "of_nat (0xD800 + (p - 0x10000) div 0x400) :: code_unit"
  let ?l = "of_nat (0xDC00 + (p - 0x10000) mod 0x400) :: code_unit"
  have dv: "(p - 0x10000) div 0x400 < 0x400"
    by (rule less_mult_imp_div_less) (use assms in \<open>auto simp: scalar_def\<close>)
  have md: "(p - 0x10000) mod 0x400 < 0x400" by simp
  have h: "unat ?h = 0xD800 + (p - 0x10000) div 0x400"
    unfolding unat_of_nat_unit using dv by simp
  have l: "unat ?l = 0xDC00 + (p - 0x10000) mod 0x400"
    unfolding unat_of_nat_unit using md by simp
  have "is_high ?h" "is_low ?l" unfolding is_high_def is_low_def h l using dv md by linarith+
  moreover have "pair_point ?h ?l = p"
    unfolding pair_point_def h l using False by simp
  ultimately show ?thesis using False by (simp add: point_units_def del: of_nat_add)
qed

lemma code_points_from_points [simp]:
  "\<forall>p \<in> set ps. scalar p \<Longrightarrow> code_points (from_points ps) = ps"
  by (induction ps) (simp_all add: code_points_point_units)

lemma not_lone_surrogate_iff: "\<not> lone_surrogate s \<longleftrightarrow> (\<forall>p \<in> set (code_points s). scalar p)"
  using code_points_bound[of _ s] by (auto simp: lone_surrogate_def list_ex_iff scalar_def)

lemma not_lone_surrogate_from_points: "\<forall>p \<in> set ps. scalar p \<Longrightarrow> \<not> lone_surrogate (from_points ps)"
  by (simp add: not_lone_surrogate_iff)

subsection \<open>UTF-8\<close>

text \<open>
  The bytes of one scalar value, and the encoder: \<open>TextEncoder\<close> writes U+FFFD for a
  lone surrogate.
\<close>

definition utf8_point :: "nat \<Rightarrow> bytes" where
  "utf8_point p =
     (if p < 0x80 then [of_nat p]
      else if p < 0x800 then [of_nat (0xC0 + p div 64), of_nat (0x80 + p mod 64)]
      else if p < 0x10000 then
        [of_nat (0xE0 + p div 4096), of_nat (0x80 + p div 64 mod 64), of_nat (0x80 + p mod 64)]
      else
        [of_nat (0xF0 + p div 262144), of_nat (0x80 + p div 4096 mod 64),
         of_nat (0x80 + p div 64 mod 64), of_nat (0x80 + p mod 64)])"

definition utf8_encode :: "jsstr \<Rightarrow> bytes" where
  "utf8_encode s = concat (map (\<lambda>p. utf8_point (if surrogate p then 0xFFFD else p)) (code_points s))"

definition utf8Length :: "jsstr \<Rightarrow> nat" where
  "utf8Length s = length (utf8_encode s)"

text \<open>
  The fatal decoder: the first byte fixes the length and the range of the second byte,
  so that overlong forms, surrogates and values past U+10FFFF are refused; a truncated
  sequence is refused.
\<close>

definition cont :: "byte \<Rightarrow> bool" where
  "cont b \<longleftrightarrow> 0x80 \<le> unat b \<and> unat b \<le> 0xBF"

definition second_ok :: "byte \<Rightarrow> byte \<Rightarrow> bool" where
  "second_ok a b \<longleftrightarrow>
     (if unat a = 0xE0 then 0xA0 else if unat a = 0xF0 then 0x90 else 0x80) \<le> unat b \<and>
     unat b \<le> (if unat a = 0xED then 0x9F else if unat a = 0xF4 then 0x8F else 0xBF)"

fun utf8_points :: "bytes \<Rightarrow> nat list option" where
  "utf8_points [] = Some []"
| "utf8_points (a # r) =
     (if unat a < 0x80 then map_option (Cons (unat a)) (utf8_points r)
      else if 0xC2 \<le> unat a \<and> unat a \<le> 0xDF then
        (case r of
           b # r' \<Rightarrow> if cont b
             then map_option (Cons ((unat a - 0xC0) * 64 + (unat b - 0x80))) (utf8_points r')
             else None
         | [] \<Rightarrow> None)
      else if 0xE0 \<le> unat a \<and> unat a \<le> 0xEF then
        (case r of
           b # c # r' \<Rightarrow> if second_ok a b \<and> cont c
             then map_option (Cons ((unat a - 0xE0) * 4096 + (unat b - 0x80) * 64 + (unat c - 0x80)))
                    (utf8_points r')
             else None
         | _ \<Rightarrow> None)
      else if 0xF0 \<le> unat a \<and> unat a \<le> 0xF4 then
        (case r of
           b # c # d # r' \<Rightarrow> if second_ok a b \<and> cont c \<and> cont d
             then map_option (Cons ((unat a - 0xF0) * 262144 + (unat b - 0x80) * 4096
                    + (unat c - 0x80) * 64 + (unat d - 0x80))) (utf8_points r')
             else None
         | _ \<Rightarrow> None)
      else None)"

definition utf8_decode :: "bytes \<Rightarrow> jsstr option" where
  "utf8_decode bs = map_option from_points (utf8_points bs)"

text \<open>Without \<open>ignoreBOM\<close> the decoder drops one leading byte order mark.\<close>

definition utf8_decode_bom :: "bytes \<Rightarrow> jsstr option" where
  "utf8_decode_bom bs =
     utf8_decode (if take 3 bs = [0xEF, 0xBB, 0xBF] then drop 3 bs else bs)"

lemma unat_byte: "n < 256 \<Longrightarrow> unat (of_nat n :: byte) = n"
  by (simp add: unat_of_nat_byte)

lemma digits64:
  obtains w x y z where "p = w * 262144 + x * 4096 + y * 64 + (z::nat)" "x < 64" "y < 64" "z < 64"
    "p mod 64 = z" "p div 64 mod 64 = y" "p div 4096 mod 64 = x" "p div 262144 = w"
    "p div 64 = w * 4096 + x * 64 + y" "p div 4096 = w * 64 + x"
proof -
  have a: "p div 64 div 64 = p div 4096" and b: "p div 4096 div 64 = p div 262144"
    by (simp_all add: div_mult2_eq [symmetric])
  have 1: "p = p div 64 * 64 + p mod 64"
    and 2: "p div 64 = p div 4096 * 64 + p div 64 mod 64"
    and 3: "p div 4096 = p div 262144 * 64 + p div 4096 mod 64"
    using div_mult_mod_eq[of p 64] div_mult_mod_eq[of "p div 64" 64] div_mult_mod_eq[of "p div 4096" 64]
    by (simp_all add: a b)
  show thesis
    by (rule that[of "p div 262144" "p div 4096 mod 64" "p div 64 mod 64" "p mod 64"])
      (use 1 2 3 in \<open>linarith | simp\<close>)+
qed

lemma utf8_points_point:
  assumes "scalar p"
  shows "utf8_points (utf8_point p @ r) = map_option (Cons p) (utf8_points r)"
proof -
  obtain w x y z where d: "p = w * 262144 + x * 4096 + y * 64 + z" "x < 64" "y < 64" "z < 64"
    "p mod 64 = z" "p div 64 mod 64 = y" "p div 4096 mod 64 = x" "p div 262144 = w"
    "p div 64 = w * 4096 + x * 64 + y" "p div 4096 = w * 64 + x"
    by (rule digits64[of p])
  have sc: "p < 0x110000" "\<not> (0xD800 \<le> p \<and> p \<le> 0xDFFF)"
    using assms by (auto simp: scalar_def surrogate_def)
  consider "p < 0x80" | "0x80 \<le> p" "p < 0x800" | "0x800 \<le> p" "p < 0x10000" | "0x10000 \<le> p"
    by linarith
  then show ?thesis
  proof cases
    case 1
    then show ?thesis by (simp add: utf8_point_def unat_byte)
  next
    case 2
    then have "w = 0" "x = 0" using d(1-4) by linarith+
    then have p: "p = y * 64 + z" "p div 64 = y" using d by simp_all
    then have "2 \<le> y" "y < 32" using 2 d(4) by linarith+
    then have "utf8_points (utf8_point p @ r) = map_option (Cons (y * 64 + z)) (utf8_points r)"
      using 2 p(2) d(4,5) by (simp add: utf8_point_def unat_byte cont_def del: of_nat_add)
    then show ?thesis using p(1) by simp
  next
    case 3
    then have w: "w = 0" and x: "x < 16" using d(1-4) by linarith+
    have p: "p = x * 4096 + y * 64 + z" "p div 4096 = x" using d(1,10) w by simp_all
    have "x = 0 \<Longrightarrow> 32 \<le> y" "x = 13 \<Longrightarrow> y < 32" using 3 sc d(2-4) p(1) by linarith+
    then have "utf8_points (utf8_point p @ r) = map_option (Cons (x * 4096 + y * 64 + z)) (utf8_points r)"
      using 3 x p(2) d(3-6)
      by (auto simp: utf8_point_def unat_byte cont_def second_ok_def simp del: of_nat_add)
    then show ?thesis using p(1) by simp
  next
    case 4
    then have w: "w \<le> 4" using d(1-4) sc by linarith
    moreover have "w = 0 \<Longrightarrow> 16 \<le> x" "w = 4 \<Longrightarrow> x < 16" using 4 sc d(1-4) by linarith+
    ultimately show ?thesis using 4 d
      by (auto simp: utf8_point_def unat_byte cont_def second_ok_def simp del: of_nat_add)
  qed
qed

lemma utf8_points_encode [wire]:
  assumes "\<not> lone_surrogate s"
  shows "utf8_decode (utf8_encode s) = Some s"
proof -
  have "utf8_points (concat (map (\<lambda>p. utf8_point (if surrogate p then 0xFFFD else p)) ps)) = Some ps"
    if "\<forall>p \<in> set ps. scalar p" for ps
    using that by (induction ps) (auto simp: utf8_points_point scalar_def)
  then show ?thesis
    using assms by (simp add: not_lone_surrogate_iff utf8_decode_def utf8_encode_def)
qed

lemma of_nat_unat_eq: "unat (a :: byte) = n \<Longrightarrow> of_nat n = a"
  by auto

lemma div_mod64: "r < 64 \<Longrightarrow> (q * 64 + r) div 64 = q \<and> (q * 64 + r) mod 64 = (r::nat)"
  by simp

lemma cont_digit: "cont b \<Longrightarrow> unat b = 0x80 + (unat b - 0x80) \<and> unat b - 0x80 < 64"
  by (auto simp: cont_def)

lemma second_cont: "second_ok a b \<Longrightarrow> cont b"
  by (auto simp: second_ok_def cont_def split: if_splits)

lemma utf8_point2:
  assumes "0xC2 \<le> unat a" "unat a \<le> 0xDF" "cont b"
  defines "p \<equiv> (unat a - 0xC0) * 64 + (unat b - 0x80)"
  shows "scalar p" and "utf8_point p = [a, b]"
proof -
  define i j where "i = unat a - 0xC0" and "j = unat b - 0x80"
  then have i: "unat a = 0xC0 + i" "2 \<le> i" "i < 32" and j: "unat b = 0x80 + j" "j < 64"
    using assms(1-3) cont_digit[of b] by linarith+
  have p: "p = i * 64 + j" using i j by (simp add: p_def)
  then have "p div 64 = i" "p mod 64 = j" "0x80 \<le> p" "p < 0x800" using i j by auto
  moreover have "of_nat (0xC0 + i) = a" "of_nat (0x80 + j) = b"
    using i j by (auto intro: of_nat_unat_eq simp del: of_nat_add)
  ultimately show "scalar p" and "utf8_point p = [a, b]"
    by (auto simp: scalar_def surrogate_def utf8_point_def simp del: of_nat_add)
qed

lemma utf8_point3:
  assumes "0xE0 \<le> unat a" "unat a \<le> 0xEF" "second_ok a b" "cont c"
  defines "p \<equiv> (unat a - 0xE0) * 4096 + (unat b - 0x80) * 64 + (unat c - 0x80)"
  shows "scalar p" and "utf8_point p = [a, b, c]"
proof -
  define i j k where "i = unat a - 0xE0" and "j = unat b - 0x80" and "k = unat c - 0x80"
  then have i: "unat a = 0xE0 + i" "i < 16" and j: "unat b = 0x80 + j" "j < 64"
    and k: "unat c = 0x80 + k" "k < 64"
    using assms(1,2,4) cont_digit[of b] cont_digit[of c] second_cont[OF assms(3)] by linarith+
  have s: "i = 0 \<Longrightarrow> 32 \<le> j" "i = 13 \<Longrightarrow> j < 32"
    using assms(3) i j by (auto simp: second_ok_def)
  have p: "p = i * 4096 + j * 64 + k" using i j k by (simp add: p_def)
  then have q: "p = (i * 64 + j) * 64 + k" by simp
  have d64: "p div 64 = i * 64 + j" and "p mod 64 = k"
    unfolding q using k by (simp_all only: div_mod64)
  moreover have "p div 4096 = p div 64 div 64" by (simp add: div_mult2_eq [symmetric])
  then have "p div 4096 = i" unfolding d64 using j by (simp only: div_mod64)
  moreover have "p div 64 mod 64 = j" unfolding d64 using j by (simp only: div_mod64)
  moreover have "0x800 \<le> p" "p < 0x10000" "\<not> surrogate p"
    using s i j k p by (cases "i = 0"; cases "i = 13"; auto simp: surrogate_def)+
  moreover have "of_nat (0xE0 + i) = a" "of_nat (0x80 + j) = b" "of_nat (0x80 + k) = c"
    using i j k by (auto intro: of_nat_unat_eq simp del: of_nat_add)
  ultimately show "scalar p" and "utf8_point p = [a, b, c]"
    by (auto simp: scalar_def utf8_point_def simp del: of_nat_add)
qed

lemma utf8_point4:
  assumes "0xF0 \<le> unat a" "unat a \<le> 0xF4" "second_ok a b" "cont c" "cont d"
  defines "p \<equiv> (unat a - 0xF0) * 262144 + (unat b - 0x80) * 4096 + (unat c - 0x80) * 64 + (unat d - 0x80)"
  shows "scalar p" and "utf8_point p = [a, b, c, d]"
proof -
  define i j k l where "i = unat a - 0xF0" and "j = unat b - 0x80" and "k = unat c - 0x80"
    and "l = unat d - 0x80"
  then have i: "unat a = 0xF0 + i" "i \<le> 4" and j: "unat b = 0x80 + j" "j < 64"
    and k: "unat c = 0x80 + k" "k < 64" and l: "unat d = 0x80 + l" "l < 64"
    using assms(1,2,4,5) cont_digit[of b] cont_digit[of c] cont_digit[of d] second_cont[OF assms(3)]
    by linarith+
  have s: "i = 0 \<Longrightarrow> 16 \<le> j" "i = 4 \<Longrightarrow> j < 16"
    using assms(3) i j by (auto simp: second_ok_def)
  have p: "p = i * 262144 + j * 4096 + k * 64 + l" using i j k l by (simp add: p_def)
  then have q: "p = ((i * 64 + j) * 64 + k) * 64 + l" by simp
  have d64: "p div 64 = (i * 64 + j) * 64 + k" and "p mod 64 = l"
    unfolding q using l by (simp_all only: div_mod64)
  moreover have "p div 4096 = p div 64 div 64" by (simp add: div_mult2_eq [symmetric])
  then have d4096: "p div 4096 = i * 64 + j" unfolding d64 using k by (simp only: div_mod64)
  moreover have "p div 262144 = p div 4096 div 64" by (simp add: div_mult2_eq [symmetric])
  then have "p div 262144 = i" unfolding d4096 using j by (simp only: div_mod64)
  moreover have "p div 64 mod 64 = k" "p div 4096 mod 64 = j"
    unfolding d64 d4096 using j k by (simp_all only: div_mod64)
  moreover have "0x10000 \<le> p" "p < 0x110000"
    using s i j k l p by (cases "i = 0"; cases "i = 4"; auto)+
  moreover have "of_nat (0xF0 + i) = a" "of_nat (0x80 + j) = b" "of_nat (0x80 + k) = c"
    "of_nat (0x80 + l) = d"
    using i j k l by (auto intro: of_nat_unat_eq simp del: of_nat_add)
  ultimately show "scalar p" and "utf8_point p = [a, b, c, d]"
    by (auto simp: scalar_def surrogate_def utf8_point_def simp del: of_nat_add)
qed

lemma utf8_point1: "unat a < 0x80 \<Longrightarrow> scalar (unat a) \<and> utf8_point (unat a) = [a]"
  by (simp add: scalar_def surrogate_def utf8_point_def)

lemmas utf8_point_forms = utf8_point1 utf8_point2 utf8_point3 utf8_point4

lemma utf8_points_sound:
  "utf8_points bs = Some ps \<Longrightarrow> (\<forall>p \<in> set ps. scalar p) \<and> concat (map utf8_point ps) = bs"
proof (induction bs arbitrary: ps rule: utf8_points.induct)
  case 1
  then show ?case by simp
next
  case (2 a r)
  consider (one) "unat a < 0x80"
    | (two) b r' where "0xC2 \<le> unat a" "unat a \<le> 0xDF" "r = b # r'" "cont b"
    | (three) b c r' where "0xE0 \<le> unat a" "unat a \<le> 0xEF" "r = b # c # r'" "second_ok a b" "cont c"
    | (four) b c d r' where "0xF0 \<le> unat a" "unat a \<le> 0xF4" "r = b # c # d # r'"
        "second_ok a b" "cont c" "cont d"
    using 2(5) by (auto split: if_splits list.splits)
  then show ?case
  proof cases
    case one
    with 2(5) obtain qs where "utf8_points r = Some qs" "ps = unat a # qs" by auto
    with 2(1)[OF one, of qs] utf8_point1[OF one] show ?thesis by simp
  next
    case two
    with 2(5) obtain qs where "utf8_points r' = Some qs"
      "ps = ((unat a - 0xC0) * 64 + (unat b - 0x80)) # qs" by auto
    with two 2(2)[of b r' qs] utf8_point2[of a b] show ?thesis by simp
  next
    case three
    with 2(5) obtain qs where "utf8_points r' = Some qs"
      "ps = ((unat a - 0xE0) * 4096 + (unat b - 0x80) * 64 + (unat c - 0x80)) # qs" by auto
    with three 2(3)[of b "c # r'" c r' qs] utf8_point3[of a b c] show ?thesis by simp
  next
    case four
    with 2(5) obtain qs where "utf8_points r' = Some qs"
      "ps = ((unat a - 0xF0) * 262144 + (unat b - 0x80) * 4096 + (unat c - 0x80) * 64
        + (unat d - 0x80)) # qs" by auto
    with four 2(4)[of b "c # d # r'" c "d # r'" d r' qs] utf8_point4[of a b c d] show ?thesis by simp
  qed
qed

lemma utf8_decode_sound [wire]:
  assumes "utf8_decode bs = Some s"
  shows "utf8_encode s = bs" and "\<not> lone_surrogate s"
proof -
  from assms obtain ps where ps: "utf8_points bs = Some ps" and s: "s = from_points ps"
    by (auto simp: utf8_decode_def)
  note snd = utf8_points_sound[OF ps]
  then show "\<not> lone_surrogate s" by (simp add: s not_lone_surrogate_from_points)
  have "map (\<lambda>p. utf8_point (if surrogate p then 0xFFFD else p)) ps = map utf8_point ps"
    by (rule map_cong) (use snd in \<open>auto simp: scalar_def\<close>)
  with snd show "utf8_encode s = bs" by (simp add: s utf8_encode_def del: map_eq_conv)
qed

subsection \<open>White space, parts and pieces\<close>

text \<open>The white space and line terminators that \<open>\s\<close>, \<open>trim\<close> and \<open>trimEnd\<close> share.\<close>

definition is_space :: "code_unit \<Rightarrow> bool" where
  "is_space u \<longleftrightarrow> (let n = unat u in
     (0x09 \<le> n \<and> n \<le> 0x0D) \<or> n = 0x20 \<or> n = 0xA0 \<or> n = 0x1680 \<or> (0x2000 \<le> n \<and> n \<le> 0x200A)
     \<or> n = 0x2028 \<or> n = 0x2029 \<or> n = 0x202F \<or> n = 0x205F \<or> n = 0x3000 \<or> n = 0xFEFF)"

definition is_control :: "code_unit \<Rightarrow> bool" where
  "is_control u \<longleftrightarrow> unat u \<le> 0x1F \<or> unat u = 0x7F"

definition is_digit :: "code_unit \<Rightarrow> bool" where
  "is_digit u \<longleftrightarrow> 0x30 \<le> unat u \<and> unat u \<le> 0x39"

definition is_base64url :: "code_unit \<Rightarrow> bool" where
  "is_base64url u \<longleftrightarrow> (let n = unat u in
     (0x41 \<le> n \<and> n \<le> 0x5A) \<or> (0x61 \<le> n \<and> n \<le> 0x7A) \<or> (0x30 \<le> n \<and> n \<le> 0x39) \<or> n = 0x5F \<or> n = 0x2D)"

definition trimEnd :: "jsstr \<Rightarrow> jsstr" where
  "trimEnd s = rev (dropWhile is_space (rev s))"

definition trim :: "jsstr \<Rightarrow> jsstr" where
  "trim s = trimEnd (dropWhile is_space s)"

definition startsWith :: "jsstr \<Rightarrow> jsstr \<Rightarrow> bool" where
  "startsWith s p \<longleftrightarrow> take (length p) s = p"

definition endsWith :: "jsstr \<Rightarrow> jsstr \<Rightarrow> bool" where
  "endsWith s p \<longleftrightarrow> length p \<le> length s \<and> drop (length s - length p) s = p"

text \<open>\<open>split\<close> at every code unit of a class, and \<open>join\<close>.\<close>

fun split_on :: "(code_unit \<Rightarrow> bool) \<Rightarrow> jsstr \<Rightarrow> jsstr list" where
  "split_on P [] = [[]]"
| "split_on P (c # cs) =
     (if P c then [] # split_on P cs
      else (case split_on P cs of w # ws \<Rightarrow> (c # w) # ws | [] \<Rightarrow> [[c]]))"

fun join :: "jsstr \<Rightarrow> jsstr list \<Rightarrow> jsstr" where
  "join sep [] = []"
| "join sep [w] = w"
| "join sep (w # v # ws) = w @ sep @ join sep (v # ws)"

lemma trimEnd_append: "s \<noteq> [] \<Longrightarrow> \<not> is_space (last s) \<Longrightarrow> trimEnd s = s"
  by (cases s rule: rev_cases) (auto simp: trimEnd_def)

lemma trimEnd_Nil [simp]: "trimEnd [] = []"
  by (simp add: trimEnd_def)

lemma trimEnd_last: "trimEnd s \<noteq> [] \<Longrightarrow> \<not> is_space (last (trimEnd s))"
  unfolding trimEnd_def last_rev
  by (metis hd_dropWhile rev_is_Nil_conv)

lemma trimEnd_prefix: "\<exists>t. s = trimEnd s @ t"
proof -
  have "rev s = takeWhile is_space (rev s) @ dropWhile is_space (rev s)" by simp
  then have "s = rev (dropWhile is_space (rev s)) @ rev (takeWhile is_space (rev s))"
    by (metis rev_append rev_rev_ident)
  then show ?thesis unfolding trimEnd_def by blast
qed

lemma trimEnd_set: "set (trimEnd s) \<subseteq> set s"
  by (metis trimEnd_prefix set_append sup_ge1)

lemma length_trimEnd: "length (trimEnd s) \<le> length s"
  by (metis trimEnd_prefix length_append le_add1)

lemma split_on_nonempty [simp]: "split_on P s \<noteq> []"
  by (induction s) (auto split: list.splits)

lemma split_on_none: "(\<And>c. c \<in> set s \<Longrightarrow> \<not> P c) \<Longrightarrow> split_on P s = [s]"
  by (induction s) auto

lemma split_on_sound: "w \<in> set (split_on P s) \<Longrightarrow> c \<in> set w \<Longrightarrow> \<not> P c \<and> c \<in> set s"
  by (induction s arbitrary: w) (fastforce split: if_splits list.splits)+

end
