(* ===== verification/Json.thy ===== *)
theory Json
  imports Jsstring
begin

text \<open>
  The JSON of ECMAScript as the protocol's messages and the envelope's metadata use it:
  values, the text \<open>JSON.stringify\<close> gives a string or a whole number, and
  \<open>JSON.parse\<close>. The parser takes fuel; \<open>parse_enough\<close> shows that the fuel
  \<open>JSON_parse\<close> gives it is always enough, so fuel never decides a result.

  A parsed number is kept as far as the code looks at it: a safe integer, minus zero, or
  any other double. An object keeps its members in the order they were first written, and
  a repeated name takes the last value, as in the source language.
\<close>

datatype jsnum = Whole int | NegZero | Other

datatype json =
    JNull
  | JBool bool
  | JNum jsnum
  | JStr jsstr
  | JArr "json list"
  | JObj "(jsstr \<times> json) list"

fun put :: "jsstr \<Rightarrow> json \<Rightarrow> (jsstr \<times> json) list \<Rightarrow> (jsstr \<times> json) list" where
  "put k v [] = [(k, v)]"
| "put k v ((k', v') # kvs) = (if k' = k then (k, v) # kvs else (k', v') # put k v kvs)"

subsection \<open>Writing\<close>

definition hex_unit :: "nat \<Rightarrow> code_unit" where
  "hex_unit n = (if n < 10 then of_nat (0x30 + n) else of_nat (0x57 + n))"

definition hex4 :: "nat \<Rightarrow> jsstr" where
  "hex4 n = [hex_unit (n div 4096), hex_unit (n div 256 mod 16), hex_unit (n div 16 mod 16), hex_unit (n mod 16)]"

text \<open>One code point of a quoted string: the short escapes, then \<open>\u\<close> for the other
  controls and for lone surrogates, then the code point itself.\<close>

definition quote_point :: "nat \<Rightarrow> jsstr" where
  "quote_point p =
     (if p = 0x22 then [0x5C, 0x22] else if p = 0x5C then [0x5C, 0x5C]
      else if p = 0x08 then [0x5C, 0x62] else if p = 0x0C then [0x5C, 0x66]
      else if p = 0x0A then [0x5C, 0x6E] else if p = 0x0D then [0x5C, 0x72]
      else if p = 0x09 then [0x5C, 0x74]
      else if p < 0x20 \<or> surrogate p then 0x5C # 0x75 # hex4 p
      else point_units p)"

definition JSON_quote :: "jsstr \<Rightarrow> jsstr" where
  "JSON_quote s = 0x22 # concat (map quote_point (code_points s)) @ [0x22]"

fun decimal :: "nat \<Rightarrow> jsstr" where
  "decimal n = (if n < 10 then [of_nat (0x30 + n)] else decimal (n div 10) @ [of_nat (0x30 + n mod 10)])"

declare decimal.simps [simp del]

subsection \<open>Reading\<close>

definition is_ws :: "code_unit \<Rightarrow> bool" where
  "is_ws u \<longleftrightarrow> u = 0x20 \<or> u = 0x09 \<or> u = 0x0A \<or> u = 0x0D"

definition skip_ws :: "jsstr \<Rightarrow> jsstr" where
  "skip_ws s = dropWhile is_ws s"

definition hex_value :: "code_unit \<Rightarrow> nat option" where
  "hex_value u =
     (let n = unat u in
      if 0x30 \<le> n \<and> n \<le> 0x39 then Some (n - 0x30)
      else if 0x61 \<le> n \<and> n \<le> 0x66 then Some (n - 0x57)
      else if 0x41 \<le> n \<and> n \<le> 0x46 then Some (n - 0x37)
      else None)"

definition unescape :: "code_unit \<Rightarrow> code_unit option" where
  "unescape e =
     (if e = 0x22 then Some 0x22 else if e = 0x5C then Some 0x5C else if e = 0x2F then Some 0x2F
      else if e = 0x62 then Some 0x08 else if e = 0x66 then Some 0x0C else if e = 0x6E then Some 0x0A
      else if e = 0x72 then Some 0x0D else if e = 0x74 then Some 0x09 else None)"

text \<open>The rest of a string after its opening quote.\<close>

fun parse_string :: "jsstr \<Rightarrow> (jsstr \<times> jsstr) option" where
  "parse_string [] = None"
| "parse_string (u # us) =
     (if u = 0x22 then Some ([], us)
      else if unat u < 0x20 then None
      else if u = 0x5C then
        (case us of
           [] \<Rightarrow> None
         | e # r \<Rightarrow>
             if e = 0x75 then
               (case r of
                  a # b # c # d # r' \<Rightarrow>
                    (case (hex_value a, hex_value b, hex_value c, hex_value d) of
                       (Some i, Some j, Some k, Some l) \<Rightarrow>
                         map_option (apfst (Cons (of_nat (i * 4096 + j * 256 + k * 16 + l)))) (parse_string r')
                     | _ \<Rightarrow> None)
                | _ \<Rightarrow> None)
             else
               (case unescape e of
                  Some v \<Rightarrow> map_option (apfst (Cons v)) (parse_string r)
                | None \<Rightarrow> None))
      else map_option (apfst (Cons u)) (parse_string us))"

definition digits_value :: "jsstr \<Rightarrow> nat" where
  "digits_value ds = foldl (\<lambda>n d. n * 10 + (unat d - 0x30)) 0 ds"

text \<open>
  The double nearest to the fraction \<open>n / d\<close>, ties to even, as far as it is a safe
  integer. \<open>scale\<close> finds the exponent at which the significand has 53 bits (or the
  smallest exponent a double has).
\<close>

fun scale :: "nat \<Rightarrow> nat \<Rightarrow> nat \<Rightarrow> nat \<Rightarrow> nat" where
  "scale 0 k n d = k"
| "scale (Suc f) k n d = (if n * 2 ^ Suc k < 2 ^ 53 * d then scale f (Suc k) n d else k)"

definition half_even :: "nat \<Rightarrow> nat \<Rightarrow> nat" where
  "half_even n d =
     (let q = n div d; r = n mod d in
      if 2 * r < d \<or> (2 * r = d \<and> even q) then q else Suc q)"

definition safe_double :: "nat \<Rightarrow> nat \<Rightarrow> nat option" where
  "safe_double n d =
     (if 2 ^ 53 * d \<le> n then None
      else let k = scale 1074 0 n d; m = half_even (n * 2 ^ k) d in
        if 2 ^ k dvd m \<and> m div 2 ^ k < 2 ^ 53 then Some (m div 2 ^ k) else None)"

definition number_value :: "bool \<Rightarrow> jsstr \<Rightarrow> jsstr \<Rightarrow> int \<Rightarrow> jsnum" where
  "number_value neg ds fs e =
     (let i = digits_value (ds @ fs); x = e - int (length fs);
          v = (if x = 0 \<and> i < 2 ^ 53 then Some i
               else if 0 \<le> x then safe_double (i * 10 ^ nat x) 1
               else safe_double i (10 ^ nat (- x)))
      in case v of
           None \<Rightarrow> Other
         | Some n \<Rightarrow> if neg then (if n = 0 then NegZero else Whole (- int n)) else Whole (int n))"

definition parse_exponent :: "jsstr \<Rightarrow> (int \<times> jsstr) option" where
  "parse_exponent s =
     (case s of
        c # r \<Rightarrow>
          if c = 0x65 \<or> c = 0x45 then
            (let neg = (case r of m # _ \<Rightarrow> m = 0x2D | [] \<Rightarrow> False);
                 r' = (case r of m # t \<Rightarrow> if m = 0x2D \<or> m = 0x2B then t else r | [] \<Rightarrow> r);
                 es = takeWhile is_digit r'
             in if es = [] then None
                else Some (if neg then - int (digits_value es) else int (digits_value es), dropWhile is_digit r'))
          else Some (0, s)
      | [] \<Rightarrow> Some (0, s))"

definition parse_fraction :: "jsstr \<Rightarrow> (jsstr \<times> jsstr) option" where
  "parse_fraction s =
     (case s of
        c # r \<Rightarrow> if c = 0x2E then
            (let fs = takeWhile is_digit r in if fs = [] then None else Some (fs, dropWhile is_digit r))
          else Some ([], s)
      | [] \<Rightarrow> Some ([], s))"

definition int_part :: "jsstr \<Rightarrow> jsstr" where
  "int_part s = (case s of c # _ \<Rightarrow> if c = 0x30 then [c] else takeWhile is_digit s | [] \<Rightarrow> [])"

definition parse_unsigned :: "bool \<Rightarrow> jsstr \<Rightarrow> (json \<times> jsstr) option" where
  "parse_unsigned neg s =
     (if int_part s = [] then None
      else case parse_fraction (drop (length (int_part s)) s) of
             None \<Rightarrow> None
           | Some (fs, s2) \<Rightarrow>
               (case parse_exponent s2 of
                  None \<Rightarrow> None
                | Some (e, s3) \<Rightarrow> Some (JNum (number_value neg (int_part s) fs e), s3)))"

definition parse_number :: "jsstr \<Rightarrow> (json \<times> jsstr) option" where
  "parse_number s =
     (case s of
        c # r \<Rightarrow> if c = 0x2D then parse_unsigned True r else parse_unsigned False s
      | [] \<Rightarrow> None)"

definition literal :: "jsstr \<Rightarrow> json \<Rightarrow> jsstr \<Rightarrow> (json \<times> jsstr) option" where
  "literal w v s = (if startsWith s w then Some (v, drop (length w) s) else None)"

text \<open>A value that is neither an object nor an array.\<close>

definition parse_leaf :: "jsstr \<Rightarrow> (json \<times> jsstr) option" where
  "parse_leaf s =
     (case s of
        [] \<Rightarrow> None
      | c # r \<Rightarrow>
          if c = 0x22 then map_option (apfst JStr) (parse_string r)
          else if c = 0x74 then literal (js ''true'') (JBool True) s
          else if c = 0x66 then literal (js ''false'') (JBool False) s
          else if c = 0x6E then literal (js ''null'') JNull s
          else parse_number s)"

fun parse_value :: "nat \<Rightarrow> jsstr \<Rightarrow> (json \<times> jsstr) option"
and parse_elements :: "nat \<Rightarrow> json list \<Rightarrow> jsstr \<Rightarrow> (json \<times> jsstr) option"
and parse_members :: "nat \<Rightarrow> (jsstr \<times> json) list \<Rightarrow> jsstr \<Rightarrow> (json \<times> jsstr) option" where
  "parse_value 0 s = None"
| "parse_value (Suc n) s =
     (case skip_ws s of
        [] \<Rightarrow> None
      | c # r \<Rightarrow>
          if c = 0x7B then
            (case skip_ws r of
               x # r' \<Rightarrow> if x = 0x7D then Some (JObj [], r') else parse_members n [] (x # r')
             | [] \<Rightarrow> None)
          else if c = 0x5B then
            (case skip_ws r of
               x # r' \<Rightarrow> if x = 0x5D then Some (JArr [], r') else parse_elements n [] (x # r')
             | [] \<Rightarrow> None)
          else parse_leaf (c # r))"
| "parse_elements 0 acc s = None"
| "parse_elements (Suc n) acc s =
     (case parse_value n s of
        None \<Rightarrow> None
      | Some (v, r) \<Rightarrow>
          (case skip_ws r of
             [] \<Rightarrow> None
           | c # r' \<Rightarrow>
               if c = 0x2C then parse_elements n (acc @ [v]) r'
               else if c = 0x5D then Some (JArr (acc @ [v]), r')
               else None))"
| "parse_members 0 acc s = None"
| "parse_members (Suc n) acc s =
     (case skip_ws s of
        [] \<Rightarrow> None
      | q # r \<Rightarrow>
          if q \<noteq> 0x22 then None
          else (case parse_string r of
                  None \<Rightarrow> None
                | Some (k, r1) \<Rightarrow>
                    (case skip_ws r1 of
                       [] \<Rightarrow> None
                     | m # r2 \<Rightarrow>
                         if m \<noteq> 0x3A then None
                         else (case parse_value n r2 of
                                 None \<Rightarrow> None
                               | Some (v, r3) \<Rightarrow>
                                   (case skip_ws r3 of
                                      [] \<Rightarrow> None
                                    | c # r4 \<Rightarrow>
                                        if c = 0x2C then parse_members n (put k v acc) r4
                                        else if c = 0x7D then Some (JObj (put k v acc), r4)
                                        else None)))))"

definition JSON_parse :: "jsstr \<Rightarrow> json option" where
  "JSON_parse s =
     (case parse_value (2 * length s + 1) s of
        Some (v, r) \<Rightarrow> if skip_ws r = [] then Some v else None
      | None \<Rightarrow> None)"

subsection \<open>Fuel never decides a result\<close>

lemma length_skip_ws: "length (skip_ws s) \<le> length s"
  by (simp add: skip_ws_def length_dropWhile_le)

lemma skip_ws_Cons: "skip_ws s = c # t \<Longrightarrow> length t < length s"
  using length_skip_ws[of s] by simp

lemma parse_string_shorter: "parse_string s = Some (x, r) \<Longrightarrow> length r < length s"
  by (induction s arbitrary: x rule: parse_string.induct)
    (fastforce split: if_splits list.splits option.splits prod.splits)+

lemma parse_fraction_shorter: "parse_fraction s = Some (x, r) \<Longrightarrow> length r \<le> length s"
  by (auto simp: parse_fraction_def Let_def split: list.splits if_splits
      intro: le_SucI length_dropWhile_le)

lemma parse_exponent_shorter: "parse_exponent s = Some (x, r) \<Longrightarrow> length r \<le> length s"
  by (auto simp: parse_exponent_def Let_def split: list.splits if_splits
      intro: le_SucI length_dropWhile_le)

lemma parse_unsigned_shorter:
  assumes "parse_unsigned neg s = Some (v, r)"
  shows "length r < length s"
proof -
  from assms obtain fs s2 e where ds: "int_part s \<noteq> []"
    and f: "parse_fraction (drop (length (int_part s)) s) = Some (fs, s2)"
    and e: "parse_exponent s2 = Some (e, r)"
    by (auto simp: parse_unsigned_def split: if_splits option.splits)
  have "s \<noteq> []" using ds by (auto simp: int_part_def)
  then have "length (drop (length (int_part s)) s) < length s" using ds by simp
  then show ?thesis
    using parse_fraction_shorter[OF f] parse_exponent_shorter[OF e] by linarith
qed

lemma literal_shorter:
  assumes "literal w v s = Some (x, r)" and "w \<noteq> []"
  shows "length r < length s"
proof -
  have "r = drop (length w) s" "take (length w) s = w"
    using assms(1) by (auto simp: literal_def startsWith_def split: if_splits)
  moreover from this assms(2) have "s \<noteq> []" by auto
  ultimately show ?thesis using assms(2) by simp
qed

lemma js_nonempty [simp]: "js (c # s) \<noteq> []"
  by (simp add: js_def)

lemma parse_leaf_shorter: "parse_leaf s = Some (v, r) \<Longrightarrow> length r < length s"
  by (auto simp: parse_leaf_def parse_number_def split: list.splits if_splits
      dest: parse_string_shorter parse_unsigned_shorter literal_shorter)

lemma parse_enough:
  "parse_value n s = Some (v, r) \<Longrightarrow>
     length r < length s \<and> (\<forall>m. 2 * length s < m \<longrightarrow> parse_value m s = Some (v, r))"
  "parse_elements n acc s = Some (v, r) \<Longrightarrow>
     length r < length s \<and> (\<forall>m. 2 * length s + 1 < m \<longrightarrow> parse_elements m acc s = Some (v, r))"
  "parse_members n mem s = Some (v, r) \<Longrightarrow>
     length r < length s \<and> (\<forall>m. 2 * length s + 1 < m \<longrightarrow> parse_members m mem s = Some (v, r))"
proof (induction n s and n acc s and n mem s arbitrary: v r and v r and v r
    rule: parse_value_parse_elements_parse_members.induct)
  case (2 n s)
  obtain c t where ct: "skip_ws s = c # t" using 2(3) by (auto split: list.splits)
  note ls = skip_ws_Cons[OF ct]
  consider (obj) x u where "c = 0x7B" "skip_ws t = x # u" "x \<noteq> 0x7D" "parse_members n [] (x # u) = Some (v, r)"
    | (arr) x u where "c = 0x5B" "skip_ws t = x # u" "x \<noteq> 0x5D" "parse_elements n [] (x # u) = Some (v, r)"
    | (other) "length r < length s" "\<And>m. parse_value (Suc m) s = Some (v, r)"
  proof (cases "c = 0x7B \<or> c = 0x5B")
    case True
    have emp: thesis if "skip_ws t = x # r" "\<And>m. parse_value (Suc m) s = Some (v, r)" for x
      by (rule other) (use skip_ws_Cons[OF that(1)] ls that(2) in auto)
    show thesis
      using True 2(3) ct by (auto intro: obj arr emp split: list.splits if_splits)
  next
    case False
    then have p: "parse_leaf (c # t) = Some (v, r)" using 2(3) ct by simp
    show thesis
      by (rule other) (use parse_leaf_shorter[OF p] ls p False ct in auto)
  qed
  then show ?case
  proof cases
    case obj
    have l: "length (x # u) \<le> length t" using obj(2) length_skip_ws[of t] by simp
    have "length r < length (x # u) \<and> (\<forall>m. 2 * length (x # u) + 1 < m \<longrightarrow> parse_members m [] (x # u) = Some (v, r))"
      by (rule 2(1)[OF ct obj(1) obj(2) obj(3) obj(4)])
    moreover have "parse_value m s = parse_members (m - 1) [] (x # u)" if "0 < m" for m
      using obj ct that by (cases m) auto
    ultimately show ?thesis using l ls by auto
  next
    case arr
    have l: "length (x # u) \<le> length t" using arr(2) length_skip_ws[of t] by simp
    have "c \<noteq> 0x7B" using arr(1) by simp
    then have "length r < length (x # u) \<and> (\<forall>m. 2 * length (x # u) + 1 < m \<longrightarrow> parse_elements m [] (x # u) = Some (v, r))"
      by (rule 2(2)[OF ct _ arr(1) arr(2) arr(3) arr(4)])
    moreover have "parse_value m s = parse_elements (m - 1) [] (x # u)" if "0 < m" for m
      using arr ct that by (cases m) auto
    ultimately show ?thesis using l ls by auto
  next
    case other
    have "parse_value m s = Some (v, r)" if "0 < m" for m
      using other(2) that by (cases m) auto
    then show ?thesis using other(1) by simp
  qed
next
  case (4 n acc s)
  obtain w t where w: "parse_value n s = Some (w, t)" using 4(3) by (auto split: option.splits)
  obtain c u where cu: "skip_ws t = c # u" using 4(3) w by (auto split: list.splits)
  have t: "length t < length s" and e: "\<And>m. 2 * length s < m \<Longrightarrow> parse_value m s = Some (w, t)"
    using 4(1)[OF w] by auto
  have step: "parse_elements m acc s = (if c = 0x2C then parse_elements (m - 1) (acc @ [w]) u
      else if c = 0x5D then Some (JArr (acc @ [w]), u) else None)" if "2 * length s + 1 < m" for m
    using that e[of "m - 1"] cu by (cases m) auto
  show ?case
  proof (cases "c = 0x2C")
    case True
    then have "parse_elements n (acc @ [w]) u = Some (v, r)" using 4(3) w cu by simp
    from 4(2)[OF w _ cu True this] skip_ws_Cons[OF cu] t show ?thesis
      by (auto simp: step True)
  next
    case False
    then have "v = JArr (acc @ [w])" "r = u" "c = 0x5D" using 4(3) w cu by (auto split: if_splits)
    with skip_ws_Cons[OF cu] t show ?thesis by (auto simp: step)
  qed
next
  case (6 n mem s)
  obtain q s1 where q: "skip_ws s = q # s1" "q = 0x22" using 6(3) by (auto split: list.splits if_splits)
  obtain k s2 where k: "parse_string s1 = Some (k, s2)" using 6(3) q by (auto split: option.splits)
  obtain m s3 where m: "skip_ws s2 = m # s3" "m = 0x3A" using 6(3) q k by (auto split: list.splits if_splits)
  obtain w t where w: "parse_value n s3 = Some (w, t)" using 6(3) q k m by (auto split: option.splits)
  obtain c u where cu: "skip_ws t = c # u" using 6(3) q k m w by (auto split: list.splits)
  have l: "length s3 < length s"
    using skip_ws_Cons[OF q(1)] parse_string_shorter[OF k] skip_ws_Cons[OF m(1)] by linarith
  have t: "length t < length s3" and e: "\<And>m. 2 * length s3 < m \<Longrightarrow> parse_value m s3 = Some (w, t)"
    using 6(1)[OF q(1) _ k _ m(1) _ w] q(2) m(2) by auto
  have step: "parse_members i mem s = (if c = 0x2C then parse_members (i - 1) (put k w mem) u
      else if c = 0x7D then Some (JObj (put k w mem), u) else None)" if "2 * length s + 1 < i" for i
    using that e[of "i - 1"] q k m cu l by (cases i) auto
  show ?case
  proof (cases "c = 0x2C")
    case True
    then have "parse_members n (put k w mem) u = Some (v, r)" using 6(3) q k m w cu by simp
    from 6(2)[OF q(1) _ k _ m(1) _ w _ cu True this] q(2) m(2) skip_ws_Cons[OF cu] t l show ?thesis
      by (auto simp: step True)
  next
    case False
    then have "v = JObj (put k w mem)" "r = u" "c = 0x7D"
      using 6(3) q k m w cu by (auto split: if_splits)
    with skip_ws_Cons[OF cu] t l show ?thesis by (auto simp: step)
  qed
qed simp_all

lemma parse_value_fuel:
  assumes "parse_value n s = Some (v, r)"
  shows "parse_value (2 * length s + 1) s = Some (v, r)"
  using parse_enough(1)[OF assms] by (simp del: parse_value.simps)

subsection \<open>Round trips of strings and whole numbers\<close>

lemma hex_value_unit [simp]: "n < 16 \<Longrightarrow> hex_value (hex_unit n) = Some n"
  by (auto simp: hex_value_def hex_unit_def unat_of_nat_unit Let_def simp del: of_nat_add)

lemma hex4_value:
  assumes "p < (65536::nat)"
  shows "p div 4096 * 4096 + p div 256 mod 16 * 256 + p div 16 mod 16 * 16 + p mod 16 = p"
proof -
  have "p div 256 div 16 = p div 4096" "p div 16 div 16 = p div 256"
    by (simp_all add: div_mult2_eq [symmetric])
  moreover have "p = p div 16 * 16 + p mod 16" "p div 16 = p div 16 div 16 * 16 + p div 16 mod 16"
    "p div 256 = p div 256 div 16 * 16 + p div 256 mod 16"
    by (simp_all only: div_mult_mod_eq)
  ultimately show ?thesis by linarith
qed

lemma parse_string_plain:
  "u \<noteq> 0x22 \<Longrightarrow> u \<noteq> 0x5C \<Longrightarrow> \<not> unat u < 0x20 \<Longrightarrow>
     parse_string (u # t) = map_option (apfst (Cons u)) (parse_string t)"
  by simp

lemma parse_string_hex:
  assumes "p < 65536"
  shows "parse_string (0x5C # 0x75 # hex4 p @ t) = map_option (apfst (Cons (of_nat p))) (parse_string t)"
proof -
  have "p div 4096 < 16" using assms by (simp add: less_mult_imp_div_less)
  then show ?thesis using hex4_value[OF assms] by (simp add: hex4_def)
qed

lemma of_nat_unit_eq_iff: "p < 65536 \<Longrightarrow> q < 65536 \<Longrightarrow> (of_nat p :: code_unit) = of_nat q \<longleftrightarrow> p = q"
  by (metis unat_of_nat_unit mod_less)

lemma parse_string_units:
  assumes "\<not> surrogate p" "p < 0x110000" "0x20 \<le> p" "p \<noteq> 0x22" "p \<noteq> 0x5C"
  shows "parse_string (point_units p @ t) = map_option (apfst (append (point_units p))) (parse_string t)"
proof (cases "p < 0x10000")
  case True
  have "(of_nat p :: code_unit) \<noteq> 0x22" "(of_nat p :: code_unit) \<noteq> 0x5C"
    using of_nat_unit_eq_iff[of p "0x22"] of_nat_unit_eq_iff[of p "0x5C"] True assms by simp_all
  moreover have "unat (of_nat p :: code_unit) = p" using True by (simp add: unat_of_nat_unit)
  ultimately have "parse_string (of_nat p # t) = map_option (apfst (Cons (of_nat p))) (parse_string t)"
    using assms(3) by (intro parse_string_plain) auto
  moreover have "(append [of_nat p] :: jsstr \<Rightarrow> jsstr) = Cons (of_nat p)" by (rule ext) simp
  ultimately show ?thesis using True by (simp add: point_units_def)
next
  case False
  let ?h = "of_nat (0xD800 + (p - 0x10000) div 0x400) :: code_unit"
  let ?l = "of_nat (0xDC00 + (p - 0x10000) mod 0x400) :: code_unit"
  have dv: "(p - 0x10000) div 0x400 < 0x400"
    by (rule less_mult_imp_div_less) (use assms(2) in auto)
  have md: "(p - 0x10000) mod 0x400 < 0x400" by simp
  have h: "unat ?h = 0xD800 + (p - 0x10000) div 0x400" and l: "unat ?l = 0xDC00 + (p - 0x10000) mod 0x400"
    unfolding unat_of_nat_unit using dv md by simp_all
  have ne: "u \<noteq> 0x22 \<and> u \<noteq> 0x5C \<and> \<not> unat u < 0x20" if "0xD800 \<le> unat u" for u :: code_unit
    using that by (auto simp del: word_less_eq_iff_unsigned)
  have u: "point_units p = [?h, ?l]" using False by (simp add: point_units_def)
  have "parse_string ([?h, ?l] @ t) = map_option (apfst (Cons ?h)) (map_option (apfst (Cons ?l)) (parse_string t))"
    using ne[of ?h] ne[of ?l] h l by (simp only: append_Cons append_Nil parse_string_plain) simp
  then show ?thesis unfolding u by (cases "parse_string t") (auto simp: apfst_def map_prod_def)
qed

lemma parse_string_quote_point:
  assumes "p < 0x110000"
  shows "parse_string (quote_point p @ t) = map_option (apfst (append (point_units p))) (parse_string t)"
proof -
  have one: "(append [u] :: jsstr \<Rightarrow> jsstr) = Cons u" for u by (rule ext) simp
  have hexed: "parse_string ((0x5C # 0x75 # hex4 p) @ t) = map_option (apfst (append (point_units p))) (parse_string t)"
    if "p < 0x20 \<or> surrogate p"
  proof -
    have "p < 65536" using that by (auto simp: surrogate_def)
    then show ?thesis using parse_string_hex[of p t] by (simp add: point_units_def one del: parse_string.simps)
  qed
  show ?thesis
  proof (cases "p = 0x22 \<or> p = 0x5C \<or> p = 8 \<or> p = 0xC \<or> p = 0xA \<or> p = 0xD \<or> p = 9")
    case True
    then show ?thesis by (elim disjE) (simp_all add: quote_point_def point_units_def unescape_def one)
  next
    case False
    then show ?thesis
    proof (cases "p < 0x20 \<or> surrogate p")
      case True
      with False have "quote_point p = 0x5C # 0x75 # hex4 p" by (simp add: quote_point_def)
      then show ?thesis using hexed[OF True] by simp
    next
      case plain: False
      with False have "quote_point p = point_units p" by (simp add: quote_point_def)
      with plain False assms show ?thesis using parse_string_units[of p t] by simp
    qed
  qed
qed

lemma parse_string_quote [wire]: "parse_string (tl (JSON_quote s) @ t) = Some (s, t)"
proof -
  have "parse_string (concat (map quote_point ps) @ 0x22 # t) = Some (from_points ps, t)"
    if "\<forall>p \<in> set ps. p < 0x110000" for ps
    using that by (induction ps) (simp_all add: parse_string_quote_point)
  from this[of "code_points s"] show ?thesis
    using code_points_bound[of _ s] by (simp add: JSON_quote_def)
qed

lemma decimal_digits: "\<forall>d \<in> set (decimal n). is_digit d"
proof (induction n rule: decimal.induct)
  case (1 n)
  have d: "is_digit (of_nat (0x30 + k))" if "k < 10" for k
    using that by (simp add: is_digit_def unat_of_nat_unit del: of_nat_add)
  show ?case
  proof (cases "n < 10")
    case True
    then show ?thesis using d[of n] by (subst decimal.simps) (simp del: of_nat_add)
  next
    case False
    then show ?thesis using 1[OF False] d[of "n mod 10"]
      by (subst decimal.simps) (simp del: of_nat_add)
  qed
qed

lemma decimal_nonempty [simp]: "decimal n \<noteq> []"
  by (subst decimal.simps) simp

lemma digits_value_append: "digits_value (ds @ [d]) = digits_value ds * 10 + (unat d - 0x30)"
  by (simp add: digits_value_def)

lemma digits_value_decimal [simp]: "digits_value (decimal n) = n"
proof (induction n rule: decimal.induct)
  case (1 n)
  have d: "unat (of_nat (0x30 + k) :: code_unit) = 0x30 + k" if "k < 10" for k
    using that by (simp add: unat_of_nat_unit del: of_nat_add)
  show ?case
  proof (cases "n < 10")
    case True
    then show ?thesis using d[of n]
      by (subst decimal.simps) (simp add: digits_value_def del: of_nat_add)
  next
    case False
    then show ?thesis using 1[OF False] d[of "n mod 10"]
      by (subst decimal.simps) (simp add: digits_value_append del: of_nat_add)
  qed
qed

lemma decimal_first: "hd (decimal n) = 0x30 \<longleftrightarrow> n = 0"
proof (induction n rule: decimal.induct)
  case (1 n)
  have d: "of_nat (0x30 + k) = (0x30 :: code_unit) \<longleftrightarrow> k = 0" if "k < 10" for k
    using that of_nat_unit_eq_iff[of "0x30 + k" "0x30"] by simp
  show ?case
  proof (cases "n < 10")
    case True
    then show ?thesis using d[of n] by (subst decimal.simps) (simp del: of_nat_add)
  next
    case False
    then have "n div 10 \<noteq> 0" by simp
    with False show ?thesis using 1[OF False] by (subst decimal.simps) simp
  qed
qed

text \<open>What may follow a number in the text of a value.\<close>

definition number_end :: "jsstr \<Rightarrow> bool" where
  "number_end r \<longleftrightarrow> r = [] \<or> (\<not> is_digit (hd r) \<and> hd r \<noteq> 0x2E \<and> hd r \<noteq> 0x65 \<and> hd r \<noteq> 0x45)"

lemma parse_number_decimal [wire]:
  assumes "n < 2 ^ 53" and "number_end r"
  shows "parse_number (decimal n @ r) = Some (JNum (Whole (int n)), r)"
proof -
  obtain c t where ct: "decimal n = c # t" by (cases "decimal n") auto
  have dig: "is_digit c" "\<forall>d \<in> set (decimal n). is_digit d" using decimal_digits[of n] ct by auto
  have c: "c \<noteq> 0x2D" using dig(1) by (auto simp: is_digit_def)
  have tw: "takeWhile is_digit (decimal n @ r) = decimal n"
    using dig(2) assms(2) by (cases r) (auto simp: number_end_def takeWhile_append2)
  have ip: "int_part (decimal n @ r) = decimal n"
  proof (cases "n = 0")
    case True
    then show ?thesis by (simp add: int_part_def decimal.simps[of 0])
  next
    case False
    then have "c \<noteq> 0x30" using decimal_first[of n] ct by simp
    then show ?thesis using tw ct by (simp add: int_part_def)
  qed
  have "parse_fraction r = Some ([], r)" "parse_exponent r = Some (0, r)"
    using assms(2) by (auto simp: parse_fraction_def parse_exponent_def number_end_def split: list.splits)
  then have "parse_unsigned False (decimal n @ r) = Some (JNum (Whole (int n)), r)"
    using assms(1) by (simp add: parse_unsigned_def ip number_value_def)
  then show ?thesis using c by (simp add: parse_number_def ct)
qed

subsection \<open>Well-formed values\<close>

lemma size_member: "kv \<in> set kvs \<Longrightarrow> size (snd kv) < Suc (size_list (size_prod (\<lambda>_. 0) size) kvs)"
  by (induction kvs) auto

lemma size_element: "v \<in> set vs \<Longrightarrow> size v < Suc (size_list size vs)"
  by (induction vs) auto

function wf_json :: "json \<Rightarrow> bool" where
  "wf_json JNull = True"
| "wf_json (JBool b) = True"
| "wf_json (JNum n) = True"
| "wf_json (JStr s) = True"
| "wf_json (JArr vs) = list_all wf_json vs"
| "wf_json (JObj kvs) = (distinct (map fst kvs) \<and> list_all (\<lambda>kv. wf_json (snd kv)) kvs)"
  by pat_completeness auto
termination
  by (relation "measure size") (auto simp: size_element intro: size_member[of "(_, _)", simplified])

lemma set_put: "set (map fst (put k v kvs)) = insert k (set (map fst kvs))"
  by (induction k v kvs rule: put.induct) (simp_all add: insert_commute)

lemma distinct_put: "distinct (map fst kvs) \<Longrightarrow> distinct (map fst (put k v kvs))"
proof (induction kvs)
  case (Cons kv kvs)
  then show ?case using set_put[of k v kvs] by (cases kv) auto
qed simp

lemma put_values: "kv \<in> set (put k v kvs) \<Longrightarrow> kv \<in> set kvs \<or> kv = (k, v)"
  by (induction kvs) (auto split: if_splits)

lemma put_new: "k \<notin> set (map fst kvs) \<Longrightarrow> put k v kvs = kvs @ [(k, v)]"
  by (induction kvs) auto

lemma wf_put:
  "wf_json (JObj kvs) \<Longrightarrow> wf_json v \<Longrightarrow> wf_json (JObj (put k v kvs))"
  by (auto simp: list_all_iff distinct_put dest!: put_values)

lemma wf_leaf: "parse_leaf s = Some (v, r) \<Longrightarrow> wf_json v"
  by (auto simp: parse_leaf_def parse_number_def parse_unsigned_def literal_def
      split: list.splits if_splits option.splits)

lemma parse_wf:
  "parse_value n s = Some (v, r) \<Longrightarrow> wf_json v"
  "parse_elements n acc s = Some (v, r) \<Longrightarrow> list_all wf_json acc \<Longrightarrow> wf_json v"
  "parse_members n mem s = Some (v, r) \<Longrightarrow> wf_json (JObj mem) \<Longrightarrow> wf_json v"
proof (induction n s and n acc s and n mem s arbitrary: v r and v r and v r
    rule: parse_value_parse_elements_parse_members.induct)
  case (2 n s)
  then show ?case
    by (auto split: list.splits if_splits dest: wf_leaf)
next
  case (4 n acc s)
  obtain w t where w: "parse_value n s = Some (w, t)" using 4(3) by (auto split: option.splits)
  obtain c u where cu: "skip_ws t = c # u" using 4(3) w by (auto split: list.splits)
  have "list_all wf_json (acc @ [w])" using 4(1)[OF w] 4(4) by simp
  then show ?case using 4(3) w cu 4(2)[OF w _ cu] by (auto split: if_splits)
next
  case (6 n mem s)
  obtain q s1 where q: "skip_ws s = q # s1" "q = 0x22" using 6(3) by (auto split: list.splits if_splits)
  obtain k s2 where k: "parse_string s1 = Some (k, s2)" using 6(3) q by (auto split: option.splits)
  obtain m s3 where m: "skip_ws s2 = m # s3" "m = 0x3A" using 6(3) q k by (auto split: list.splits if_splits)
  obtain w t where w: "parse_value n s3 = Some (w, t)" using 6(3) q k m by (auto split: option.splits)
  obtain c u where cu: "skip_ws t = c # u" using 6(3) q k m w by (auto split: list.splits)
  have nq: "\<not> q \<noteq> 0x22" and nm: "\<not> m \<noteq> 0x3A" using q m by simp_all
  have wf: "wf_json (JObj (put k w mem))"
    using 6(1)[OF q(1) nq k refl m(1) nm w] 6(4) by (rule_tac wf_put) simp_all
  show ?case using 6(3) q k m w cu wf 6(2)[OF q(1) nq k refl m(1) nm w refl cu _ _ wf]
    by (auto simp del: wf_json.simps split: if_splits)
qed simp_all

lemma JSON_parse_wf: "JSON_parse s = Some v \<Longrightarrow> wf_json v"
  by (auto simp: JSON_parse_def simp del: parse_value.simps split: option.splits if_splits dest: parse_wf(1))

subsection \<open>Composing parses\<close>

definition parses :: "jsstr \<Rightarrow> json \<Rightarrow> jsstr \<Rightarrow> bool" where
  "parses s v r \<longleftrightarrow> (\<exists>n. parse_value n s = Some (v, r))"

definition parses_elements :: "json list \<Rightarrow> jsstr \<Rightarrow> json \<Rightarrow> jsstr \<Rightarrow> bool" where
  "parses_elements acc s v r \<longleftrightarrow> (\<exists>n. parse_elements n acc s = Some (v, r))"

definition parses_members :: "(jsstr \<times> json) list \<Rightarrow> jsstr \<Rightarrow> json \<Rightarrow> jsstr \<Rightarrow> bool" where
  "parses_members acc s v r \<longleftrightarrow> (\<exists>n. parse_members n acc s = Some (v, r))"

lemma parses_enough: "parses s v r \<Longrightarrow> 2 * length s < m \<Longrightarrow> parse_value m s = Some (v, r)"
  using parse_enough(1) unfolding parses_def by blast

lemma parses_elements_enough:
  "parses_elements acc s v r \<Longrightarrow> 2 * length s + 1 < m \<Longrightarrow> parse_elements m acc s = Some (v, r)"
  using parse_enough(2) unfolding parses_elements_def by blast

lemma parses_members_enough:
  "parses_members acc s v r \<Longrightarrow> 2 * length s + 1 < m \<Longrightarrow> parse_members m acc s = Some (v, r)"
  using parse_enough(3) unfolding parses_members_def by blast

lemma skip_ws_id: "\<not> is_ws c \<Longrightarrow> skip_ws (c # r) = c # r"
  by (simp add: skip_ws_def)

lemma punctuation [simp]:
  "\<not> is_ws 0x22" "\<not> is_ws 0x2C" "\<not> is_ws 0x3A" "\<not> is_ws 0x5B" "\<not> is_ws 0x5D" "\<not> is_ws 0x7B" "\<not> is_ws 0x7D"
  by (simp_all add: is_ws_def)

lemma parses_leaf:
  assumes "parse_leaf (c # r) = Some (v, t)" "\<not> is_ws c" "c \<noteq> 0x7B" "c \<noteq> 0x5B"
  shows "parses (c # r) v t"
  using assms by (auto simp: parses_def skip_ws_id intro!: exI[of _ 1])

lemma parses_elements_last:
  assumes "parses s w (0x5D # u)"
  shows "parses_elements acc s (JArr (acc @ [w])) u"
proof -
  have "parse_elements (Suc (2 * length s + 1)) acc s = Some (JArr (acc @ [w]), u)"
    using parses_enough[OF assms, of "2 * length s + 1"] by (simp add: skip_ws_id del: parse_value.simps)
  then show ?thesis unfolding parses_elements_def by blast
qed

lemma parses_elements_more:
  assumes "parses s w (0x2C # u)" "parses_elements (acc @ [w]) u v r"
  shows "parses_elements acc s v r"
proof -
  let ?n = "2 * length s + 2 * length u + 2"
  have "parse_elements (Suc ?n) acc s = Some (v, r)"
    using parses_enough[OF assms(1), of ?n] parses_elements_enough[OF assms(2), of ?n]
    by (simp add: skip_ws_id del: parse_value.simps)
  then show ?thesis unfolding parses_elements_def by blast
qed

lemma parses_array:
  assumes "parses_elements [] (c # t) v r" "\<not> is_ws c" "c \<noteq> 0x5D"
  shows "parses (0x5B # c # t) v r"
proof -
  obtain n where "parse_elements n [] (c # t) = Some (v, r)" using assms(1) unfolding parses_elements_def ..
  then have "parse_value (Suc n) (0x5B # c # t) = Some (v, r)" using assms(2,3) by (simp add: skip_ws_id)
  then show ?thesis unfolding parses_def by blast
qed

lemma parses_object:
  assumes "parses_members [] (0x22 # t) v r"
  shows "parses (0x7B # 0x22 # t) v r"
proof -
  obtain n where "parse_members n [] (0x22 # t) = Some (v, r)" using assms(1) unfolding parses_members_def ..
  then have "parse_value (Suc n) (0x7B # 0x22 # t) = Some (v, r)" by (simp add: skip_ws_id)
  then show ?thesis unfolding parses_def by blast
qed

lemma JSON_quote_hd: "JSON_quote k = 0x22 # tl (JSON_quote k)"
  by (simp add: JSON_quote_def)

lemma parses_members_step:
  assumes "parses s w (c # u)"
  shows "c = 0x7D \<Longrightarrow> parses_members acc (JSON_quote k @ 0x3A # s) (JObj (put k w acc)) u"
    and "c = 0x2C \<Longrightarrow> parses_members (put k w acc) u v r \<Longrightarrow> parses_members acc (JSON_quote k @ 0x3A # s) v r"
proof -
  define n where "n = 2 * length s + 2 * length u + 2"
  have n: "2 * length s < n" "2 * length u + 1 < n" by (simp_all add: n_def)
  have q: "JSON_quote k @ 0x3A # s = 0x22 # (tl (JSON_quote k) @ 0x3A # s)" by (subst JSON_quote_hd) simp
  have step: "parse_members (Suc n) acc (JSON_quote k @ 0x3A # s) =
      (case skip_ws (c # u) of [] \<Rightarrow> None | d # r4 \<Rightarrow>
         if d = 0x2C then parse_members n (put k w acc) r4
         else if d = 0x7D then Some (JObj (put k w acc), r4) else None)"
    using parses_enough[OF assms n(1)]
    by (simp add: q parse_string_quote skip_ws_id del: parse_value.simps)
  show "parses_members acc (JSON_quote k @ 0x3A # s) (JObj (put k w acc)) u" if "c = 0x7D"
    using step that unfolding parses_members_def by (auto simp: skip_ws_id simp del: parse_members.simps)
  show "parses_members acc (JSON_quote k @ 0x3A # s) v r" if "c = 0x2C" "parses_members (put k w acc) u v r"
    using step that(1) parses_members_enough[OF that(2) n(2)] unfolding parses_members_def
    by (auto simp: skip_ws_id simp del: parse_members.simps)
qed

lemma parses_quote: "parses (JSON_quote s @ r) (JStr s) r"
proof -
  have q: "JSON_quote s @ r = 0x22 # (tl (JSON_quote s) @ r)" by (simp add: JSON_quote_def)
  have "parse_leaf (0x22 # (tl (JSON_quote s) @ r)) = Some (JStr s, r)"
    by (simp add: parse_leaf_def parse_string_quote)
  then show ?thesis unfolding q by (rule parses_leaf) simp_all
qed

lemma is_digit_starts: "is_digit c \<Longrightarrow> \<not> is_ws c \<and> c \<noteq> 0x5D \<and> c \<noteq> 0x22 \<and> c \<noteq> 0x74 \<and> c \<noteq> 0x66 \<and> c \<noteq> 0x6E \<and> c \<noteq> 0x7B \<and> c \<noteq> 0x5B"
  by (auto simp: is_digit_def is_ws_def)

lemma parses_decimal:
  assumes "n < 2 ^ 53" and "number_end r"
  shows "parses (decimal n @ r) (JNum (Whole (int n))) r"
proof -
  obtain c u where cu: "decimal n = c # u" by (cases "decimal n") auto
  then have "parse_number (c # u @ r) = Some (JNum (Whole (int n)), r)"
    using parse_number_decimal[OF assms] by simp
  then show ?thesis
    using parses_leaf[of c "u @ r"] is_digit_starts[of c] decimal_digits[of n] cu by (simp add: parse_leaf_def)
qed

lemma JSON_parse_parses: "parses s v [] \<Longrightarrow> JSON_parse s = Some v"
  using parses_enough[of s v "[]" "2 * length s + 1"]
  by (simp add: JSON_parse_def skip_ws_def del: parse_value.simps)

subsection \<open>Text without lone surrogates\<close>

definition sound_text :: "jsstr \<Rightarrow> bool" where
  "sound_text s \<longleftrightarrow> \<not> lone_surrogate s"

lemma sound_text_from_points: "\<forall>p \<in> set ps. scalar p \<Longrightarrow> sound_text (from_points ps)"
  by (simp add: sound_text_def not_lone_surrogate_from_points)

lemma sound_text_iff: "sound_text s \<longleftrightarrow> (\<forall>p \<in> set (code_points s). scalar p)"
  by (simp add: sound_text_def not_lone_surrogate_iff)

lemma ascii_text: "\<forall>u \<in> set s. unat u < 0xD800 \<Longrightarrow> sound_text s"
proof -
  assume a: "\<forall>u \<in> set s. unat u < 0xD800"
  have "s = from_points (map unat s)" by (induction s) simp_all
  moreover have "sound_text (from_points (map unat s))"
    using a by (intro sound_text_from_points) (auto simp: scalar_def surrogate_def)
  ultimately show ?thesis by simp
qed

lemma sound_text_append: "sound_text a \<Longrightarrow> sound_text b \<Longrightarrow> sound_text (a @ b)"
proof -
  assume "sound_text a" "sound_text b"
  moreover have "a @ b = from_points (code_points a @ code_points b)"
    using from_points_code_points[of a] from_points_code_points[of b] by (simp add: from_points_def)
  ultimately show ?thesis
    using sound_text_from_points[of "code_points a @ code_points b"] unfolding sound_text_iff
    by (metis UnE set_append)
qed

lemma sound_text_concat: "(\<And>s. s \<in> set ss \<Longrightarrow> sound_text s) \<Longrightarrow> sound_text (concat ss)"
  by (induction ss) (auto intro: sound_text_append simp: ascii_text)

lemma sound_text_Cons: "unat u < 0xD800 \<Longrightarrow> sound_text s \<Longrightarrow> sound_text (u # s)"
  using sound_text_append[of "[u]" s] ascii_text[of "[u]"] by simp

lemma sound_text_join: "(\<And>t. t \<in> set ts \<Longrightarrow> sound_text t) \<Longrightarrow> sound_text (join [0x2C] ts)"
  by (induction "[0x2C] :: jsstr" ts rule: join.induct)
    (auto intro!: sound_text_append sound_text_Cons simp: ascii_text)

lemma hex4_ascii: "n < 65536 \<Longrightarrow> u \<in> set (hex4 n) \<Longrightarrow> unat u < 0xD800"
  by (auto simp: hex4_def hex_unit_def unat_of_nat_unit simp del: of_nat_add)

lemma quote_text: "sound_text (JSON_quote s)"
proof -
  have "sound_text (quote_point p)" if "p < 0x110000" for p
    using that hex4_ascii[of p] sound_text_from_points[of "[p]"]
    by (auto simp: quote_point_def scalar_def surrogate_def ascii_text)
  then have "sound_text (concat (map quote_point (code_points s)))"
    using code_points_bound[of _ s] by (intro sound_text_concat) auto
  then show ?thesis
    by (auto simp: JSON_quote_def ascii_text intro!: sound_text_Cons sound_text_append)
qed

lemma decimal_text: "sound_text (decimal n)"
  using decimal_digits[of n] by (intro ascii_text) (auto simp: is_digit_def)

end
