(* ===== verification/Config.thy ===== *)
theory Config
  imports Jsstring
begin

text \<open>
  The build-time configuration of direct send (\<open>src/direct/config.ts\<close>): the limits of
  the protocol's table and the reading of the build-time list of ICE servers, the only
  servers an invitation may name.
\<close>

subsection \<open>Limits\<close>

record limits =
  messageBytes :: nat
  messagesPerSide :: nat
  restarts :: nat
  sdpBytes :: nat
  iceServers :: nat
  urlsPerServer :: nat
  urlBytes :: nat
  credentialBytes :: nat
  maxPlaintextBytes :: nat
  frameBytes :: nat
  minFrameBytes :: nat
  unacknowledgedBytes :: nat
  ackEveryBytes :: nat
  highWaterBytes :: nat
  lowWaterBytes :: nat
  relayBytesPerSecond :: nat
  relayBurstBytes :: nat

definition LIMITS :: limits where
  "LIMITS = \<lparr>
     messageBytes = 16379,
     messagesPerSide = 8,
     restarts = 5,
     sdpBytes = 8000,
     iceServers = 4,
     urlsPerServer = 4,
     urlBytes = 256,
     credentialBytes = 256,
     maxPlaintextBytes = 250000000,
     frameBytes = 65536,
     minFrameBytes = 16384,
     unacknowledgedBytes = 8388608,
     ackEveryBytes = 1048576,
     highWaterBytes = 1048576,
     lowWaterBytes = 262144,
     relayBytesPerSecond = 400000,
     relayBurstBytes = 65536\<rparr>"

lemma LIMITS_simps [simp]:
  "messageBytes LIMITS = 16379" "messagesPerSide LIMITS = 8" "restarts LIMITS = 5"
  "sdpBytes LIMITS = 8000" "iceServers LIMITS = 4" "urlsPerServer LIMITS = 4"
  "urlBytes LIMITS = 256" "credentialBytes LIMITS = 256" "maxPlaintextBytes LIMITS = 250000000"
  "frameBytes LIMITS = 65536" "minFrameBytes LIMITS = 16384"
  "unacknowledgedBytes LIMITS = 8388608" "ackEveryBytes LIMITS = 1048576"
  "highWaterBytes LIMITS = 1048576" "lowWaterBytes LIMITS = 262144"
  "relayBytesPerSecond LIMITS = 400000" "relayBurstBytes LIMITS = 65536"
  by (simp_all add: LIMITS_def)

definition GATHER_MS :: nat where "GATHER_MS = 3000"
definition CONNECT_GIVE_UP_MS :: nat where "CONNECT_GIVE_UP_MS = 90000"
definition RECONNECT_GIVE_UP_MS :: nat where "RECONNECT_GIVE_UP_MS = 45000"

subsection \<open>The build-time list of ICE servers\<close>

definition DEFAULT_DIRECT_ICE_URLS :: "jsstr list" where
  "DEFAULT_DIRECT_ICE_URLS = [js ''stun:stun.cloudflare.com:3478'']"

text \<open>\<open>/^(?:stun|turn|turns):[^\s,]+$/u\<close>. The three schemes are tried in turn; what
  follows the colon is one or more units that are neither white space nor a comma.\<close>

definition after_scheme :: "jsstr \<Rightarrow> jsstr option" where
  "after_scheme url =
     (if startsWith url (js ''stun:'') then Some (drop 5 url)
      else if startsWith url (js ''turn:'') then Some (drop 5 url)
      else if startsWith url (js ''turns:'') then Some (drop 6 url)
      else None)"

definition ICE_URL :: "jsstr \<Rightarrow> bool" where
  "ICE_URL url \<longleftrightarrow>
     (case after_scheme url of
        None \<Rightarrow> False
      | Some rest \<Rightarrow> rest \<noteq> [] \<and> list_all (\<lambda>u. \<not> is_space u \<and> u \<noteq> 0x2C) rest)"

text \<open>\<open>[...new Set(urls)]\<close>: each URL once, in the order of its first occurrence.\<close>

fun unique :: "'a list \<Rightarrow> 'a list" where
  "unique [] = []"
| "unique (x # xs) = x # filter (\<lambda>y. y \<noteq> x) (unique xs)"

datatype ice_list_error = MalformedIceList

definition parseIceAllowlist :: "jsstr option \<Rightarrow> ice_list_error + jsstr list" where
  "parseIceAllowlist value =
     (case value of
        None \<Rightarrow> Inr DEFAULT_DIRECT_ICE_URLS
      | Some text \<Rightarrow>
          if trim text = [] then Inr DEFAULT_DIRECT_ICE_URLS
          else
            let urls = map trim (split_on (\<lambda>u. u = 0x2C) text) in
            if list_all (\<lambda>url. ICE_URL url \<and> utf8Length url \<le> urlBytes LIMITS) urls
            then Inr (unique urls)
            else Inl MalformedIceList)"

lemma set_unique [simp]: "set (unique xs) = set xs"
  by (induction xs) auto

lemma distinct_unique [simp]: "distinct (unique xs)"
  by (induction xs) auto

lemma unique_distinct: "distinct xs \<Longrightarrow> unique xs = xs"
  by (induction xs) (auto simp: filter_id_conv)

lemma unique_idem [simp]: "unique (unique xs) = unique xs"
  by (simp add: unique_distinct)

end
