(* ===== verification/Frames.thy ===== *)
theory Frames
  imports Config
begin

text \<open>
  The binary frames on the data channel (\<open>src/direct/frames.ts\<close>): the five frame types,
  the writers of each, and \<open>decodeFrame\<close>, which reads one binary message for the role
  that sent it. Offsets and sizes are JavaScript numbers, so integers here; the writers
  refuse what is not a safe integer, and the reader refuses a high word past
  \<open>0x1fffff\<close>.
\<close>

datatype role = Sender | Receiver

definition FRAME_data :: byte where "FRAME_data = 1"
definition FRAME_ack :: byte where "FRAME_ack = 2"
definition FRAME_end :: byte where "FRAME_end = 3"
definition FRAME_kept :: byte where "FRAME_kept = 4"
definition FRAME_stop :: byte where "FRAME_stop = 5"

lemmas FRAME_TYPE = FRAME_data_def FRAME_ack_def FRAME_end_def FRAME_kept_def FRAME_stop_def

text \<open>1 a person cancelled, 2 a failure, 3 no storage.\<close>

datatype stop_code = StopCancelled | StopFailed | StopStorage

fun stop_byte :: "stop_code \<Rightarrow> byte" where
  "stop_byte StopCancelled = 1"
| "stop_byte StopFailed = 2"
| "stop_byte StopStorage = 3"

datatype frame =
    Data int bytes
  | Ack int
  | End bytes int
  | Kept
  | Stop stop_code

datatype frame_error =
    EmptyMessage | DataFromReceiver | DataLength | AckFromSender | AckLength
  | EndFromReceiver | EndLength | KeptFromSender | KeptLength | StopLength
  | UnknownType | BeyondSafe

datatype range_error = UnsafeNumber | DataSize | DigestSize

definition DATA_HEADER_BYTES :: nat where "DATA_HEADER_BYTES = 9"
definition END_FRAME_BYTES :: nat where "END_FRAME_BYTES = 41"

definition MAX_SAFE_INTEGER :: int where "MAX_SAFE_INTEGER = 9007199254740991"

subsection \<open>Numbers on the wire\<close>

definition writeU64 :: "int \<Rightarrow> range_error + bytes" where
  "writeU64 value =
     (if \<not> (- MAX_SAFE_INTEGER \<le> value \<and> value \<le> MAX_SAFE_INTEGER) \<or> value < 0 then Inl UnsafeNumber
      else Inr (be32 (nat (value div 4294967296)) @ be32 (nat (value mod 4294967296))))"

definition readU64 :: "bytes \<Rightarrow> nat \<Rightarrow> frame_error + int" where
  "readU64 view at =
     (let high = rd32 view at in
      if high > 0x1fffff then Inl BeyondSafe
      else Inr (int high * 4294967296 + int (rd32 view (at + 4))))"

subsection \<open>Writing frames\<close>

definition encodeData :: "int \<Rightarrow> bytes \<Rightarrow> range_error + bytes" where
  "encodeData offset bs =
     (if length bs = 0 \<or> DATA_HEADER_BYTES + length bs > frameBytes LIMITS then Inl DataSize
      else bindR (writeU64 offset) (\<lambda>n. Inr (FRAME_data # n @ bs)))"

definition encodeAck :: "int \<Rightarrow> range_error + bytes" where
  "encodeAck next = bindR (writeU64 next) (\<lambda>n. Inr (FRAME_ack # n))"

definition encodeEnd :: "bytes \<Rightarrow> int \<Rightarrow> range_error + bytes" where
  "encodeEnd sha256 sz =
     (if length sha256 \<noteq> 32 then Inl DigestSize
      else bindR (writeU64 sz) (\<lambda>n. Inr (FRAME_end # sha256 @ n)))"

definition encodeKept :: bytes where
  "encodeKept = [FRAME_kept]"

definition encodeStop :: "stop_code \<Rightarrow> bytes" where
  "encodeStop code = [FRAME_stop, stop_byte code]"

subsection \<open>Reading a frame\<close>

definition decodeFrame :: "role \<Rightarrow> bytes \<Rightarrow> frame_error + frame" where
  "decodeFrame from frame =
     (case frame of
        [] \<Rightarrow> Inl EmptyMessage
      | t # _ \<Rightarrow>
          if t = FRAME_data then
            if from \<noteq> Sender then Inl DataFromReceiver
            else if length frame \<le> DATA_HEADER_BYTES \<or> length frame > frameBytes LIMITS then Inl DataLength
            else bindR (readU64 frame 1) (\<lambda>n. Inr (Data n (drop DATA_HEADER_BYTES frame)))
          else if t = FRAME_ack then
            if from \<noteq> Receiver then Inl AckFromSender
            else if length frame \<noteq> 9 then Inl AckLength
            else bindR (readU64 frame 1) (\<lambda>n. Inr (Ack n))
          else if t = FRAME_end then
            if from \<noteq> Sender then Inl EndFromReceiver
            else if length frame \<noteq> END_FRAME_BYTES then Inl EndLength
            else bindR (readU64 frame 33) (\<lambda>n. Inr (End (take 32 (drop 1 frame)) n))
          else if t = FRAME_kept then
            if from \<noteq> Receiver then Inl KeptFromSender
            else if length frame \<noteq> 1 then Inl KeptLength
            else Inr Kept
          else if t = FRAME_stop then
            if length frame \<noteq> 2 then Inl StopLength
            else Inr (Stop (if frame ! 1 = 1 then StopCancelled
                            else if frame ! 1 = 3 then StopStorage else StopFailed))
          else Inl UnknownType)"

text \<open>The frame each writer makes, and the frames each role may send.\<close>

fun encodeFrame :: "frame \<Rightarrow> range_error + bytes" where
  "encodeFrame (Data n bs) = encodeData n bs"
| "encodeFrame (Ack n) = encodeAck n"
| "encodeFrame (End d n) = encodeEnd d n"
| "encodeFrame Kept = Inr encodeKept"
| "encodeFrame (Stop c) = Inr (encodeStop c)"

fun sends :: "role \<Rightarrow> frame \<Rightarrow> bool" where
  "sends Sender (Data _ _) = True"
| "sends Sender (End _ _) = True"
| "sends Receiver (Ack _) = True"
| "sends Receiver Kept = True"
| "sends _ (Stop _) = True"
| "sends _ _ = False"

subsection \<open>Numbers round-trip\<close>

lemma writeU64_eq_Inr:
  "writeU64 v = Inr n \<longleftrightarrow>
     0 \<le> v \<and> v \<le> MAX_SAFE_INTEGER \<and> n = be32 (nat (v div 4294967296)) @ be32 (nat (v mod 4294967296))"
  by (auto simp: writeU64_def MAX_SAFE_INTEGER_def)

lemma length_writeU64: "writeU64 v = Inr n \<Longrightarrow> length n = 8"
  by (auto simp: writeU64_eq_Inr)

lemma readU64_writeU64 [wire]:
  assumes "writeU64 v = Inr n" and "length xs = at"
  shows "readU64 (xs @ n @ ys) at = Inr v"
proof -
  let ?h = "nat (v div 4294967296)" and ?l = "nat (v mod 4294967296)"
  have v: "0 \<le> v" "v \<le> 9007199254740991" and n: "n = be32 ?h @ be32 ?l"
    using assms(1) by (auto simp: writeU64_eq_Inr MAX_SAFE_INTEGER_def)
  have h: "?h \<le> 0x1fffff" using v by linarith
  have l: "?l < 2 ^ 32" by simp
  have "rd32 (xs @ n @ ys) at = ?h"
    using rd32_be32[of ?h xs at "be32 ?l @ ys"] h assms(2) by (simp add: n)
  moreover have "rd32 (xs @ n @ ys) (at + 4) = ?l"
    using rd32_be32[of ?l "xs @ be32 ?h" "at + 4" ys] l assms(2) by (simp add: n)
  moreover have "int ?h = v div 4294967296" "int ?l = v mod 4294967296"
    using v(1) by (simp_all add: pos_imp_zdiv_nonneg_iff)
  then have "int ?h * 4294967296 + int ?l = v" by simp
  ultimately show ?thesis using h by (simp add: readU64_def)
qed

lemma writeU64_readU64 [wire]:
  assumes "readU64 bs at = Inr v" and "at + 8 \<le> length bs"
  shows "writeU64 v = Inr (take 8 (drop at bs))"
proof -
  let ?h = "rd32 bs at" and ?l = "rd32 bs (at + 4)"
  have h: "?h \<le> 0x1fffff" and v: "v = int ?h * 4294967296 + int ?l"
    using assms(1) by (auto simp: readU64_def Let_def split: if_splits)
  have l: "?l < 4294967296" using rd32_bound[of bs "at + 4"] by simp
  have dv: "v div 4294967296 = int ?h" and md: "v mod 4294967296 = int ?l"
    unfolding v using l by simp_all
  have sl: "be32 (rd32 bs k) = take 4 (drop k bs)" if "k + 4 \<le> length bs" for k
    using be32_rd32[of "take 4 (drop k bs)"] rd32_drop[OF that] that by simp
  have "take 8 (drop at bs) = take 4 (drop at bs) @ take 4 (drop (at + 4) bs)"
    using take_add[of 4 4 "drop at bs"] by (simp add: add.commute)
  then have "be32 (nat (v div 4294967296)) @ be32 (nat (v mod 4294967296)) = take 8 (drop at bs)"
    using assms(2) by (simp add: dv md sl)
  moreover have "0 \<le> v" "v \<le> MAX_SAFE_INTEGER"
    using h l by (simp_all add: v MAX_SAFE_INTEGER_def)
  ultimately show ?thesis by (simp add: writeU64_eq_Inr)
qed

subsection \<open>Frames round-trip\<close>

text \<open>The reader by its first byte.\<close>

lemma decodeFrame_tag:
  "decodeFrame r (FRAME_data # t) =
     (if r \<noteq> Sender then Inl DataFromReceiver
      else if length t < DATA_HEADER_BYTES \<or> length t \<ge> frameBytes LIMITS then Inl DataLength
      else bindR (readU64 (FRAME_data # t) 1) (\<lambda>n. Inr (Data n (drop 8 t))))"
  "decodeFrame r (FRAME_ack # t) =
     (if r \<noteq> Receiver then Inl AckFromSender else if length t \<noteq> 8 then Inl AckLength
      else bindR (readU64 (FRAME_ack # t) 1) (\<lambda>n. Inr (Ack n)))"
  "decodeFrame r (FRAME_end # t) =
     (if r \<noteq> Sender then Inl EndFromReceiver else if length t \<noteq> 40 then Inl EndLength
      else bindR (readU64 (FRAME_end # t) 33) (\<lambda>n. Inr (End (take 32 t) n)))"
  "decodeFrame r (FRAME_kept # t) =
     (if r \<noteq> Receiver then Inl KeptFromSender else if t \<noteq> [] then Inl KeptLength else Inr Kept)"
  "decodeFrame r (FRAME_stop # t) =
     (if length t \<noteq> 1 then Inl StopLength
      else Inr (Stop (if t ! 0 = 1 then StopCancelled else if t ! 0 = 3 then StopStorage else StopFailed)))"
  by (auto simp: decodeFrame_def FRAME_TYPE DATA_HEADER_BYTES_def END_FRAME_BYTES_def Suc_le_eq)

lemma decodeFrame_other:
  "t \<noteq> FRAME_data \<Longrightarrow> t \<noteq> FRAME_ack \<Longrightarrow> t \<noteq> FRAME_end \<Longrightarrow> t \<noteq> FRAME_kept \<Longrightarrow> t \<noteq> FRAME_stop \<Longrightarrow>
     decodeFrame r (t # ts) = Inl UnknownType"
  "decodeFrame r [] = Inl EmptyMessage"
  by (simp_all add: decodeFrame_def)

lemma decode_encodeData: "encodeData n bs = Inr f \<Longrightarrow> decodeFrame Sender f = Inr (Data n bs)"
proof -
  assume "encodeData n bs = Inr f"
  then obtain u where u: "writeU64 n = Inr u" and f: "f = FRAME_data # u @ bs"
    and l: "0 < length bs" "9 + length bs \<le> 65536"
    by (auto simp: encodeData_def DATA_HEADER_BYTES_def result_split split: if_splits)
  have "readU64 f 1 = Inr n" using readU64_writeU64[OF u, of "[FRAME_data]" 1 bs] f by simp
  then show ?thesis using l length_writeU64[OF u]
    by (simp add: f decodeFrame_tag DATA_HEADER_BYTES_def)
qed

lemma decode_encodeAck: "encodeAck n = Inr f \<Longrightarrow> decodeFrame Receiver f = Inr (Ack n)"
proof -
  assume "encodeAck n = Inr f"
  then obtain u where u: "writeU64 n = Inr u" and f: "f = FRAME_ack # u"
    by (auto simp: encodeAck_def result_split)
  have "readU64 f 1 = Inr n" using readU64_writeU64[OF u, of "[FRAME_ack]" 1 "[]"] f by simp
  then show ?thesis using length_writeU64[OF u] by (simp add: f decodeFrame_tag)
qed

lemma decode_encodeEnd: "encodeEnd d n = Inr f \<Longrightarrow> decodeFrame Sender f = Inr (End d n)"
proof -
  assume "encodeEnd d n = Inr f"
  then obtain u where u: "writeU64 n = Inr u" and f: "f = FRAME_end # d @ u" and d: "length d = 32"
    by (auto simp: encodeEnd_def result_split split: if_splits)
  have "readU64 f 33 = Inr n" using readU64_writeU64[OF u, of "FRAME_end # d" 33 "[]"] f d by simp
  then show ?thesis using length_writeU64[OF u] d by (simp add: f decodeFrame_tag)
qed

lemma decode_encodeFrame:
  "sends r f \<Longrightarrow> encodeFrame f = Inr bs \<Longrightarrow> decodeFrame r bs = Inr f"
proof (cases f)
  case (Stop c)
  moreover assume "encodeFrame f = Inr bs"
  ultimately show ?thesis by (cases c) (auto simp: encodeStop_def decodeFrame_tag)
qed (cases r; auto simp: decode_encodeData decode_encodeAck decode_encodeEnd encodeKept_def decodeFrame_tag)+

interpretation frames: encoder encodeFrame "decodeFrame r" "sends r" for r
  by unfold_locales (rule decode_encodeFrame)

text \<open>
  The reader reads nothing but what a writer writes, except a STOP with an unknown reason,
  which reads as a failure.
\<close>

lemma decodeFrame_Inr:
  assumes "decodeFrame r bs = Inr f"
  shows "sends r f \<and> (encodeFrame f = Inr bs \<or> (f = Stop StopFailed \<and> length bs = 2))"
proof -
  obtain t ts where bs: "bs = t # ts"
    using assms by (cases bs) (auto simp: decodeFrame_other)
  consider "t = FRAME_data" | "t = FRAME_ack" | "t = FRAME_end" | "t = FRAME_kept" | "t = FRAME_stop"
    using assms bs decodeFrame_other by fastforce
  then show ?thesis
  proof cases
    case 1
    with assms bs obtain n where n: "readU64 bs 1 = Inr n" and f: "f = Data n (drop 8 ts)"
      and l: "r = Sender" "9 \<le> length ts" "length ts < 65536"
      by (auto simp: decodeFrame_tag DATA_HEADER_BYTES_def result_split split: if_splits)
    have "writeU64 n = Inr (take 8 ts)" using writeU64_readU64[OF n] l bs by simp
    then show ?thesis using l 1 bs
      by (simp add: f encodeData_def DATA_HEADER_BYTES_def)
  next
    case 2
    with assms bs obtain n where n: "readU64 bs 1 = Inr n" and f: "f = Ack n"
      and l: "r = Receiver" "length ts = 8"
      by (auto simp: decodeFrame_tag result_split split: if_splits)
    have "writeU64 n = Inr ts" using writeU64_readU64[OF n] l bs by simp
    then show ?thesis using l 2 bs by (simp add: f encodeAck_def)
  next
    case 3
    with assms bs obtain n where n: "readU64 bs 33 = Inr n" and f: "f = End (take 32 ts) n"
      and l: "r = Sender" "length ts = 40"
      by (auto simp: decodeFrame_tag result_split split: if_splits)
    have "writeU64 n = Inr (drop 32 ts)" using writeU64_readU64[OF n] l bs by simp
    then show ?thesis using l 3 bs by (simp add: f encodeEnd_def)
  next
    case 4
    with assms bs show ?thesis by (auto simp: decodeFrame_tag encodeKept_def split: if_splits)
  next
    case 5
    with assms bs show ?thesis
      by (cases r) (auto simp: decodeFrame_tag encodeStop_def length_Suc_conv split: if_splits)
  qed
qed

lemma decodeFrame_range:
  assumes "decodeFrame r bs = Inr f"
  shows "case f of Data n d \<Rightarrow> 0 \<le> n \<and> n \<le> MAX_SAFE_INTEGER \<and> 1 \<le> length d \<and> length d \<le> 65527
     | Ack n \<Rightarrow> 0 \<le> n \<and> n \<le> MAX_SAFE_INTEGER
     | End d n \<Rightarrow> 0 \<le> n \<and> n \<le> MAX_SAFE_INTEGER \<and> length d = 32
     | _ \<Rightarrow> True"
  using decodeFrame_Inr[OF assms]
  by (auto simp: encodeData_def encodeAck_def encodeEnd_def result_split writeU64_eq_Inr
      DATA_HEADER_BYTES_def Suc_le_eq split: frame.splits if_splits)

lemma decodeFrame_length: "decodeFrame r bs = Inr f \<Longrightarrow> length bs \<le> frameBytes LIMITS"
  by (auto simp: decodeFrame_def DATA_HEADER_BYTES_def END_FRAME_BYTES_def
      split: list.splits if_splits)

lemma decodeFrame_stop:
  "decodeFrame r bs = Inr (Stop StopFailed) \<Longrightarrow>
     encodeFrame (Stop StopFailed) = Inr bs \<or> (\<exists>b. bs = [FRAME_stop, b] \<and> b \<notin> {1, 2, 3})"
  by (auto simp: decodeFrame_def encodeStop_def length_Suc_conv result_split
      split: list.splits if_splits)

subsection \<open>What the frames promise\<close>

lemma encodeFrame_writes:
  "(\<exists>bs. encodeFrame f = Inr bs) \<longleftrightarrow>
    (case f of
       Data n d \<Rightarrow> 0 \<le> n \<and> n \<le> MAX_SAFE_INTEGER \<and> 1 \<le> length d \<and> length d \<le> 65527
     | Ack n \<Rightarrow> 0 \<le> n \<and> n \<le> MAX_SAFE_INTEGER
     | End d n \<Rightarrow> 0 \<le> n \<and> n \<le> MAX_SAFE_INTEGER \<and> length d = 32
     | _ \<Rightarrow> True)"
  by (cases f) (auto simp: encodeData_def encodeAck_def encodeEnd_def result_split writeU64_eq_Inr DATA_HEADER_BYTES_def Suc_le_eq)

lemma encodeFrame_length:
  "encodeFrame f = Inr bs \<Longrightarrow>
    (case f of Data n d \<Rightarrow> length bs = 9 + length d | Ack n \<Rightarrow> length bs = 9 | End d n \<Rightarrow> length bs = 41 | _ \<Rightarrow> True)"
  by (cases f) (auto simp: encodeData_def encodeAck_def encodeEnd_def result_split writeU64_eq_Inr split: if_splits)

text \<open>
  Property C18: a writer puts a frame on the wire exactly when its numbers are safe non-negative
  integers and its payload or digest has the right size, and refuses it otherwise; and whatever a
  role's writer puts on the wire has the frame's length and is read back, by the other end, as the
  same frame.
\<close>

theorem frame_roundtrip:
  assumes "sends r f"
  shows "((\<exists>bs. encodeFrame f = Inr bs) \<longleftrightarrow>
      (case f of
         Data n d \<Rightarrow> 0 \<le> n \<and> n \<le> MAX_SAFE_INTEGER \<and> 1 \<le> length d \<and> length d \<le> 65527
       | Ack n \<Rightarrow> 0 \<le> n \<and> n \<le> MAX_SAFE_INTEGER
       | End d n \<Rightarrow> 0 \<le> n \<and> n \<le> MAX_SAFE_INTEGER \<and> length d = 32
       | _ \<Rightarrow> True)) \<and>
    (\<forall>bs. encodeFrame f = Inr bs \<longrightarrow> decodeFrame r bs = Inr f \<and>
      (case f of Data n d \<Rightarrow> length bs = 9 + length d | Ack n \<Rightarrow> length bs = 9 | End d n \<Rightarrow> length bs = 41 | _ \<Rightarrow> True))"
  using encodeFrame_writes[of f] encodeFrame_length[of f] frames.dec_enc[OF assms] by blast

theorem frame_roundtrip_witness:
  "(\<exists>bs. encodeFrame (Ack 4294967297) = Inr bs \<and> length bs = 9 \<and> decodeFrame Receiver bs = Inr (Ack 4294967297)) \<and>
   (\<nexists>bs. encodeFrame (Ack (- 1)) = Inr bs)"
  using frame_roundtrip[of Receiver "Ack 4294967297"] frame_roundtrip[of Receiver "Ack (- 1)"] by (auto simp: MAX_SAFE_INTEGER_def)

text \<open>
  Property C19: a frame is accepted only from the role that may send it, every number in it
  is a safe non-negative integer, its sizes are within the limits, and its bytes are the very
  bytes the writer of that frame produces: no second encoding of a frame is accepted, except
  that an unknown STOP reason reads as a failure.
\<close>

theorem frame_accepted_sound:
  assumes "decodeFrame r bs = Inr f"
  shows "sends r f \<and> length bs \<le> frameBytes LIMITS \<and>
    (encodeFrame f = Inr bs \<or> (f = Stop StopFailed \<and> (\<exists>b. bs = [FRAME_stop, b] \<and> b \<notin> {1, 2, 3}))) \<and>
    (case f of Data n d \<Rightarrow> 0 \<le> n \<and> n \<le> MAX_SAFE_INTEGER \<and> 1 \<le> length d \<and> length d \<le> 65527
     | Ack n \<Rightarrow> 0 \<le> n \<and> n \<le> MAX_SAFE_INTEGER
     | End d n \<Rightarrow> 0 \<le> n \<and> n \<le> MAX_SAFE_INTEGER \<and> length d = 32
     | _ \<Rightarrow> True)"
  using assms decodeFrame_Inr[OF assms] decodeFrame_range[OF assms] decodeFrame_length[OF assms]
    decodeFrame_stop[of r bs]
  by blast

theorem frame_accepted_sound_witness:
  "sends Receiver (Stop StopFailed) \<and> (\<exists>b. [FRAME_stop, 77] = [FRAME_stop, b] \<and> b \<notin> {1, 2, 3 :: byte})"
  using frame_accepted_sound[of Receiver "[FRAME_stop, 77]" "Stop StopFailed"]
  by (simp add: decodeFrame_tag encodeStop_def)

end
