(* ===== verification/Security.thy ===== *)
theory Security
  imports Json Config
begin

text \<open>
  The shared validators (\<open>src/core/security.ts\<close>): endpoint rules of the direct and the
  Tor-only profile, the file-name rule, the size limits and the hexadecimal checks.

  Three things are not code of the repository and are parameters: the WHATWG URL parser
  (\<open>new URL\<close>), SHA3-256, and the Unicode tables behind \<open>normalize("NFC")\<close> and
  \<open>toLowerCase\<close>. What the theorems need of the tables is stated as \<open>nfc_laws\<close> and
  \<open>lower_laws\<close>.
\<close>

datatype profile = Direct | Tor

record unicode =
  nfc :: "jsstr \<Rightarrow> jsstr"
  lower :: "jsstr \<Rightarrow> jsstr"

record url =
  protocol :: jsstr
  hostname :: jsstr
  username :: jsstr
  password :: jsstr
  pathname :: jsstr
  search :: jsstr
  hash :: jsstr
  origin :: jsstr
  href :: jsstr

datatype security_error =
    InvalidUrl | NotV3Onion | InvalidOnionAddress | InvalidOnionVersion | InvalidOnionChecksum
  | TorProtocol | OnionInDirectMode | InsecureProtocol | HasCredentials | NotAnOrigin
  | HasFragment | HasQuery | WrongObject | TrackerInTorMode | TooManyEndpoints | EndpointTooLong
  | EmptySize | TooLarge | NotHex

definition MAX_PROTOTYPE_FILE_BYTES :: nat where
  "MAX_PROTOTYPE_FILE_BYTES = 256 * 1024 * 1024"
definition MAX_PROTOTYPE_TRANSFER_BYTES :: nat where
  "MAX_PROTOTYPE_TRANSFER_BYTES = MAX_PROTOTYPE_FILE_BYTES + 2 * 1024 * 1024"
definition MAX_NETWORK_ENDPOINTS :: nat where
  "MAX_NETWORK_ENDPOINTS = 8"

definition isLocalHost :: "jsstr \<Rightarrow> bool" where
  "isLocalHost h \<longleftrightarrow> h = js ''localhost'' \<or> h = js ''127.0.0.1'' \<or> h = js ''[::1]''"

subsection \<open>Onion addresses\<close>

definition base32_index :: "code_unit \<Rightarrow> nat option" where
  "base32_index u =
     (let n = unat u in
      if 0x61 \<le> n \<and> n \<le> 0x7A then Some (n - 0x61)
      else if 0x32 \<le> n \<and> n \<le> 0x37 then Some (n - 0x32 + 26)
      else None)"

text \<open>
  The loop of \<open>decodeBase32\<close>: \<open>accumulator\<close> is a 32-bit integer, so \<open>\<lless> 5\<close> drops
  the bits that were already written out; \<open>bits\<close> counts the ones that were not.
\<close>

fun base32_loop :: "nat \<Rightarrow> 32 word \<Rightarrow> bytes \<Rightarrow> jsstr \<Rightarrow> security_error + (nat \<times> bytes)" where
  "base32_loop bits acc out [] = Inr (bits, out)"
| "base32_loop bits acc out (c # cs) =
     (case base32_index c of
        None \<Rightarrow> Inl InvalidOnionAddress
      | Some i \<Rightarrow>
          let acc' = or (push_bit 5 acc) (of_nat i); bits' = bits + 5 in
          if 8 \<le> bits' then
            base32_loop (bits' - 8) acc' (out @ [ucast (and (drop_bit (bits' - 8) acc') 0xff)]) cs
          else base32_loop bits' acc' out cs)"

definition decodeBase32 :: "jsstr \<Rightarrow> security_error + bytes" where
  "decodeBase32 value =
     bindR (base32_loop 0 0 [] value) (\<lambda>(bits, out).
       if bits \<noteq> 0 \<or> length out \<noteq> 35 then Inl InvalidOnionAddress else Inr out)"

text \<open>\<open>/^([a-z2-7]{56})\.onion$/u\<close> on the lower-cased host name: the 56 units, if it matches.\<close>

definition V3_ONION :: "jsstr \<Rightarrow> jsstr option" where
  "V3_ONION h =
     (if length h = 62 \<and> list_all (\<lambda>u. base32_index u \<noteq> None) (take 56 h) \<and> drop 56 h = js ''.onion''
      then Some (take 56 h) else None)"

definition assertV3OnionHostname :: "unicode \<Rightarrow> (bytes \<Rightarrow> bytes) \<Rightarrow> jsstr \<Rightarrow> security_error + jsstr" where
  "assertV3OnionHostname uc sha3_256 h =
     (case V3_ONION (lower uc h) of
        None \<Rightarrow> Inl NotV3Onion
      | Some label \<Rightarrow>
          bindR (decodeBase32 label) (\<lambda>decoded.
            let publicKey = take 32 decoded; checksum = take 2 (drop 32 decoded); version = decoded ! 34 in
            if version \<noteq> 3 then Inl InvalidOnionVersion
            else
              let expected = take 2 (sha3_256 (utf8_encode (js ''.onion checksum'') @ publicKey @ [version])) in
              if checksum \<noteq> expected then Inl InvalidOnionChecksum
              else Inr (label @ js ''.onion'')))"

subsection \<open>Endpoints\<close>

text \<open>\<open>url.hostname.replace(/\.+$/u, "")\<close>.\<close>

definition strip_dots :: "jsstr \<Rightarrow> jsstr" where
  "strip_dots h = rev (dropWhile (\<lambda>u. u = 0x2E) (rev h))"

definition requireSecureTransport ::
  "unicode \<Rightarrow> (bytes \<Rightarrow> bytes) \<Rightarrow> url \<Rightarrow> jsstr \<Rightarrow> jsstr \<Rightarrow> profile \<Rightarrow> security_error + unit" where
  "requireSecureTransport uc sha3_256 u secureProtocol localProtocol p =
     (if p = Tor then
        bindR (assertV3OnionHostname uc sha3_256 (hostname u)) (\<lambda>_.
          if protocol u = secureProtocol \<or> protocol u = localProtocol then Inr () else Inl TorProtocol)
      else if endsWith (strip_dots (hostname u)) (js ''.onion'') then Inl OnionInDirectMode
      else if protocol u = secureProtocol then Inr ()
      else if protocol u = localProtocol \<and> isLocalHost (hostname u) then Inr ()
      else Inl InsecureProtocol)"

definition rejectCredentials :: "url \<Rightarrow> security_error + unit" where
  "rejectCredentials u =
     (if username u \<noteq> [] \<or> password u \<noteq> [] then Inl HasCredentials else Inr ())"

text \<open>What the endpoint rules take from outside the repository.\<close>

record platform =
  new_URL :: "jsstr \<Rightarrow> url option"
  unicode_tables :: unicode
  sha3 :: "bytes \<Rightarrow> bytes"

definition open_url :: "platform \<Rightarrow> jsstr \<Rightarrow> security_error + url" where
  "open_url pf value = (case new_URL pf (trim value) of None \<Rightarrow> Inl InvalidUrl | Some u \<Rightarrow> Inr u)"

definition normaliseBlossomServer :: "platform \<Rightarrow> jsstr \<Rightarrow> profile \<Rightarrow> security_error + jsstr" where
  "normaliseBlossomServer pf value p =
     bindR (open_url pf value) (\<lambda>u.
     bindR (requireSecureTransport (unicode_tables pf) (sha3 pf) u (js ''https:'') (js ''http:'') p) (\<lambda>_.
     bindR (rejectCredentials u) (\<lambda>_.
       if pathname u \<noteq> js ''/'' \<or> search u \<noteq> [] \<or> hash u \<noteq> [] then Inl NotAnOrigin
       else Inr (origin u))))"

definition is_ext_unit :: "code_unit \<Rightarrow> bool" where
  "is_ext_unit u \<longleftrightarrow> (let n = unat u in (0x61 \<le> n \<and> n \<le> 0x7A) \<or> (0x30 \<le> n \<and> n \<le> 0x39))"

text \<open>The hash, alone or followed by a dot and one to ten letters or digits.\<close>

definition hash_leaf :: "jsstr \<Rightarrow> jsstr \<Rightarrow> bool" where
  "hash_leaf h leaf \<longleftrightarrow>
     leaf = h \<or>
     (startsWith leaf (h @ [0x2E]) \<and>
      (let ext = drop (length h + 1) leaf in
       1 \<le> length ext \<and> length ext \<le> 10 \<and> list_all is_ext_unit ext))"

definition path_leaf :: "jsstr \<Rightarrow> jsstr" where
  "path_leaf path =
     (case filter (\<lambda>w. w \<noteq> []) (split_on (\<lambda>u. u = 0x2F) path) of [] \<Rightarrow> [] | ws \<Rightarrow> last ws)"

definition normaliseBlossomUrl ::
  "platform \<Rightarrow> jsstr \<Rightarrow> jsstr option \<Rightarrow> profile \<Rightarrow> security_error + jsstr" where
  "normaliseBlossomUrl pf value expectedHash p =
     bindR (open_url pf value) (\<lambda>u.
     bindR (requireSecureTransport (unicode_tables pf) (sha3 pf) u (js ''https:'') (js ''http:'') p) (\<lambda>_.
     bindR (rejectCredentials u) (\<lambda>_.
     bindR (guardR (hash u = []) HasFragment) (\<lambda>_.
     bindR (case expectedHash of
              None \<Rightarrow> Inr ()
            | Some h \<Rightarrow>
                if h = [] then Inr ()
                else if search u \<noteq> [] then Inl HasQuery
                else if hash_leaf h (path_leaf (pathname u)) then Inr () else Inl WrongObject) (\<lambda>_.
       Inr (href u))))))"

definition normaliseRelayUrl :: "platform \<Rightarrow> jsstr \<Rightarrow> profile \<Rightarrow> security_error + jsstr" where
  "normaliseRelayUrl pf value p =
     bindR (open_url pf value) (\<lambda>u.
     bindR (requireSecureTransport (unicode_tables pf) (sha3 pf) u (js ''wss:'') (js ''ws:'') p) (\<lambda>_.
     bindR (rejectCredentials u) (\<lambda>_.
     bindR (guardR (hash u = []) HasFragment) (\<lambda>_. Inr (href u)))))"

definition normaliseTrackerUrl :: "platform \<Rightarrow> jsstr \<Rightarrow> profile \<Rightarrow> security_error + jsstr" where
  "normaliseTrackerUrl pf value p =
     (if p = Tor then Inl TrackerInTorMode
      else
        bindR (open_url pf value) (\<lambda>u.
        bindR (requireSecureTransport (unicode_tables pf) (sha3 pf) u (js ''wss:'') (js ''ws:'') p) (\<lambda>_.
        bindR (rejectCredentials u) (\<lambda>_.
        bindR (guardR (hash u = []) HasFragment) (\<lambda>_. Inr (href u))))))"

definition parseEndpointList ::
  "jsstr \<Rightarrow> (jsstr \<Rightarrow> security_error + jsstr) \<Rightarrow> security_error + jsstr list" where
  "parseEndpointList value parser =
     (let entries = filter (\<lambda>e. e \<noteq> []) (map trim (split_on (\<lambda>u. u = 0x0A \<or> u = 0x2C) value)) in
      if length entries > MAX_NETWORK_ENDPOINTS then Inl TooManyEndpoints
      else if list_ex (\<lambda>e. length e > 2048) entries then Inl EndpointTooLong
      else bindR (mapR parser entries) (\<lambda>es. Inr (unique es)))"

subsection \<open>File names\<close>

definition is_separator :: "code_unit \<Rightarrow> bool" where
  "is_separator u \<longleftrightarrow> u = 0x5C \<or> u = 0x2F"

text \<open>\<open>/[<>:"|?*]/\<close>.\<close>

definition is_reserved :: "code_unit \<Rightarrow> bool" where
  "is_reserved u \<longleftrightarrow> u \<in> {0x3C, 0x3E, 0x3A, 0x22, 0x7C, 0x3F, 0x2A}"

definition dot_or_space :: "code_unit \<Rightarrow> bool" where
  "dot_or_space u \<longleftrightarrow> is_space u \<or> u = 0x2E"

definition cut_name :: "jsstr \<Rightarrow> jsstr" where
  "cut_name fallback =
     (if length fallback \<le> 180 then fallback
      else
        let stop = (if is_high (fallback ! 179) \<and> is_low (fallback ! 180) then 179 else 180)
        in trimEnd (take stop fallback))"

definition clean_name :: "unicode \<Rightarrow> jsstr \<Rightarrow> jsstr" where
  "clean_name uc leaf =
     trimEnd (dropWhile dot_or_space
       (map (\<lambda>u. if is_reserved u then 0x5F else u)
         (nfc uc (filter (\<lambda>u. \<not> is_control u) leaf))))"

definition sanitiseFileName :: "unicode \<Rightarrow> jsstr \<Rightarrow> jsstr" where
  "sanitiseFileName uc value =
     (let leaf = last (split_on is_separator value);
          cleaned = clean_name uc leaf;
          fallback = (if cleaned = [] then js ''blob.bin'' else cleaned)
      in cut_name fallback)"

subsection \<open>Sizes and hexadecimal text\<close>

definition assertPrototypeFileSize :: "jsnum \<Rightarrow> security_error + nat" where
  "assertPrototypeFileSize sz =
     (case sz of
        Whole n \<Rightarrow> if n \<le> 0 then Inl EmptySize
                   else if n > int MAX_PROTOTYPE_FILE_BYTES then Inl TooLarge else Inr (nat n)
      | _ \<Rightarrow> Inl EmptySize)"

definition assertPrototypeTransferSize :: "jsnum \<Rightarrow> security_error + nat" where
  "assertPrototypeTransferSize sz =
     (case sz of
        Whole n \<Rightarrow> if n \<le> 0 then Inl EmptySize
                   else if n > int MAX_PROTOTYPE_TRANSFER_BYTES then Inl TooLarge else Inr (nat n)
      | _ \<Rightarrow> Inl EmptySize)"

definition is_hex :: "code_unit \<Rightarrow> bool" where
  "is_hex u \<longleftrightarrow> (let n = unat u in (0x30 \<le> n \<and> n \<le> 0x39) \<or> (0x61 \<le> n \<and> n \<le> 0x66))"

definition assertHex64 :: "unicode \<Rightarrow> jsstr \<Rightarrow> security_error + jsstr" where
  "assertHex64 uc value =
     (let normalised = lower uc value in
      if length normalised = 64 \<and> list_all is_hex normalised then Inr normalised else Inl NotHex)"

definition assertHex40 :: "unicode \<Rightarrow> jsstr \<Rightarrow> security_error + jsstr" where
  "assertHex40 uc value =
     (let normalised = lower uc value in
      if length normalised = 40 \<and> list_all is_hex normalised then Inr normalised else Inl NotHex)"

definition safeDiagnostic :: "jsstr \<Rightarrow> jsstr" where
  "safeDiagnostic message = take 300 (map (\<lambda>u. if is_control u then 0x20 else u) message)"

subsection \<open>The file-name rule is idempotent\<close>

text \<open>
  What the rule relies on in \<open>normalize("NFC")\<close> (Unicode Standard Annex 15): it is
  idempotent, ASCII text is normal, a part of normal text is normal, it makes no control
  or separator that was not there, and a low line, which composes with nothing, may stand
  for any character of normal text.
\<close>

definition underscored :: "jsstr \<Rightarrow> jsstr" where
  "underscored s = map (\<lambda>u. if is_reserved u then 0x5F else u) s"

definition nfc_laws :: "(jsstr \<Rightarrow> jsstr) \<Rightarrow> bool" where
  "nfc_laws f \<longleftrightarrow>
     (\<forall>s. f (f s) = f s) \<and>
     (\<forall>s. (\<forall>u \<in> set s. unat u < 0x80) \<longrightarrow> f s = s) \<and>
     (\<forall>a b c. f (a @ b @ c) = a @ b @ c \<longrightarrow> f b = b) \<and>
     (\<forall>s. \<forall>u \<in> set (f s). is_control u \<or> is_separator u \<longrightarrow> u \<in> set s) \<and>
     (\<forall>s. f s = s \<longrightarrow> f (underscored s) = underscored s)"

definition good_name :: "unicode \<Rightarrow> jsstr \<Rightarrow> bool" where
  "good_name uc r \<longleftrightarrow>
     r \<noteq> [] \<and> length r \<le> 180 \<and> nfc uc r = r \<and>
     (\<forall>u \<in> set r. \<not> is_separator u \<and> \<not> is_control u \<and> \<not> is_reserved u) \<and>
     \<not> dot_or_space (hd r) \<and> \<not> is_space (last r)"

lemma trimEnd_hd:
  assumes "s \<noteq> []" and "\<not> is_space (hd s)"
  shows "trimEnd s \<noteq> []" and "hd (trimEnd s) = hd s"
proof -
  obtain t where t: "s = trimEnd s @ t" using trimEnd_prefix by blast
  have "\<exists>x \<in> set (rev s). \<not> is_space x" using assms by auto
  then show ne: "trimEnd s \<noteq> []" by (auto simp: trimEnd_def dropWhile_eq_Nil_conv)
  then show "hd (trimEnd s) = hd s" by (metis t hd_append2)
qed

lemma nfc_lawsD:
  assumes "nfc_laws f"
  shows "f (f s) = f s"
    and "\<forall>u \<in> set s. unat u < 0x80 \<Longrightarrow> f s = s"
    and "f (a @ b @ c) = a @ b @ c \<Longrightarrow> f b = b"
    and "u \<in> set (f s) \<Longrightarrow> is_control u \<or> is_separator u \<Longrightarrow> u \<in> set s"
    and "f s = s \<Longrightarrow> f (underscored s) = underscored s"
  using assms unfolding nfc_laws_def by blast+

lemma nfc_part: "nfc_laws f \<Longrightarrow> f s = s \<Longrightarrow> s = a @ b @ c \<Longrightarrow> f b = b"
  by (rule nfc_lawsD(3)) simp_all

lemma nfc_prefix: "nfc_laws f \<Longrightarrow> f s = s \<Longrightarrow> s = b @ c \<Longrightarrow> f b = b"
  using nfc_part[of f s "[]" b c] by simp

lemma reserved_marks: "is_reserved u \<Longrightarrow> \<not> is_control u \<and> \<not> is_separator u"
  by (auto simp: is_reserved_def is_control_def is_separator_def)

lemma underscore_plain: "\<not> is_reserved 0x5F" "\<not> is_control 0x5F" "\<not> is_separator 0x5F"
  by (simp_all add: is_reserved_def is_control_def is_separator_def)

lemma clean_name_good:
  assumes laws: "nfc_laws (nfc uc)" and sep: "\<forall>u \<in> set leaf. \<not> is_separator u"
    and ne: "clean_name uc leaf \<noteq> []"
  defines "c \<equiv> clean_name uc leaf"
  shows "nfc uc c = c \<and> (\<forall>u \<in> set c. \<not> is_separator u \<and> \<not> is_control u \<and> \<not> is_reserved u) \<and>
    \<not> dot_or_space (hd c) \<and> \<not> is_space (last c)"
proof -
  define a where "a = nfc uc (filter (\<lambda>u. \<not> is_control u) leaf)"
  define b where "b = underscored a"
  define d where "d = dropWhile dot_or_space b"
  have c: "c = trimEnd d"
    by (simp add: c_def clean_name_def a_def b_def d_def underscored_def)
  have a: "nfc uc a = a" by (simp add: a_def nfc_lawsD(1)[OF laws])
  then have b: "nfc uc b = b" by (simp add: b_def nfc_lawsD(5)[OF laws])
  have am: "\<not> is_control u \<and> \<not> is_separator u" if "u \<in> set a" for u
    using nfc_lawsD(4)[OF laws, of u "filter (\<lambda>u. \<not> is_control u) leaf"] that sep by (auto simp: a_def)
  have bm: "\<forall>u \<in> set b. \<not> is_separator u \<and> \<not> is_control u \<and> \<not> is_reserved u"
    using am underscore_plain by (auto simp: b_def underscored_def)
  obtain t where t: "d = c @ t" using trimEnd_prefix[of d] c by auto
  have split: "b = takeWhile dot_or_space b @ c @ t"
    using t by (metis d_def takeWhile_dropWhile_id)
  have "nfc uc c = c" by (rule nfc_part[OF laws b split])
  moreover have "set c \<subseteq> set b" by (subst split) auto
  moreover have "d \<noteq> []" using ne c by (auto simp: c_def)
  then have "\<not> dot_or_space (hd d)" using hd_dropWhile d_def by metis
  then have "\<not> dot_or_space (hd c)" using t ne by (simp add: c_def)
  moreover have "\<not> is_space (last c)" using trimEnd_last[of d] ne c by (simp add: c_def)
  ultimately show ?thesis using bm by blast
qed

lemma blob_bin_ascii: "\<forall>u \<in> set (js ''blob.bin''). unat u < 0x80"
  by (simp add: js_def)

lemma fallback_good:
  "nfc_laws (nfc uc) \<Longrightarrow> good_name uc (js ''blob.bin'')"
  using nfc_lawsD(2)[OF _ blob_bin_ascii] unfolding good_name_def
  by (simp add: js_def is_separator_def is_control_def is_reserved_def dot_or_space_def is_space_def)

lemma cut_name_good:
  assumes laws: "nfc_laws (nfc uc)" and ne: "f \<noteq> []"
    and f: "nfc uc f = f" "\<forall>u \<in> set f. \<not> is_separator u \<and> \<not> is_control u \<and> \<not> is_reserved u"
      "\<not> dot_or_space (hd f)" "\<not> is_space (last f)"
  shows "good_name uc (cut_name f)"
proof (cases "length f \<le> 180")
  case True
  then show ?thesis using assms by (simp add: cut_name_def good_name_def)
next
  case False
  define k where "k = (if is_high (f ! 179) \<and> is_low (f ! 180) then 179 else 180 :: nat)"
  define g where "g = take k f"
  have k: "0 < k" "k \<le> 180" by (auto simp: k_def)
  have r: "cut_name f = trimEnd g" using False by (simp add: cut_name_def k_def g_def)
  obtain t where t: "g = trimEnd g @ t" using trimEnd_prefix by blast
  have whole: "f = trimEnd g @ (t @ drop k f)"
    using t append_take_drop_id[of k f] by (metis g_def append.assoc)
  have hg: "hd g = hd f" "g \<noteq> []" using ne k by (auto simp: g_def hd_take)
  then have ns: "\<not> is_space (hd g)" using f(3) by (auto simp: dot_or_space_def)
  note te = trimEnd_hd[OF hg(2) ns]
  have "length (trimEnd g) \<le> 180" using length_trimEnd[of g] k by (simp add: g_def)
  moreover have "nfc uc (trimEnd g) = trimEnd g" by (rule nfc_prefix[OF laws f(1) whole])
  moreover have "set (trimEnd g) \<subseteq> set f" by (metis whole set_append Un_upper1)
  moreover have "\<not> dot_or_space (hd (trimEnd g))" using te(2) hg(1) f(3) by simp
  ultimately show ?thesis using te(1) trimEnd_last[OF te(1)] f(2) by (auto simp: good_name_def r)
qed

lemma sanitiseFileName_good:
  assumes "nfc_laws (nfc uc)"
  shows "good_name uc (sanitiseFileName uc v)"
proof -
  define leaf where "leaf = last (split_on is_separator v)"
  have sep: "\<forall>u \<in> set leaf. \<not> is_separator u"
    using split_on_sound[of leaf is_separator v] by (simp add: leaf_def)
  show ?thesis
  proof (cases "clean_name uc leaf = []")
    case True
    have "cut_name (js ''blob.bin'') = js ''blob.bin''" by (simp add: cut_name_def js_def)
    then show ?thesis
      using True fallback_good[OF assms] by (simp add: sanitiseFileName_def leaf_def)
  next
    case False
    then show ?thesis
      using cut_name_good[OF assms False] clean_name_good[OF assms sep False]
      by (simp add: sanitiseFileName_def leaf_def)
  qed
qed

lemma good_name_fixed:
  assumes "good_name uc r"
  shows "sanitiseFileName uc r = r"
proof -
  have m: "map (\<lambda>u. if is_reserved u then 0x5F else u) r = r"
    using assms by (intro map_idI) (simp add: good_name_def)
  have c: "filter (\<lambda>u. \<not> is_control u) r = r"
    using assms by (simp add: good_name_def filter_id_conv)
  have d: "dropWhile dot_or_space r = r"
    using assms by (cases r) (auto simp: good_name_def)
  have "clean_name uc r = r"
    using assms by (simp add: clean_name_def c m d good_name_def trimEnd_append)
  moreover have "split_on is_separator r = [r]"
    using assms by (intro split_on_none) (simp add: good_name_def)
  ultimately show ?thesis
    using assms by (simp add: sanitiseFileName_def cut_name_def good_name_def)
qed

subsection \<open>Base-32 decoding\<close>

lemma nat_or_shift:
  assumes "i < 32"
  shows "or (push_bit 5 a) i = a * 32 + (i::nat)"
proof -
  have "and (push_bit 5 a) i = 0"
  proof (rule bit_eqI)
    fix n
    have "\<not> bit i n" if "5 \<le> n"
    proof -
      have "i < 2 ^ n" using assms power_increasing[OF that, of "2::nat"] by simp
      then show ?thesis by (simp add: bit_iff_odd)
    qed
    then show "bit (and (push_bit 5 a) i) n = bit 0 n" by (auto simp: bit_simps)
  qed
  then have "push_bit 5 a + i = or (push_bit 5 a) i" by (rule disjunctive_add_eq_or)
  then show ?thesis by (simp add: push_bit_eq_mult)
qed

lemma acc_step:
  assumes "i < 32"
  shows "unat (or (push_bit 5 acc) (of_nat i :: 32 word)) = (unat acc * 32 + i) mod 2 ^ 32"
proof -
  have "unat (or (push_bit 5 acc) (of_nat i :: 32 word)) = or (take_bit 32 (push_bit 5 (unat acc))) (take_bit 32 i)"
    by (simp add: unsigned_or_eq unsigned_push_bit_eq unsigned_of_nat)
  also have "\<dots> = take_bit 32 (or (push_bit 5 (unat acc)) i)" by simp
  finally show ?thesis using assms by (simp only: nat_or_shift take_bit_eq_mod)
qed

lemma out_byte:
  "unat (ucast (and (drop_bit k (w :: 32 word)) 0xff) :: byte) = unat w div 2 ^ k mod 256"
proof -
  have "and (drop_bit k w) 0xff = take_bit 8 (drop_bit k w)"
    by (simp add: take_bit_eq_mask mask_eq_exp_minus_1)
  then have "unat (ucast (and (drop_bit k w) 0xff) :: byte) = unat (take_bit 8 (drop_bit k w))"
    by (simp add: unsigned_ucast_eq unsigned_take_bit_eq)
  also have "\<dots> = take_bit 8 (unat (drop_bit k w))"
    by (simp add: unsigned_take_bit_eq)
  also have "\<dots> = take_bit 8 (drop_bit k (unat w))"
    by (simp only: unat_drop_bit_eq)
  also have "\<dots> = unat w div 2 ^ k mod 256"
    by (simp add: take_bit_eq_mod drop_bit_eq_div)
  finally show ?thesis .
qed
text \<open>The numbers that base-32 digits and bytes denote, most significant first.\<close>

definition base32_number :: "jsstr \<Rightarrow> nat" where
  "base32_number v = foldl (\<lambda>n c. n * 32 + the (base32_index c)) 0 v"

definition byte_number :: "bytes \<Rightarrow> nat" where
  "byte_number bs = foldl (\<lambda>n b. n * 256 + unat b) 0 bs"

lemma byte_number_snoc: "byte_number (bs @ [b]) = byte_number bs * 256 + unat b"
  by (simp add: byte_number_def)

lemma base32_index_bound: "base32_index c = Some i \<Longrightarrow> i < 32"
  by (auto simp: base32_index_def Let_def split: if_splits)

lemma mod_shift5: "(a * 32 + i) mod 2 ^ (k + 5) = (a mod 2 ^ k) * 32 + (i::nat)" if "i < 32"
proof -
  have "(a * 32 + i) mod (32 * 2 ^ k) = 32 * ((a * 32 + i) div 32 mod 2 ^ k) + (a * 32 + i) mod 32"
    by (rule mod_mult2_eq)
  moreover have "(a * 32 + i) div 32 = a" "(a * 32 + i) mod 32 = i" using that by simp_all
  ultimately show ?thesis by (simp add: power_add mult.commute)
qed

lemma acc_low:
  assumes "i < 32" "k \<le> 27"
  shows "unat (or (push_bit 5 acc) (of_nat i :: 32 word)) mod 2 ^ (k + 5) = (unat acc mod 2 ^ k) * 32 + i"
proof -
  have "(2::nat) ^ (k + 5) dvd 2 ^ 32" using assms(2) by (intro le_imp_power_dvd) simp
  then show ?thesis using assms(1) by (simp only: acc_step mod_mod_cancel mod_shift5)
qed

lemma base32_loop_number:
  assumes "base32_loop bits acc out v = Inr (b, r)" and "bits < 8"
    and "n = byte_number out * 2 ^ bits + unat acc mod 2 ^ bits"
  shows "b < 8 \<and> 8 * length r + b = 8 * length out + bits + 5 * length v \<and>
    (\<exists>x < 2 ^ b. foldl (\<lambda>n c. n * 32 + the (base32_index c)) n v = byte_number r * 2 ^ b + x)"
  using assms
proof (induction v arbitrary: bits acc out n)
  case Nil
  then show ?case by (intro conjI exI[of _ "unat acc mod 2 ^ bits"]) auto
next
  case (Cons c cs)
  then obtain i where i: "base32_index c = Some i" by (auto split: option.splits)
  let ?acc = "or (push_bit 5 acc) (of_nat i :: 32 word)"
  note ib = base32_index_bound[OF i]
  have low: "unat ?acc mod 2 ^ (bits + 5) = (unat acc mod 2 ^ bits) * 32 + i"
    using acc_low[OF ib, of bits acc] Cons.prems(2) by simp
  have n': "n * 32 + i = byte_number out * 2 ^ (bits + 5) + unat ?acc mod 2 ^ (bits + 5)"
    unfolding low Cons.prems(3) by (simp add: power_add algebra_simps)
  show ?case
  proof (cases "8 \<le> bits + 5")
    case True
    let ?k = "bits + 5 - 8"
    let ?b = "ucast (and (drop_bit ?k ?acc) 0xff) :: byte"
    have "(2::nat) ^ (bits + 5) = 2 ^ (?k + 8)" using True by simp
    then have p8: "(2::nat) ^ (bits + 5) = 2 ^ ?k * 256" by (simp only: power_add) simp
    have "unat ?acc mod 2 ^ (bits + 5) = 2 ^ ?k * (unat ?acc div 2 ^ ?k mod 256) + unat ?acc mod 2 ^ ?k"
      by (simp only: p8 mod_mult2_eq)
    then have "n * 32 + i = byte_number (out @ [?b]) * 2 ^ ?k + unat ?acc mod 2 ^ ?k"
      unfolding n' byte_number_snoc out_byte p8 by (simp only: algebra_simps)
    from Cons.IH[OF _ _ this] Cons.prems i True show ?thesis by (simp add: Let_def)
  next
    case False
    from Cons.IH[OF _ _ n'] Cons.prems i False show ?thesis by (simp add: Let_def)
  qed
qed

lemma decodeBase32_number:
  assumes "decodeBase32 v = Inr out"
  shows "length v = 56 \<and> length out = 35 \<and> byte_number out = base32_number v"
proof -
  from assms have l: "base32_loop 0 0 [] v = Inr (0, out)" "length out = 35"
    by (auto simp: decodeBase32_def result_split split: if_splits)
  from base32_loop_number[OF l(1), of 0] l(2) show ?thesis
    by (auto simp: base32_number_def byte_number_def)
qed

lemma base32_loop_total:
  "(\<forall>c \<in> set v. base32_index c \<noteq> None) \<Longrightarrow> \<exists>b r. base32_loop bits acc out v = Inr (b, r)"
  by (induction v arbitrary: bits acc out) (auto simp: Let_def)

lemma decodeBase32_total:
  assumes "\<forall>c \<in> set v. base32_index c \<noteq> None" and "length v = 56"
  shows "\<exists>out. decodeBase32 v = Inr out"
proof -
  obtain b r where l: "base32_loop 0 0 [] v = Inr (b, r)" using base32_loop_total[OF assms(1)] by blast
  with base32_loop_number[OF l, of 0] assms(2) have "b < 8" "8 * length r + b = 280"
    by (auto simp: byte_number_def)
  then have "b = 0" "length r = 35" by presburger+
  with l show ?thesis by (simp add: decodeBase32_def)
qed

lemma base32_loop_digits: "base32_loop bits acc out v = Inr r \<Longrightarrow> c \<in> set v \<Longrightarrow> base32_index c \<noteq> None"
  by (induction v arbitrary: bits acc out) (auto simp: Let_def split: option.splits if_splits)

subsection \<open>The two profiles never share an endpoint\<close>

lemma assertV3OnionHostname_suffix:
  assumes "assertV3OnionHostname uc sha h = Inr r"
  shows "lower uc h = r \<and> endsWith r (js ''.onion'') \<and> last r = 0x6E"
proof -
  from assms obtain label where l: "V3_ONION (lower uc h) = Some label" and r: "r = label @ js ''.onion''"
    by (auto simp: assertV3OnionHostname_def Let_def result_split split: option.splits if_splits)
  then have "lower uc h = label @ js ''.onion''"
    by (auto simp: V3_ONION_def split: if_splits) (metis append_take_drop_id)
  then show ?thesis by (simp add: r endsWith_def js_def)
qed

lemma strip_dots_id: "s \<noteq> [] \<Longrightarrow> last s \<noteq> 0x2E \<Longrightarrow> strip_dots s = s"
  by (cases s rule: rev_cases) (auto simp: strip_dots_def)

lemma onion_refused_direct:
  assumes "endsWith (hostname u) (js ''.onion'')"
  shows "requireSecureTransport uc sha u s l Direct = Inl OnionInDirectMode"
proof -
  obtain t where "hostname u = t @ js ''.onion''" using assms unfolding endsWith_def by (metis append_take_drop_id)
  then have "strip_dots (hostname u) = hostname u" by (intro strip_dots_id) (simp_all add: js_def)
  with assms show ?thesis by (simp add: requireSecureTransport_def)
qed

lemma tor_needs_onion:
  assumes "requireSecureTransport uc sha u s l Tor = Inr ()" "lower uc (hostname u) = hostname u"
  shows "assertV3OnionHostname uc sha (hostname u) = Inr (hostname u) \<and> endsWith (hostname u) (js ''.onion'')"
proof -
  obtain r where r: "assertV3OnionHostname uc sha (hostname u) = Inr r" using assms(1) by (auto simp: requireSecureTransport_def result_split)
  then show ?thesis using assertV3OnionHostname_suffix[OF r] assms(2) by simp
qed

text \<open>The four endpoint rules open the URL and check its transport first.\<close>

lemmas endpoint_rules = normaliseBlossomServer_def normaliseBlossomUrl_def normaliseRelayUrl_def normaliseTrackerUrl_def open_url_def

subsection \<open>Properties\<close>

text \<open>
  Property C20: the file-name rule gives a name that is not empty, at most 180 units long,
  free of separators, controls and reserved characters, and that neither begins with a dot or
  white space nor ends in white space; and the name is a fixed point of the rule, which is
  what every reader of a stored name requires.
\<close>

theorem sanitise_fixed_point:
  assumes "nfc_laws (nfc uc)"
  shows "good_name uc (sanitiseFileName uc v) \<and>
    sanitiseFileName uc (sanitiseFileName uc v) = sanitiseFileName uc v"
  using sanitiseFileName_good[OF assms] good_name_fixed by blast

theorem sanitise_fixed_point_witness:
  "nfc_laws (nfc \<lparr>nfc = id, lower = id\<rparr>) \<and>
   sanitiseFileName \<lparr>nfc = id, lower = id\<rparr> (js ''a/ .b:c '') = js ''b_c'' \<and>
   sanitiseFileName \<lparr>nfc = id, lower = id\<rparr> (js ''b_c'') = js ''b_c''"
proof -
  have laws: "nfc_laws (nfc \<lparr>nfc = id, lower = id\<rparr>)" by (simp add: nfc_laws_def)
  have eq: "sanitiseFileName \<lparr>nfc = id, lower = id\<rparr> (js ''a/ .b:c '') = js ''b_c''"
    by (simp add: sanitiseFileName_def clean_name_def cut_name_def js_def is_separator_def
        is_control_def is_reserved_def dot_or_space_def is_space_def trimEnd_def)
  show ?thesis
    using laws eq sanitise_fixed_point[OF laws, of "js ''a/ .b:c ''"] by simp
qed

text \<open>
  Property C22: decoding an onion label never depends on the bits the 32-bit accumulator
  drops. Every 56-unit base-32 label decodes to 35 bytes that denote the same number, and
  nothing else decodes.
\<close>

theorem decodeBase32_correct:
  "(\<exists>out. decodeBase32 v = Inr out \<and> length out = 35 \<and> byte_number out = base32_number v)
     \<longleftrightarrow> length v = 56 \<and> list_all (\<lambda>c. base32_index c \<noteq> None) v"
proof
  assume "\<exists>out. decodeBase32 v = Inr out \<and> length out = 35 \<and> byte_number out = base32_number v"
  then obtain out where out: "decodeBase32 v = Inr out" by blast
  then have "\<exists>r. base32_loop 0 0 [] v = Inr r" by (auto simp: decodeBase32_def result_split)
  then show "length v = 56 \<and> list_all (\<lambda>c. base32_index c \<noteq> None) v"
    using decodeBase32_number[OF out] base32_loop_digits by (auto simp: list_all_iff)
next
  assume a: "length v = 56 \<and> list_all (\<lambda>c. base32_index c \<noteq> None) v"
  then obtain out where "decodeBase32 v = Inr out"
    using decodeBase32_total[of v] by (auto simp: list_all_iff)
  with decodeBase32_number[OF this]
  show "\<exists>out. decodeBase32 v = Inr out \<and> length out = 35 \<and> byte_number out = base32_number v"
    by blast
qed


definition sample_onion :: jsstr where "sample_onion = replicate 55 0x61 @ js ''d.onion''"

definition sample_tor_platform :: platform where
  "sample_tor_platform = \<lparr>new_URL = (\<lambda>_. Some \<lparr>protocol = js ''http:'', hostname = sample_onion, username = [], password = [],
     pathname = js ''/'', search = [], hash = [], origin = js ''http://'' @ sample_onion, href = js ''http://'' @ sample_onion\<rparr>),
     unicode_tables = \<lparr>nfc = id, lower = id\<rparr>, sha3 = (\<lambda>_. [0, 0])\<rparr>"

lemma sample_tor_accepted: "normaliseBlossomServer sample_tor_platform [] Tor = Inr (js ''http://'' @ sample_onion)"
  by code_simp


end
