(* ===== verification/Messages.thy ===== *)
theory Messages
  imports Security Frames "HOL-Library.Multiset" "HOL-Library.Code_Target_Nat"
begin

text \<open>
  The exchange messages of direct send (\<open>src/direct/messages.ts\<close>): the canonical JSON
  text, the shape of a session description, the reader of each message with its refusals,
  and the table of the events each side may send at each index.

  The main results are that the message codec is canonical: what \<open>encodeMessage\<close> writes
  for a legal message is read back as that message, and \<open>decodeMessage\<close> accepts nothing
  but the one encoding of each message.
\<close>

datatype side = Drop | Page

datatype stop_reason = Cancelled | Unsupported | Failed

record ice_server =
  credential :: jsstr
  urls :: "jsstr list"
  user :: jsstr

datatype direct_message =
    Invite bool "ice_server list" jsstr int
  | Manifest jsstr int jsstr
  | Accept jsstr
  | Decline
  | Answer jsstr jsstr
  | Restart jsstr
  | RestartAnswer jsstr
  | StopMessage stop_reason

text \<open>Why a message is refused: the \<open>stop\<close> reason the reader sends, and a detail.\<close>

datatype refusal = BadFailed string | BadUnsupported string

record decode_context =
  sender :: side
  index :: nat
  iceAllowlist :: "jsstr list"
  maxOffered :: "int option"

subsection \<open>Canonical text\<close>

datatype canon_error = LoneSurrogate | NotCanonicalInteger | NullNotAllowed

definition canonical_string :: "jsstr \<Rightarrow> canon_error + jsstr" where
  "canonical_string s = (if lone_surrogate s then Inl LoneSurrogate else Inr (JSON_quote s))"

function canonicalJson :: "json \<Rightarrow> canon_error + jsstr" where
  "canonicalJson (JStr s) = canonical_string s"
| "canonicalJson (JNum n) =
     (case n of
        Whole i \<Rightarrow> if 0 \<le> i \<and> i \<le> MAX_SAFE_INTEGER then Inr (decimal (nat i)) else Inl NotCanonicalInteger
      | _ \<Rightarrow> Inl NotCanonicalInteger)"
| "canonicalJson (JBool b) = Inr (if b then js ''true'' else js ''false'')"
| "canonicalJson JNull = Inl NullNotAllowed"
| "canonicalJson (JArr vs) =
     bindR (mapR canonicalJson vs) (\<lambda>ts. Inr (0x5B # join [0x2C] ts @ [0x5D]))"
| "canonicalJson (JObj kvs) =
     bindR (mapR (\<lambda>(k, v).
              bindR (canonical_string k) (\<lambda>kt.
              bindR (canonicalJson v) (\<lambda>vt. Inr (kt @ 0x3A # vt)))) (sort_key fst kvs))
       (\<lambda>ts. Inr (0x7B # join [0x2C] ts @ [0x7D]))"
  by pat_completeness auto
termination
proof (relation "measure size", goal_cases)
  case (2 vs v)
  then show ?case by (auto simp: less_Suc_eq_le intro: size_list_estimation')
next
  case (3 kvs kv k v)
  then have "(k, v) \<in> set kvs" by simp
  then have "size v < size_list (size_prod (\<lambda>_. 0) size) kvs"
    by (induction kvs) auto
  then show ?case by simp
qed simp

subsection \<open>Messages as JSON\<close>

definition obj :: "(string \<times> json) list \<Rightarrow> json" where
  "obj kvs = JObj (map (\<lambda>(k, v). (js k, v)) kvs)"

definition server_json :: "ice_server \<Rightarrow> json" where
  "server_json s =
     obj [(''credential'', JStr (credential s)), (''urls'', JArr (map JStr (urls s))),
          (''username'', JStr (user s))]"

fun reason_name :: "stop_reason \<Rightarrow> string" where
  "reason_name Cancelled = ''cancelled''"
| "reason_name Unsupported = ''unsupported''"
| "reason_name Failed = ''failed''"

fun event_name :: "direct_message \<Rightarrow> string" where
  "event_name (Invite _ _ _ _) = ''invite''"
| "event_name (Manifest _ _ _) = ''manifest''"
| "event_name (Accept _) = ''accept''"
| "event_name Decline = ''decline''"
| "event_name (Answer _ _) = ''answer''"
| "event_name (Restart _) = ''restart''"
| "event_name (RestartAnswer _) = ''restart-answer''"
| "event_name (StopMessage _) = ''stop''"

fun message_members :: "direct_message \<Rightarrow> (string \<times> json) list" where
  "message_members (Invite hide ice i m) =
     [(''dir'', JStr (js ''to-drop'')), (''hide'', JBool hide), (''ice'', JArr (map server_json ice)),
      (''id'', JStr i), (''max'', JNum (Whole m))]"
| "message_members (Manifest name sz type) =
     [(''name'', JStr name), (''size'', JNum (Whole sz)), (''type'', JStr type)]"
| "message_members (Accept sdp) = [(''sdp'', JStr sdp)]"
| "message_members Decline = []"
| "message_members (Answer key sdp) = [(''key'', JStr key), (''sdp'', JStr sdp)]"
| "message_members (Restart sdp) = [(''sdp'', JStr sdp)]"
| "message_members (RestartAnswer sdp) = [(''sdp'', JStr sdp)]"
| "message_members (StopMessage r) = [(''reason'', JStr (js (reason_name r)))]"

text \<open>\<open>{ ...message, v: 1 }\<close>.\<close>

definition message_json :: "direct_message \<Rightarrow> json" where
  "message_json m =
     obj ((''event'', JStr (js (event_name m))) # message_members m @ [(''v'', JNum (Whole 1))])"

datatype encode_error = NotCanonical canon_error | MessageTooLarge

definition encodeMessage :: "direct_message \<Rightarrow> encode_error + bytes" where
  "encodeMessage m =
     (case canonicalJson (message_json m) of
        Inl e \<Rightarrow> Inl (NotCanonical e)
      | Inr text \<Rightarrow>
          let bs = utf8_encode text in
          if length bs > messageBytes LIMITS then Inl MessageTooLarge else Inr bs)"

subsection \<open>Checking\<close>

definition hasExactly :: "(jsstr \<times> json) list \<Rightarrow> string list \<Rightarrow> bool" where
  "hasExactly body names \<longleftrightarrow>
     length body = length names \<and> list_all (\<lambda>n. js n \<in> set (map fst body)) names"

definition member :: "(jsstr \<times> json) list \<Rightarrow> string \<Rightarrow> json option" where
  "member body name = map_of body (js name)"

text \<open>A line feed not after a carriage return, or a carriage return not before a line feed.\<close>

fun bare_break :: "bool \<Rightarrow> jsstr \<Rightarrow> bool" where
  "bare_break cr [] = cr"
| "bare_break cr (u # us) =
     (if u = 0x0A then \<not> cr \<or> bare_break False us else cr \<or> bare_break (u = 0x0D) us)"

fun split_crlf :: "jsstr \<Rightarrow> jsstr list" where
  "split_crlf [] = [[]]"
| "split_crlf [u] = [[u]]"
| "split_crlf (u # w # us) =
     (if u = 0x0D \<and> w = 0x0A then [] # split_crlf us
      else (case split_crlf (w # us) of l # ls \<Rightarrow> (u # l) # ls | [] \<Rightarrow> [[u]]))"

definition data_media :: "jsstr \<Rightarrow> bool" where
  "data_media line \<longleftrightarrow>
     startsWith line (js ''m=application '') \<and>
     (let rest = drop 14 line; ds = takeWhile is_digit rest in
      ds \<noteq> [] \<and> drop (length ds) rest = js '' UDP/DTLS/SCTP webrtc-datachannel'')"

definition crlf :: jsstr where "crlf = [0x0D, 0x0A]"

definition checkSdp :: "jsstr \<Rightarrow> string option" where
  "checkSdp sdp =
     (if sdp = [] \<or> utf8Length sdp > sdpBytes LIMITS then Some ''The description is empty or over 8,000 bytes.''
      else if \<not> list_all (\<lambda>u. u = 0x0D \<or> u = 0x0A \<or> (0x20 \<le> unat u \<and> unat u \<le> 0x7E)) sdp
        then Some ''The description is not printable ASCII.''
      else if \<not> startsWith sdp (js ''v=0'' @ crlf) \<or> \<not> endsWith sdp crlf
        then Some ''The description does not start with v=0 or end in CRLF.''
      else if bare_break False sdp then Some ''The description has a bare line feed or carriage return.''
      else
        let lines = split_crlf (take (length sdp - 2) sdp);
            media = filter (\<lambda>l. startsWith l (js ''m='')) lines in
        if length media \<noteq> 1 \<or> \<not> list_all data_media media
          then Some ''The description must have exactly one data-channel media section.''
        else if \<not> list_ex (\<lambda>l. startsWith l (js ''a=fingerprint:sha-256 '')) lines
          then Some ''The description has no SHA-256 fingerprint.''
        else None)"

definition isCanonicalId :: "jsstr \<Rightarrow> bool" where
  "isCanonicalId s \<longleftrightarrow> length s = 22 \<and> list_all is_base64url s \<and> s ! 21 \<in> set (js ''AQgw'')"

definition isCanonicalKey :: "jsstr \<Rightarrow> bool" where
  "isCanonicalKey s \<longleftrightarrow>
     length s = 48 \<and> startsWith s (js ''wbk1_'') \<and> list_all is_base64url (drop 5 s) \<and>
     last s \<in> set (js ''AEIMQUYcgkosw048'')"

definition isRelayUrl :: "jsstr \<Rightarrow> bool" where
  "isRelayUrl u \<longleftrightarrow> startsWith u (js ''turn:'') \<or> startsWith u (js ''turns:'')"

definition hasRelayUrl :: "ice_server list \<Rightarrow> bool" where
  "hasRelayUrl servers \<longleftrightarrow> list_ex (\<lambda>s. list_ex isRelayUrl (urls s)) servers"

definition ice_url_ok :: "jsstr \<Rightarrow> bool" where
  "ice_url_ok u \<longleftrightarrow>
     (case after_scheme u of None \<Rightarrow> False | Some rest \<Rightarrow> rest \<noteq> [] \<and> list_all (\<lambda>c. \<not> is_space c) rest) \<and>
     utf8Length u \<le> urlBytes LIMITS"

definition secret_ok :: "bool \<Rightarrow> jsstr \<Rightarrow> bool" where
  "secret_ok relay s \<longleftrightarrow>
     (if relay then s \<noteq> [] \<and> utf8Length s \<le> credentialBytes LIMITS \<and> \<not> list_ex is_control s
      else s = [])"

definition read_ice_url :: "json \<Rightarrow> refusal + jsstr" where
  "read_ice_url v =
     (case v of
        JStr u \<Rightarrow> if ice_url_ok u then Inr u else Inl (BadFailed ''an ice URL is malformed'')
      | _ \<Rightarrow> Inl (BadFailed ''an ice URL is malformed''))"

definition read_secret :: "bool \<Rightarrow> json option \<Rightarrow> refusal + jsstr" where
  "read_secret relay v =
     (case v of
        Some (JStr s) \<Rightarrow> if secret_ok relay s then Inr s else Inl (BadFailed ''a username or credential is malformed'')
      | _ \<Rightarrow> Inl (BadFailed ''a username or credential is malformed''))"

definition read_server :: "json \<Rightarrow> refusal + ice_server" where
  "read_server entry =
     (case entry of
        JObj kvs \<Rightarrow>
          if \<not> hasExactly kvs [''credential'', ''urls'', ''username'']
          then Inl (BadFailed ''an ice server has the wrong members'')
          else
            (case member kvs ''urls'' of
               Some (JArr us) \<Rightarrow>
                 if length us < 1 \<or> length us > urlsPerServer LIMITS
                 then Inl (BadFailed ''urls must hold 1 to 4 URLs'')
                 else
                   bindR (mapR read_ice_url us) (\<lambda>us'.
                   let relay = list_ex isRelayUrl us' in
                   bindR (read_secret relay (member kvs ''username'')) (\<lambda>un.
                   bindR (read_secret relay (member kvs ''credential'')) (\<lambda>cr.
                   Inr \<lparr>credential = cr, urls = us', user = un\<rparr>)))
             | _ \<Rightarrow> Inl (BadFailed ''urls must hold 1 to 4 URLs''))
      | _ \<Rightarrow> Inl (BadFailed ''an ice server has the wrong members''))"

definition readIce :: "json option \<Rightarrow> jsstr list \<Rightarrow> refusal + ice_server list" where
  "readIce v allowlist =
     (case v of
        Some (JArr es) \<Rightarrow>
          if length es < 1 \<or> length es > iceServers LIMITS
          then Inl (BadFailed ''ice must hold 1 to 4 servers'')
          else
            bindR (mapR read_server es) (\<lambda>servers.
              if list_all (\<lambda>s. list_all (\<lambda>u. u \<in> set allowlist) (urls s)) servers then Inr servers
              else Inl (BadUnsupported ''an ice URL is not on the build-time allowlist''))
      | _ \<Rightarrow> Inl (BadFailed ''ice must hold 1 to 4 servers''))"

definition readInvite :: "(jsstr \<times> json) list \<Rightarrow> decode_context \<Rightarrow> refusal + direct_message" where
  "readInvite body ctx =
     (if \<not> hasExactly body [''dir'', ''event'', ''hide'', ''ice'', ''id'', ''max'', ''v'']
      then Inl (BadFailed ''invite members'')
      else
        bindR (case member body ''dir'' of
                 Some (JStr d) \<Rightarrow> if d = js ''to-drop'' \<or> d = js ''from-drop'' then Inr d else Inl (BadFailed ''unknown direction'')
               | _ \<Rightarrow> Inl (BadFailed ''unknown direction'')) (\<lambda>dir.
        bindR (case member body ''hide'' of
                 Some (JBool h) \<Rightarrow> Inr h
               | _ \<Rightarrow> Inl (BadFailed ''hide must be a boolean'')) (\<lambda>hide.
        bindR (case member body ''id'' of
                 Some (JStr i) \<Rightarrow> if isCanonicalId i then Inr i else Inl (BadFailed ''id is not 16 canonical base64url bytes'')
               | _ \<Rightarrow> Inl (BadFailed ''id is not 16 canonical base64url bytes'')) (\<lambda>i.
        bindR (case member body ''max'' of
                 Some (JNum (Whole m)) \<Rightarrow> if m < 1 then Inl (BadFailed ''max must be at least 1'') else Inr m
               | _ \<Rightarrow> Inl (BadFailed ''max must be at least 1'')) (\<lambda>m.
        bindR (readIce (member body ''ice'') (iceAllowlist ctx)) (\<lambda>ice.
          if dir = js ''from-drop'' then Inl (BadUnsupported ''this page sends; it does not receive'')
          else if m > int (maxPlaintextBytes LIMITS) then Inl (BadUnsupported ''max is above the 250,000,000 byte cap'')
          else Inr (Invite hide ice i m)))))))"

text \<open>\<open>DISGUISING_CHARACTERS\<close>, by code point.\<close>

definition disguising :: "nat \<Rightarrow> bool" where
  "disguising p \<longleftrightarrow>
     p = 0x061C \<or> p = 0x180E \<or> (0x200B \<le> p \<and> p \<le> 0x200F) \<or> (0x202A \<le> p \<and> p \<le> 0x202E)
     \<or> (0x2060 \<le> p \<and> p \<le> 0x2064) \<or> (0x2066 \<le> p \<and> p \<le> 0x206F) \<or> p = 0xFEFF
     \<or> (0xE0000 \<le> p \<and> p \<le> 0xE007F)"

definition media_type_ok :: "unicode \<Rightarrow> jsstr \<Rightarrow> bool" where
  "media_type_ok uc t \<longleftrightarrow>
     1 \<le> length t \<and> length t \<le> 255 \<and> \<not> list_ex is_control t \<and> lower uc t = t"

definition readManifest ::
  "unicode \<Rightarrow> (jsstr \<times> json) list \<Rightarrow> decode_context \<Rightarrow> refusal + direct_message" where
  "readManifest uc body ctx =
     (if \<not> hasExactly body [''event'', ''name'', ''size'', ''type'', ''v'']
      then Inl (BadFailed ''manifest members'')
      else
        bindR (case member body ''name'' of
                 Some (JStr n) \<Rightarrow>
                   if sanitiseFileName uc n \<noteq> n then Inl (BadFailed ''name is not a fixed point of the name rule'')
                   else if list_ex disguising (code_points n) then Inl (BadFailed ''name holds a character that disguises it'')
                   else Inr n
               | _ \<Rightarrow> Inl (BadFailed ''name is not a fixed point of the name rule'')) (\<lambda>name.
        bindR (case member body ''type'' of
                 Some (JStr t) \<Rightarrow> if media_type_ok uc t then Inr t else Inl (BadFailed ''type is not a lower-case media type'')
               | _ \<Rightarrow> Inl (BadFailed ''type is not a lower-case media type'')) (\<lambda>type.
        bindR (case member body ''size'' of
                 Some (JNum (Whole n)) \<Rightarrow> Inr n
               | _ \<Rightarrow> Inl (BadFailed ''size must be an integer'')) (\<lambda>sz.
          (case maxOffered ctx of
             Some m \<Rightarrow> if sz > m then Inl (BadUnsupported ''size is above max'') else Inr (Manifest name sz type)
           | None \<Rightarrow> Inr (Manifest name sz type))))))"

definition read_sdp :: "(jsstr \<times> json) list \<Rightarrow> refusal + jsstr" where
  "read_sdp body =
     (case member body ''sdp'' of
        Some (JStr s) \<Rightarrow> (case checkSdp s of Some problem \<Rightarrow> Inl (BadFailed problem) | None \<Rightarrow> Inr s)
      | _ \<Rightarrow> Inl (BadFailed ''sdp must be a string''))"

definition readSdpMessage ::
  "(jsstr \<times> json) list \<Rightarrow> (jsstr \<Rightarrow> direct_message) \<Rightarrow> refusal + direct_message" where
  "readSdpMessage body event =
     (if \<not> hasExactly body [''event'', ''sdp'', ''v''] then Inl (BadFailed (event_name (event []) @ '' members''))
      else bindR (read_sdp body) (\<lambda>sdp. Inr (event sdp)))"

definition readAnswer :: "(jsstr \<times> json) list \<Rightarrow> refusal + direct_message" where
  "readAnswer body =
     (if \<not> hasExactly body [''event'', ''key'', ''sdp'', ''v''] then Inl (BadFailed ''answer members'')
      else
        bindR (case member body ''key'' of
                 Some (JStr k) \<Rightarrow> if isCanonicalKey k then Inr k else Inl (BadFailed ''key is not a canonical wbk1_ key'')
               | _ \<Rightarrow> Inl (BadFailed ''key is not a canonical wbk1_ key'')) (\<lambda>key.
        bindR (read_sdp body) (\<lambda>sdp. Inr (Answer key sdp))))"

definition readStop :: "(jsstr \<times> json) list \<Rightarrow> refusal + direct_message" where
  "readStop body =
     (if \<not> hasExactly body [''event'', ''reason'', ''v''] then Inl (BadFailed ''stop members'')
      else
        (case member body ''reason'' of
           Some (JStr r) \<Rightarrow>
             if r = js ''cancelled'' then Inr (StopMessage Cancelled)
             else if r = js ''unsupported'' then Inr (StopMessage Unsupported)
             else if r = js ''failed'' then Inr (StopMessage Failed)
             else Inl (BadFailed ''unknown stop reason'')
         | _ \<Rightarrow> Inl (BadFailed ''unknown stop reason'')))"

definition allowedEvents :: "side \<Rightarrow> nat \<Rightarrow> string list" where
  "allowedEvents from i =
     (if i \<ge> messagesPerSide LIMITS then []
      else if from = Drop then
        if i = 0 then [''invite'']
        else if i = 1 then [''accept'', ''decline'', ''stop'']
        else if i \<le> 1 + restarts LIMITS then [''restart'', ''stop'']
        else [''stop'']
      else if i = 0 then [''manifest'', ''stop'']
      else if i = 1 then [''answer'', ''stop'']
      else if i \<le> 1 + restarts LIMITS then [''restart-answer'', ''stop'']
      else [''stop''])"

definition read_event ::
  "unicode \<Rightarrow> (jsstr \<times> json) list \<Rightarrow> decode_context \<Rightarrow> string \<Rightarrow> refusal + direct_message" where
  "read_event uc body ctx event =
     (if event = ''invite'' then readInvite body ctx
      else if event = ''manifest'' then readManifest uc body ctx
      else if event = ''accept'' then readSdpMessage body Accept
      else if event = ''restart'' then readSdpMessage body Restart
      else if event = ''restart-answer'' then readSdpMessage body RestartAnswer
      else if event = ''decline'' then
        (if hasExactly body [''event'', ''v''] then Inr Decline else Inl (BadFailed ''decline members''))
      else if event = ''answer'' then readAnswer body
      else if event = ''stop'' then readStop body
      else Inl (BadFailed ''unknown event''))"

definition read_body :: "unicode \<Rightarrow> (jsstr \<times> json) list \<Rightarrow> decode_context \<Rightarrow> refusal + direct_message" where
  "read_body uc body ctx =
     (case member body ''v'' of
        Some (JNum n) \<Rightarrow>
          if n \<noteq> Whole 1 then Inl (BadUnsupported ''version'')
          else
            (case member body ''event'' of
               Some (JStr e) \<Rightarrow>
                 (case find (\<lambda>a. js a = e) (allowedEvents (sender ctx) (index ctx)) of
                    Some event \<Rightarrow> read_event uc body ctx event
                  | None \<Rightarrow> Inl (BadFailed ''event not allowed here''))
             | _ \<Rightarrow> Inl (BadFailed ''event not allowed here''))
      | _ \<Rightarrow> Inl (BadFailed ''missing or malformed version''))"

definition decodeMessage :: "unicode \<Rightarrow> decode_context \<Rightarrow> bytes \<Rightarrow> refusal + direct_message" where
  "decodeMessage uc ctx bs =
     (if length bs > messageBytes LIMITS then Inl (BadFailed ''message over 16,379 bytes'')
      else
        (case utf8_decode bs of
           None \<Rightarrow> Inl (BadFailed ''not UTF-8'')
         | Some text \<Rightarrow>
             (case JSON_parse text of
                None \<Rightarrow> Inl (BadFailed ''not JSON'')
              | Some (JObj body) \<Rightarrow>
                  (case canonicalJson (JObj body) of
                     Inl _ \<Rightarrow> Inl (BadFailed ''not canonical (value)'')
                   | Inr canonical \<Rightarrow>
                       if canonical \<noteq> text then Inl (BadFailed ''not canonical (bytes)'')
                       else read_body uc body ctx)
              | Some _ \<Rightarrow> Inl (BadFailed ''not an object''))))"

subsection \<open>The canonical text of a value\<close>

function norm :: "json \<Rightarrow> json" where
  "norm JNull = JNull"
| "norm (JBool b) = JBool b"
| "norm (JNum n) = JNum n"
| "norm (JStr s) = JStr s"
| "norm (JArr vs) = JArr (map norm vs)"
| "norm (JObj kvs) = JObj (map (\<lambda>kv. (fst kv, norm (snd kv))) (sort_key fst kvs))"
  by pat_completeness auto
termination
  by (relation "measure size") (auto simp: size_element intro: size_member[of "(_, _)", simplified])

definition canonical_member :: "jsstr \<times> json \<Rightarrow> canon_error + jsstr" where
  "canonical_member kv =
     bindR (canonical_string (fst kv)) (\<lambda>kt. bindR (canonicalJson (snd kv)) (\<lambda>vt. Inr (kt @ 0x3A # vt)))"

lemma canonicalJson_object:
  "canonicalJson (JObj kvs) =
     bindR (mapR canonical_member (sort_key fst kvs)) (\<lambda>ts. Inr (0x7B # join [0x2C] ts @ [0x7D]))"
  by (simp add: canonical_member_def[abs_def] case_prod_unfold)

declare canonicalJson.simps(6) [simp del]

text \<open>The first unit of the text of a value.\<close>

definition starts_value :: "jsstr \<Rightarrow> bool" where
  "starts_value t \<longleftrightarrow> t \<noteq> [] \<and> \<not> is_ws (hd t) \<and> hd t \<noteq> 0x5D"

lemma canonical_starts: "canonicalJson v = Inr t \<Longrightarrow> starts_value t"
proof (cases v)
  case (JNum n)
  moreover assume "canonicalJson v = Inr t"
  ultimately obtain i where "t = decimal (nat i)" by (auto split: jsnum.splits if_splits)
  then show ?thesis
    using decimal_digits[of "nat i"] is_digit_starts[of "hd t"] by (auto simp: starts_value_def)
qed (auto simp: canonicalJson_object starts_value_def canonical_string_def JSON_quote_def js_def is_ws_def
      result_split split: if_splits)

definition value_end :: "jsstr \<Rightarrow> bool" where
  "value_end r \<longleftrightarrow> r = [] \<or> hd r = 0x2C \<or> hd r = 0x5D \<or> hd r = 0x7D"

lemma value_end_number: "value_end r \<Longrightarrow> number_end r"
  by (auto simp: value_end_def number_end_def is_digit_def)

lemma canonical_elements:
  assumes "list_all2 (\<lambda>v t. canonicalJson v = Inr t \<and> (\<forall>r. value_end r \<longrightarrow> parses (t @ r) (norm v) r)) vs ts"
    and "vs \<noteq> []"
  shows "parses_elements acc (join [0x2C] ts @ 0x5D # r) (JArr (acc @ map norm vs)) r"
  using assms
proof (induction vs arbitrary: ts acc)
  case (Cons v vs)
  then obtain t ts' where ts: "ts = t # ts'" and t: "\<And>r. value_end r \<Longrightarrow> parses (t @ r) (norm v) r"
    and r: "list_all2 (\<lambda>v t. canonicalJson v = Inr t \<and> (\<forall>r. value_end r \<longrightarrow> parses (t @ r) (norm v) r)) vs ts'"
    by (auto simp: list_all2_Cons1)
  show ?case
  proof (cases vs)
    case Nil
    then show ?thesis using r ts t[of "0x5D # r"] parses_elements_last[of "t @ 0x5D # r" "norm v" r acc]
      by (simp add: value_end_def)
  next
    case (Cons w ws)
    then obtain t' ts'' where ts': "ts' = t' # ts''" using r by (auto simp: list_all2_Cons1)
    have "parses_elements (acc @ [norm v]) (join [0x2C] ts' @ 0x5D # r) (JArr ((acc @ [norm v]) @ map norm vs)) r"
      using Cons.IH[OF r, of "acc @ [norm v]"] Cons by simp
    then show ?thesis
      using parses_elements_more[of "t @ 0x2C # join [0x2C] ts' @ 0x5D # r" "norm v" "join [0x2C] ts' @ 0x5D # r" acc]
        t[of "0x2C # join [0x2C] ts' @ 0x5D # r"] ts ts' by (simp add: value_end_def)
  qed
qed simp

lemma canonical_members:
  assumes "list_all2 (\<lambda>kv t. \<exists>u. t = JSON_quote (fst kv) @ 0x3A # u \<and>
        (\<forall>r. value_end r \<longrightarrow> parses (u @ r) (norm (snd kv)) r)) kvs ts"
    and "kvs \<noteq> []" and "distinct (map fst (acc @ kvs))"
  shows "parses_members acc (join [0x2C] ts @ 0x7D # r)
     (JObj (acc @ map (\<lambda>kv. (fst kv, norm (snd kv))) kvs)) r"
  using assms
proof (induction kvs arbitrary: ts acc)
  case (Cons kv kvs)
  then obtain u ts' where ts: "ts = (JSON_quote (fst kv) @ 0x3A # u) # ts'"
    and u: "\<And>r. value_end r \<Longrightarrow> parses (u @ r) (norm (snd kv)) r"
    and r: "list_all2 (\<lambda>kv t. \<exists>u. t = JSON_quote (fst kv) @ 0x3A # u \<and>
        (\<forall>r. value_end r \<longrightarrow> parses (u @ r) (norm (snd kv)) r)) kvs ts'"
    by (auto simp: list_all2_Cons1)
  let ?m = "(fst kv, norm (snd kv))"
  have new: "put (fst kv) (norm (snd kv)) acc = acc @ [?m]" using Cons.prems(3) by (intro put_new) auto
  show ?case
  proof (cases kvs)
    case Nil
    then show ?thesis using r ts parses_members_step(1)[OF u[of "0x7D # r"] refl, of acc "fst kv"] new
      by (simp add: value_end_def)
  next
    case (Cons w ws)
    then obtain t' ts'' where ts': "ts' = t' # ts''" using r by (auto simp: list_all2_Cons1)
    let ?rest = "join [0x2C] ts' @ 0x7D # r"
    have "distinct (map fst ((acc @ [?m]) @ kvs))" using Cons.prems(3) by auto
    then have "parses_members (acc @ [?m]) ?rest (JObj ((acc @ [?m]) @ map (\<lambda>kv. (fst kv, norm (snd kv))) kvs)) r"
      using Cons.IH[OF r] Cons by blast
    then show ?thesis
      using parses_members_step(2)[OF u[of "0x2C # ?rest"] refl, of "fst kv" acc] new ts ts'
      by (simp add: value_end_def)
  qed
qed simp

lemma distinct_sort_key: "distinct (map fst kvs) \<Longrightarrow> distinct (map fst (sort_key fst kvs))"
  by (simp add: distinct_map inj_on_def) 

lemma join_starts: "ts \<noteq> [] \<Longrightarrow> hd ts \<noteq> [] \<Longrightarrow> hd (join s ts) = hd (hd ts) \<and> join s ts \<noteq> []"
  by (cases ts; cases "tl ts") auto

lemma canonical_parses:
  "canonicalJson v = Inr t \<Longrightarrow> wf_json v \<Longrightarrow> value_end r \<Longrightarrow> parses (t @ r) (norm v) r"
proof (induction v arbitrary: t r rule: canonicalJson.induct)
  case (1 s)
  then have "t = JSON_quote s" by (auto simp: canonical_string_def split: if_splits)
  then show ?case by (simp add: parses_quote)
next
  case (2 n)
  then obtain i where n: "n = Whole i" "0 \<le> i" "i \<le> MAX_SAFE_INTEGER" and t: "t = decimal (nat i)"
    by (auto split: jsnum.splits if_splits)
  have "nat i < 2 ^ 53" using n by (simp add: MAX_SAFE_INTEGER_def)
  from parses_decimal[OF this value_end_number[OF 2(3)]] n t show ?case by simp
next
  case (3 b)
  then show ?case
    using parses_leaf[of "hd t" "tl t @ r"]
    by (cases b) (auto simp: js_def parse_leaf_def literal_def startsWith_def is_ws_def)
next
  case (5 vs)
  then obtain ts where ts: "mapR canonicalJson vs = Inr ts" and t: "t = 0x5B # join [0x2C] ts @ [0x5D]"
    by (auto simp: result_split)
  show ?case
  proof (cases "vs = []")
    case True
    then show ?thesis using ts t by (auto simp: parses_def skip_ws_id intro!: exI[of _ 1])
  next
    case False
    have "list_all2 (\<lambda>v t. canonicalJson v = Inr t \<and> (\<forall>r. value_end r \<longrightarrow> parses (t @ r) (norm v) r)) vs ts"
      using ts 5(1) 5(3) by (auto simp: mapR_eq_Inr list_all2_conv_all_nth list_all_length)
    then have p: "parses_elements [] (join [0x2C] ts @ 0x5D # r) (JArr (map norm vs)) r"
      using canonical_elements[OF _ False, of ts "[]" r] by simp
    obtain v0 vs0 where vs0: "vs = v0 # vs0" using False by (cases vs) auto
    have "starts_value (hd ts)" "ts \<noteq> []"
      using ts canonical_starts[of v0] by (auto simp: vs0 result_split)
    then obtain c u where "join [0x2C] ts = c # u" "\<not> is_ws c" "c \<noteq> 0x5D"
      using join_starts[of ts "[0x2C]"] by (cases "join [0x2C] ts") (auto simp: starts_value_def)
    then show ?thesis using p t parses_array[of c "u @ 0x5D # r"] by simp
  qed
next
  case (6 kvs)
  then obtain ts where ts: "mapR canonical_member (sort_key fst kvs) = Inr ts"
    and t: "t = 0x7B # join [0x2C] ts @ [0x7D]"
    by (auto simp: result_split canonicalJson_object)
  show ?case
  proof (cases "kvs = []")
    case True
    then show ?thesis using ts t by (auto simp: parses_def skip_ws_id intro!: exI[of _ 1])
  next
    case False
    then have ne: "sort_key fst kvs \<noteq> []" by (metis length_0_conv length_sort)
    have m: "\<exists>u. t = JSON_quote (fst kv) @ 0x3A # u \<and> (\<forall>r. value_end r \<longrightarrow> parses (u @ r) (norm (snd kv)) r)"
      if "kv \<in> set (sort_key fst kvs)" "canonical_member kv = Inr t" for kv t
    proof -
      note kv = that
      obtain u where "canonicalJson (snd kv) = Inr u" "t = JSON_quote (fst kv) @ 0x3A # u"
        and cs: "canonical_string (fst kv) = Inr (JSON_quote (fst kv))"
        using kv(2) by (auto simp: canonical_member_def canonical_string_def result_split split: if_splits)
      moreover have "wf_json (snd kv)" using 6(3) kv(1) by (auto simp: list_all_iff)
      ultimately show ?thesis using 6(1)[OF kv(1) _ cs] by (metis prod.collapse)
    qed
    have "list_all2 (\<lambda>kv t. \<exists>u. t = JSON_quote (fst kv) @ 0x3A # u \<and>
        (\<forall>r. value_end r \<longrightarrow> parses (u @ r) (norm (snd kv)) r)) (sort_key fst kvs) ts"
      using ts m unfolding mapR_eq_Inr list_all2_conv_all_nth by (metis nth_mem)
    then have p: "parses_members [] (join [0x2C] ts @ 0x7D # r) (norm (JObj kvs)) r"
      using canonical_members[OF _ ne, of ts "[]" r] distinct_sort_key[of kvs] 6(3) by simp
    obtain kv0 kvs0 where kv0: "sort_key fst kvs = kv0 # kvs0" using ne by (cases "sort_key fst kvs") auto
    have "ts \<noteq> []" "hd ts \<noteq> []" "hd (hd ts) = 0x22"
      using ts kv0 by (auto simp: result_split canonical_member_def canonical_string_def JSON_quote_def
          simp del: sort_key_simps split: if_splits)
    then obtain u where "join [0x2C] ts = 0x22 # u"
      using join_starts[of ts "[0x2C]"] by (cases "join [0x2C] ts") auto
    then show ?thesis using p t parses_object[of "u @ 0x7D # r"] by simp
  qed
qed simp

text \<open>Two objects with the same members have the same text.\<close>

lemma map_fst_sort_key: "map fst (sort_key fst kvs) = sort (map fst kvs)"
  by (rule properties_for_sort [symmetric]) (simp_all add: mset_map)

lemma sort_key_keys:
  assumes "distinct (map fst kvs)" "distinct (map fst kvs')" "set (map fst kvs) = set (map fst kvs')"
  shows "map fst (sort_key fst kvs) = map fst (sort_key fst kvs')"
  using assms by (metis map_fst_sort_key sorted_list_of_set_sort_remdups distinct_remdups_id)

lemma map_of_sort_key: "distinct (map fst kvs) \<Longrightarrow> map_of (sort_key fst kvs) = map_of kvs"
  by (metis distinct_sort_key map_of_inject_set set_sort)

lemma canonical_object_cong:
  assumes "distinct (map fst kvs)" "distinct (map fst kvs')" "set (map fst kvs) = set (map fst kvs')"
    and "\<And>k v v'. (k, v) \<in> set kvs \<Longrightarrow> (k, v') \<in> set kvs' \<Longrightarrow> canonicalJson v = canonicalJson v'"
  shows "canonicalJson (JObj kvs) = canonicalJson (JObj kvs')"
proof -
  let ?a = "sort_key fst kvs" and ?b = "sort_key fst kvs'"
  have ab: "map fst ?a = map fst ?b" using sort_key_keys assms by blast
  then have l: "length ?a = length ?b" by (metis length_map)
  have "canonical_member (?a ! i) = canonical_member (?b ! i)" if "i < length ?a" for i
  proof -
    have f: "fst (?a ! i) = fst (?b ! i)" using ab that l by (metis nth_map)
    have "?a ! i \<in> set kvs" "?b ! i \<in> set kvs'" using that l by (metis nth_mem set_sort)+
    then have "canonicalJson (snd (?a ! i)) = canonicalJson (snd (?b ! i))"
      using assms(4) f by (metis prod.collapse)
    with f show ?thesis by (simp add: canonical_member_def)
  qed
  then have "map canonical_member ?a = map canonical_member ?b" using l by (intro nth_equalityI) auto
  moreover have "mapR f xs = mapR id (map f xs)" for f :: "'x \<Rightarrow> 'e + 'y" and xs
    by (induction xs) auto
  ultimately have "mapR canonical_member ?a = mapR canonical_member ?b" by metis
  then show ?thesis by (simp add: canonicalJson_object)
qed

lemma canonical_norm: "wf_json v \<Longrightarrow> canonicalJson (norm v) = canonicalJson v"
proof (induction v rule: norm.induct)
  case (5 vs)
  have "mapR canonicalJson (map norm vs) = mapR (\<lambda>v. canonicalJson (norm v)) vs"
    by (induction vs) auto
  also have "\<dots> = mapR canonicalJson vs"
    by (rule mapR_cong) (use 5 in \<open>auto simp: list_all_iff\<close>)
  finally show ?case by simp
next
  case (6 kvs)
  let ?n = "map (\<lambda>kv. (fst kv, norm (snd kv))) (sort_key fst kvs)"
  have d: "distinct (map fst kvs)" using 6 by simp
  have f: "map fst ?n = map fst (sort_key fst kvs)" by simp
  show ?case unfolding norm.simps
  proof (rule canonical_object_cong)
    show "distinct (map fst ?n)" using d distinct_sort_key[OF d] f by metis
    show "distinct (map fst kvs)" by (rule d)
    show "set (map fst ?n) = set (map fst kvs)" by (simp add: image_image)
    fix k v v'
    assume k: "(k, v) \<in> set ?n" "(k, v') \<in> set kvs"
    then obtain w where "(k, w) \<in> set kvs" "v = norm w" by auto
    moreover from this have "w = v'" using k(2) d by (metis map_of_is_SomeI option.inject)
    ultimately show "canonicalJson v = canonicalJson v'"
      using 6 by (force simp: list_all_iff)
  qed
qed simp_all

lemma canonical_text: "canonicalJson v = Inr t \<Longrightarrow> sound_text t"
proof (induction v arbitrary: t rule: canonicalJson.induct)
  case (5 vs)
  then obtain ts where ts: "mapR canonicalJson vs = Inr ts" and t: "t = 0x5B # join [0x2C] ts @ [0x5D]"
    by (auto simp: result_split)
  have "sound_text u" if "u \<in> set ts" for u
    using ts 5(1) that unfolding mapR_eq_Inr list_all2_conv_all_nth by (metis in_set_conv_nth)
  then show ?case
    by (auto simp: t ascii_text intro!: sound_text_Cons sound_text_append sound_text_join)
next
  case (6 kvs)
  then obtain ts where ts: "mapR canonical_member (sort_key fst kvs) = Inr ts"
    and t: "t = 0x7B # join [0x2C] ts @ [0x7D]"
    by (auto simp: result_split canonicalJson_object)
  have m: "sound_text u" if "kv \<in> set (sort_key fst kvs)" "canonical_member kv = Inr u" for kv u
  proof -
    note kv = that
    obtain w where w: "canonicalJson (snd kv) = Inr w" and u: "u = JSON_quote (fst kv) @ 0x3A # w"
      and k: "canonical_string (fst kv) = Inr (JSON_quote (fst kv))" "sound_text (fst kv)"
      using kv(2) by (auto simp: canonical_member_def canonical_string_def sound_text_def result_split split: if_splits)
    have "sound_text w" using 6(1)[OF kv(1) _ k(1) w] by (metis prod.collapse)
    then show ?thesis unfolding u by (intro sound_text_append sound_text_Cons quote_text) simp_all
  qed
  have "sound_text u" if "u \<in> set ts" for u
    using ts m that unfolding mapR_eq_Inr list_all2_conv_all_nth by (metis in_set_conv_nth)
  then show ?case
    by (auto simp: t ascii_text intro!: sound_text_Cons sound_text_append sound_text_join)
qed (auto simp: canonical_string_def sound_text_def[symmetric] quote_text decimal_text js_def ascii_text split: if_splits jsnum.splits)

lemma canonical_roundtrip:
  "canonicalJson v = Inr t \<Longrightarrow> wf_json v \<Longrightarrow>
    utf8_decode (utf8_encode t) = Some t \<and> JSON_parse t = Some (norm v) \<and> canonicalJson (norm v) = Inr t"
  using canonical_parses[of v t "[]"] canonical_text[of v t]
  by (simp add: value_end_def JSON_parse_parses canonical_norm utf8_points_encode sound_text_def)

subsection \<open>The messages a reader may accept\<close>

definition server_ok :: "ice_server \<Rightarrow> bool" where
  "server_ok s \<longleftrightarrow>
     1 \<le> length (urls s) \<and> length (urls s) \<le> urlsPerServer LIMITS \<and> list_all ice_url_ok (urls s) \<and>
     secret_ok (list_ex isRelayUrl (urls s)) (user s) \<and> secret_ok (list_ex isRelayUrl (urls s)) (credential s)"

fun body_ok :: "unicode \<Rightarrow> decode_context \<Rightarrow> direct_message \<Rightarrow> bool" where
  "body_ok uc ctx (Invite hide ice i m) \<longleftrightarrow>
     isCanonicalId i \<and> 1 \<le> m \<and> m \<le> int (maxPlaintextBytes LIMITS) \<and>
     1 \<le> length ice \<and> length ice \<le> iceServers LIMITS \<and> list_all server_ok ice \<and>
     (\<forall>s \<in> set ice. set (urls s) \<subseteq> set (iceAllowlist ctx))"
| "body_ok uc ctx (Manifest name sz type) \<longleftrightarrow>
     sanitiseFileName uc name = name \<and> \<not> list_ex disguising (code_points name) \<and> media_type_ok uc type \<and>
     (case maxOffered ctx of None \<Rightarrow> True | Some m \<Rightarrow> sz \<le> m)"
| "body_ok uc ctx (Accept sdp) \<longleftrightarrow> checkSdp sdp = None"
| "body_ok uc ctx Decline \<longleftrightarrow> True"
| "body_ok uc ctx (Answer key sdp) \<longleftrightarrow> isCanonicalKey key \<and> checkSdp sdp = None"
| "body_ok uc ctx (Restart sdp) \<longleftrightarrow> checkSdp sdp = None"
| "body_ok uc ctx (RestartAnswer sdp) \<longleftrightarrow> checkSdp sdp = None"
| "body_ok uc ctx (StopMessage r) \<longleftrightarrow> True"

definition valid_message :: "unicode \<Rightarrow> decode_context \<Rightarrow> direct_message \<Rightarrow> bool" where
  "valid_message uc ctx m \<longleftrightarrow>
     event_name m \<in> set (allowedEvents (sender ctx) (index ctx)) \<and> body_ok uc ctx m"

subsection \<open>Members by name\<close>

lemma of_char_unit: "of_char c = (of_char d :: code_unit) \<longleftrightarrow> c = d"
proof
  have b: "of_char x < (65536 :: nat)" for x :: char
  proof -
    have "of_char x mod 256 = (of_char x :: nat)" by (rule of_char_mod_256)
    then show ?thesis using mod_less_divisor[of 256 "of_char x :: nat"] by linarith
  qed
  assume "of_char c = (of_char d :: code_unit)"
  then have "of_char c = (of_char d :: nat)"
    using of_nat_unit_eq_iff[OF b b, of c d] by (simp add: of_nat_of_char)
  then show "c = d" by simp
qed simp

lemma js_eq [simp]: "js a = js b \<longleftrightarrow> a = b"
  unfolding js_def by (rule inj_map_eq_map) (simp add: inj_def of_char_unit)

lemma member_obj: "member (map (\<lambda>(k, v). (js k, v)) kvs) n = map_of kvs n"
  by (induction kvs) (auto simp: member_def)

lemma distinct_obj: "distinct (map fst (map (\<lambda>(k, v). (js k, v)) kvs)) = distinct (map fst kvs)"
proof -
  have "map fst (map (\<lambda>(k, v). (js k, v)) kvs) = map js (map fst kvs)" by auto
  moreover have "inj_on js A" for A by (simp add: inj_on_def)
  ultimately show ?thesis by (metis distinct_map)
qed

text \<open>The members of a normalised object.\<close>

definition norm_members :: "(jsstr \<times> json) list \<Rightarrow> (jsstr \<times> json) list" where
  "norm_members kvs = map (\<lambda>kv. (fst kv, norm (snd kv))) (sort_key fst kvs)"

lemma norm_object: "norm (JObj kvs) = JObj (norm_members kvs)"
  by (simp add: norm_members_def)

lemma map_of_map_snd: "map_of (map (\<lambda>kv. (fst kv, f (snd kv))) xs) k = map_option f (map_of xs k)"
  by (induction xs) auto

lemma member_norm:
  assumes "distinct (map fst kvs)"
  shows "member (norm_members (map (\<lambda>(k, v). (js k, v)) kvs)) n = map_option norm (map_of kvs n)"
proof -
  let ?o = "map (\<lambda>(k, v). (js k, v)) kvs"
  have "map_of (sort_key fst ?o) = map_of ?o" by (rule map_of_sort_key) (simp only: distinct_obj assms)
  then show ?thesis using member_obj[of kvs n] by (simp add: norm_members_def member_def map_of_map_snd)
qed

lemma norm_members_keys [simp]:
  "set (map fst (norm_members kvs)) = set (map fst kvs)" "length (norm_members kvs) = length kvs"
  by (simp_all add: norm_members_def image_image)

lemma obj_keys: "set (map fst (map (\<lambda>(k, v). (js k, v)) kvs)) = js ` fst ` set kvs"
  by force

lemma hasExactly_norm:
  "length names = length kvs \<Longrightarrow> set names \<subseteq> fst ` set kvs \<Longrightarrow>
     hasExactly (norm_members (map (\<lambda>(k, v). (js k, v)) kvs)) names"
  unfolding hasExactly_def norm_members_keys list_all_iff obj_keys by auto

text \<open>An object with exactly these members, each of the same text, has the same text.\<close>

lemma hasExactly_keys:
  assumes "hasExactly body names" "distinct names" "distinct (map fst body)"
  shows "set (map fst body) = js ` set names"
proof -
  have "js ` set names \<subseteq> set (map fst body)" using assms(1) by (auto simp: hasExactly_def list_all_iff)
  moreover have "card (js ` set names) = card (set (map fst body))"
  proof -
    have "card (js ` set names) = length names"
      using assms(2) by (subst card_image) (auto simp: inj_on_def distinct_card)
    also have "\<dots> = length (map fst body)" using assms(1) by (simp add: hasExactly_def)
    also have "\<dots> = card (set (map fst body))" using assms(3) by (simp only: distinct_card)
    finally show ?thesis .
  qed
  ultimately show ?thesis by (metis List.finite_set card_subset_eq)
qed

lemma object_text:
  assumes "wf_json (JObj body)" "hasExactly body names" "distinct names"
    and "set names = fst ` set kvs" "distinct (map fst kvs)"
    and "\<And>n v. (n, v) \<in> set kvs \<Longrightarrow> \<exists>w. member body n = Some w \<and> canonicalJson w = canonicalJson v"
  shows "canonicalJson (JObj body) = canonicalJson (obj kvs)"
  unfolding obj_def
proof (rule canonical_object_cong)
  show d: "distinct (map fst body)" using assms(1) by simp
  show "distinct (map fst (map (\<lambda>(k, v). (js k, v)) kvs))" by (simp only: distinct_obj assms(5))
  have "set (map fst body) = js ` fst ` set kvs"
    using hasExactly_keys[OF assms(2,3) d] assms(4) by simp
  then show "set (map fst body) = set (map fst (map (\<lambda>(k, v). (js k, v)) kvs))" by (simp only: obj_keys)
  fix k v v'
  assume k: "(k, v) \<in> set body" "(k, v') \<in> set (map (\<lambda>(k, v). (js k, v)) kvs)"
  then obtain n where n: "k = js n" "(n, v') \<in> set kvs" by auto
  then have "member body n = Some v" using k(1) d by (simp add: member_def)
  then show "canonicalJson v = canonicalJson v'" using assms(6)[OF n(2)] by auto
qed

subsection \<open>Servers\<close>

lemma read_server_text:
  assumes "read_server e = Inr s" "wf_json e"
  shows "server_ok s \<and> canonicalJson e = canonicalJson (server_json s)"
proof -
  obtain kvs us where e: "e = JObj kvs" and ex: "hasExactly kvs [''credential'', ''urls'', ''username'']"
    and us: "member kvs ''urls'' = Some (JArr us)" "us \<noteq> []" "length us \<le> 4"
    and us': "mapR read_ice_url us = Inr (urls s)"
    and sec: "read_secret (list_ex isRelayUrl (urls s)) (member kvs ''username'') = Inr (user s)"
      "read_secret (list_ex isRelayUrl (urls s)) (member kvs ''credential'') = Inr (credential s)"
    using assms(1) by (auto simp: read_server_def result_split Let_def split: json.splits if_splits option.splits)
  have sc: "member kvs n = Some (JStr x) \<and> secret_ok b x" if "read_secret b (member kvs n) = Inr x" for b x n
    using that by (auto simp: read_secret_def split: option.splits json.splits if_splits)
  have all: "list_all2 (\<lambda>v u. v = JStr u \<and> ice_url_ok u) us (urls s)"
    using us' unfolding mapR_eq_Inr
    by (rule list_all2_mono) (auto simp: read_ice_url_def split: json.splits if_splits)
  then have "us = map JStr (urls s)" "list_all ice_url_ok (urls s)"
    by (induction rule: list_all2_induct) auto
  moreover from this have "server_ok s" using us(2,3) sec sc by (auto simp: server_ok_def Suc_le_eq)
  moreover have "canonicalJson (JObj kvs) = canonicalJson (server_json s)" unfolding server_json_def
    by (rule object_text[OF _ ex]) (use assms(2) e us(1) sc[OF sec(1)] sc[OF sec(2)] \<open>us = _\<close> in auto)
  ultimately show ?thesis using e by simp
qed

lemma wf_server [simp]: "wf_json (server_json s)"
  by (simp add: server_json_def obj_def js_eq list_all_iff del: distinct.simps) (simp add: js_eq)

lemma read_server_norm: "server_ok s \<Longrightarrow> read_server (norm (server_json s)) = Inr s"
proof -
  assume ok: "server_ok s"
  let ?kvs = "[(''credential'', JStr (credential s)), (''urls'', JArr (map JStr (urls s))), (''username'', JStr (user s))]"
  let ?b = "norm_members (map (\<lambda>(k, v). (js k, v)) ?kvs)"
  have "norm (server_json s) = JObj ?b" by (simp only: server_json_def obj_def norm_object)
  moreover have "hasExactly ?b [''credential'', ''urls'', ''username'']" by (rule hasExactly_norm) auto
  moreover have "member ?b ''urls'' = Some (JArr (map JStr (urls s)))"
    "member ?b ''username'' = Some (JStr (user s))" "member ?b ''credential'' = Some (JStr (credential s))"
    by (subst member_norm; simp)+
  moreover have "mapR read_ice_url (map JStr (urls s)) = Inr (urls s)"
    using ok by (auto simp: mapR_eq_Inr list_all2_conv_all_nth read_ice_url_def server_ok_def list_all_length)
  ultimately show ?thesis using ok
    by (simp add: read_server_def server_ok_def read_secret_def Let_def Suc_le_eq)
qed

subsection \<open>Messages\<close>

definition message_kvs :: "direct_message \<Rightarrow> (string \<times> json) list" where
  "message_kvs m = (''event'', JStr (js (event_name m))) # message_members m @ [(''v'', JNum (Whole 1))]"

definition event_members :: "string \<Rightarrow> string list" where
  "event_members e =
     (if e = ''invite'' then [''dir'', ''event'', ''hide'', ''ice'', ''id'', ''max'', ''v'']
      else if e = ''manifest'' then [''event'', ''name'', ''size'', ''type'', ''v'']
      else if e = ''decline'' then [''event'', ''v'']
      else if e = ''answer'' then [''event'', ''key'', ''sdp'', ''v'']
      else if e = ''stop'' then [''event'', ''reason'', ''v'']
      else [''event'', ''sdp'', ''v''])"

lemma message_json_kvs: "message_json m = obj (message_kvs m)"
  by (simp add: message_json_def message_kvs_def)

lemma message_kvs_distinct: "distinct (map fst (message_kvs m))"
  by (cases m) (simp_all add: message_kvs_def)

lemma event_members_kvs:
  "length (event_members (event_name m)) = length (message_kvs m)"
  "set (event_members (event_name m)) = fst ` set (message_kvs m)"
  "distinct (event_members (event_name m))"
  by (cases m; simp add: event_members_def message_kvs_def; auto)+

lemma wf_message: "wf_json (message_json m)"
proof -
  have "\<forall>v \<in> snd ` set (message_kvs m). wf_json v"
    by (cases m) (simp_all add: message_kvs_def list_all_iff)
  then show ?thesis
    using distinct_obj[of "message_kvs m"] message_kvs_distinct[of m]
    by (force simp: message_json_kvs obj_def list_all_iff simp del: map_map)
qed

text \<open>Reading one member of a given kind.\<close>

lemma if_Inl: "(if c then Inl e else r) = Inr y \<longleftrightarrow> \<not> c \<and> r = Inr y"
  and if_Inr: "(if c then r else Inl e) = Inr y \<longleftrightarrow> c \<and> r = Inr y"
  by auto

lemma str_case:
  "(case x of Some (JStr s) \<Rightarrow> f s | _ \<Rightarrow> Inl e) = Inr y \<longleftrightarrow> (\<exists>s. x = Some (JStr s) \<and> f s = Inr y)"
  by (auto split: option.splits json.splits)

lemma bool_case:
  "(case x of Some (JBool s) \<Rightarrow> f s | _ \<Rightarrow> Inl e) = Inr y \<longleftrightarrow> (\<exists>s. x = Some (JBool s) \<and> f s = Inr y)"
  by (auto split: option.splits json.splits)

lemma whole_case:
  "(case x of Some (JNum (Whole s)) \<Rightarrow> f s | _ \<Rightarrow> Inl e) = Inr y \<longleftrightarrow>
     (\<exists>s. x = Some (JNum (Whole s)) \<and> f s = Inr y)"
  by (auto split: option.splits json.splits jsnum.splits)

lemmas read_cases = str_case bool_case whole_case if_Inl if_Inr

text \<open>A body whose members read as the members of a message has the message's text.\<close>

lemma message_text:
  assumes "wf_json (JObj body)" "hasExactly body (event_members (event_name m))"
    and "member body ''v'' = Some (JNum (Whole 1))" "member body ''event'' = Some (JStr (js (event_name m)))"
    and "\<And>n v. (n, v) \<in> set (message_members m) \<Longrightarrow> \<exists>w. member body n = Some w \<and> canonicalJson w = canonicalJson v"
  shows "canonicalJson (JObj body) = canonicalJson (message_json m)"
  unfolding message_json_kvs
  by (rule object_text[OF assms(1,2) event_members_kvs(3,2) message_kvs_distinct])
    (use assms(3-5) in \<open>auto simp: message_kvs_def\<close>)

lemma readIce_text:
  assumes "readIce (Some v) allow = Inr ice" "wf_json v"
  shows "1 \<le> length ice \<and> length ice \<le> iceServers LIMITS \<and> list_all server_ok ice \<and>
    (\<forall>s \<in> set ice. set (urls s) \<subseteq> set allow) \<and> canonicalJson v = canonicalJson (JArr (map server_json ice))"
proof -
  obtain es where v: "v = JArr es" and l: "1 \<le> length es" "length es \<le> 4"
    and m: "mapR read_server es = Inr ice" and a: "\<forall>s \<in> set ice. set (urls s) \<subseteq> set allow"
    using assms(1)
    by (auto simp: readIce_def result_split list_all_iff subset_iff Suc_le_eq split: json.splits if_splits)
  have s: "server_ok s \<and> canonicalJson e = canonicalJson (server_json s)" if "e \<in> set es" "read_server e = Inr s" for e s
    using read_server_text that assms(2) v by (auto simp: list_all_iff)
  have "length ice = length es" using mapR_length[OF m] .
  moreover have "list_all server_ok ice"
    using m s unfolding mapR_eq_Inr list_all2_conv_all_nth list_all_length by (metis nth_mem)
  moreover have "mapR canonicalJson es = mapR canonicalJson (map server_json ice)"
    using m s
  proof (induction es arbitrary: ice)
    case (Cons e es)
    then obtain i ice' where "ice = i # ice'" "read_server e = Inr i" "mapR read_server es = Inr ice'"
      by (auto simp: result_split)
    moreover from this have "canonicalJson e = canonicalJson (server_json i)" using Cons.prems(2) by simp
    moreover have "mapR canonicalJson es = mapR canonicalJson (map server_json ice')"
      by (rule Cons.IH[OF \<open>mapR read_server es = Inr ice'\<close>]) (meson list.set_intros(2) Cons.prems(2))
    ultimately show ?case by simp
  qed simp
  ultimately show ?thesis using l a v by simp
qed

lemma mem_text: "member body n = Some v \<Longrightarrow> \<exists>w. member body n = Some w \<and> canonicalJson w = canonicalJson v"
  by simp

lemma member_wf: "wf_json (JObj body) \<Longrightarrow> member body n = Some v \<Longrightarrow> wf_json v"
  by (force simp: member_def list_all_iff dest: map_of_SomeD)

lemma readInvite_Inr:
  assumes "readInvite body ctx = Inr m" "wf_json (JObj body)"
  shows "event_name m = ''invite'' \<and> hasExactly body (event_members ''invite'') \<and> body_ok uc ctx m \<and>
     (\<forall>(n, v) \<in> set (message_members m). \<exists>w. member body n = Some w \<and> canonicalJson w = canonicalJson v)"
proof -
  obtain h i k ice v where m: "m = Invite h ice i k" and ex: "hasExactly body (event_members ''invite'')"
    and dir: "member body ''dir'' = Some (JStr (js ''to-drop''))" and hide: "member body ''hide'' = Some (JBool h)"
    and id: "member body ''id'' = Some (JStr i)" "isCanonicalId i"
    and mx: "member body ''max'' = Some (JNum (Whole k))" "1 \<le> k" "k \<le> 250000000"
    and ice: "member body ''ice'' = Some v" "readIce (Some v) (iceAllowlist ctx) = Inr ice"
    using assms(1) unfolding readInvite_def event_members_def bindR_eq_Inr read_cases
    by (cases "member body ''ice''") (auto simp: readIce_def)
  from readIce_text[OF ice(2) member_wf[OF assms(2) ice(1)]] ex show ?thesis
    using dir hide id mx ice(1) by (simp add: m)
qed

lemma readManifest_Inr:
  assumes "readManifest uc body ctx = Inr m"
  shows "event_name m = ''manifest'' \<and> hasExactly body (event_members ''manifest'') \<and> body_ok uc ctx m \<and>
     (\<forall>(n, v) \<in> set (message_members m). \<exists>w. member body n = Some w \<and> canonicalJson w = canonicalJson v)"
  using assms unfolding readManifest_def event_members_def bindR_eq_Inr read_cases
  by (cases "maxOffered ctx") (auto simp: read_cases)

lemma read_sdp_Inr: "read_sdp body = Inr s \<Longrightarrow> member body ''sdp'' = Some (JStr s) \<and> checkSdp s = None"
  by (auto simp: read_sdp_def split: option.splits json.splits)

lemma read_event_Inr:
  assumes "read_event uc body ctx e = Inr m" "wf_json (JObj body)"
  shows "event_name m = e \<and> hasExactly body (event_members e) \<and> body_ok uc ctx m \<and>
     (\<forall>(n, v) \<in> set (message_members m). \<exists>w. member body n = Some w \<and> canonicalJson w = canonicalJson v)"
proof -
  consider "e = ''invite''" "readInvite body ctx = Inr m" | "e = ''manifest''" "readManifest uc body ctx = Inr m"
    | "e = ''accept''" "readSdpMessage body Accept = Inr m" | "e = ''restart''" "readSdpMessage body Restart = Inr m"
    | "e = ''restart-answer''" "readSdpMessage body RestartAnswer = Inr m"
    | "e = ''decline''" "hasExactly body [''event'', ''v'']" "m = Decline"
    | "e = ''answer''" "readAnswer body = Inr m" | "e = ''stop''" "readStop body = Inr m"
    using assms(1) unfolding read_event_def by (auto split: if_splits)
  then show ?thesis
  proof cases
    case 1
    then show ?thesis using readInvite_Inr[OF _ assms(2)] by blast
  next
    case 2
    then show ?thesis using readManifest_Inr by blast
  next
    case 7
    then show ?thesis
      by (auto simp: readAnswer_def event_members_def result_split dest!: read_sdp_Inr
          split: option.splits json.splits if_splits)
  next
    case 8
    then show ?thesis
      by (auto simp: readStop_def event_members_def split: option.splits json.splits if_splits)
  qed (auto simp: readSdpMessage_def event_members_def result_split dest!: read_sdp_Inr split: if_splits)
qed

lemma find_event: "find (\<lambda>a. a = e) es = (if e \<in> set es then Some e else None)"
  by (induction es) auto

lemma read_body_Inr:
  assumes "read_body uc body ctx = Inr m" "wf_json (JObj body)"
  shows "valid_message uc ctx m \<and> canonicalJson (JObj body) = canonicalJson (message_json m)"
proof -
  obtain e event where v: "member body ''v'' = Some (JNum (Whole 1))" and ev: "member body ''event'' = Some (JStr e)"
    and f: "find (\<lambda>a. js a = e) (allowedEvents (sender ctx) (index ctx)) = Some event"
    and r: "read_event uc body ctx event = Inr m"
    using assms(1) by (auto simp: read_body_def split: option.splits json.splits if_splits)
  have e: "e = js event" "event \<in> set (allowedEvents (sender ctx) (index ctx))"
    using f by (auto simp: find_Some_iff)
  note ok = read_event_Inr[OF r assms(2)]
  have "canonicalJson (JObj body) = canonicalJson (message_json m)"
    by (rule message_text[OF assms(2)]) (use ok v ev e in auto)
  then show ?thesis using ok e by (simp add: valid_message_def)
qed

lemma readIce_norm:
  assumes "1 \<le> length ice" "length ice \<le> iceServers LIMITS" "list_all server_ok ice"
    and "\<forall>s \<in> set ice. set (urls s) \<subseteq> set allow"
  shows "readIce (Some (norm (JArr (map server_json ice)))) allow = Inr ice"
proof -
  have "mapR read_server (map (norm \<circ> server_json) ice) = Inr ice"
    using assms(3) read_server_norm
    by (auto simp: mapR_eq_Inr list_all2_conv_all_nth list_all_length)
  then show ?thesis using assms
    by (auto simp: readIce_def list_all_iff subset_iff Suc_le_eq)
qed

lemma member_message:
  "member (norm_members (map (\<lambda>(k, v). (js k, v)) (message_kvs m))) n = map_option norm (map_of (message_kvs m) n)"
  by (rule member_norm[OF message_kvs_distinct])

lemma read_event_members:
  assumes "body_ok uc ctx m" and ex: "hasExactly b (event_members (event_name m))"
    and mem: "\<And>n. member b n = map_option norm (map_of (message_kvs m) n)"
  shows "read_event uc b ctx (event_name m) = Inr m"
proof -
  have sdp: "map_of (message_kvs m) ''sdp'' = Some (JStr s) \<Longrightarrow> checkSdp s = None \<Longrightarrow> read_sdp b = Inr s" for s
    by (simp add: read_sdp_def mem)
  show ?thesis
  proof (cases m)
    case (Invite h ice i k)
    have "readIce (Some (norm (JArr (map server_json ice)))) (iceAllowlist ctx) = Inr ice"
      using assms(1) Invite by (intro readIce_norm) auto
    moreover have "map_of (message_kvs m) ''ice'' = Some (JArr (map server_json ice))"
      "map_of (message_kvs m) ''dir'' = Some (JStr (js ''to-drop''))"
      "map_of (message_kvs m) ''hide'' = Some (JBool h)" "map_of (message_kvs m) ''id'' = Some (JStr i)"
      "map_of (message_kvs m) ''max'' = Some (JNum (Whole k))"
      by (simp_all add: Invite message_kvs_def)
    ultimately show ?thesis
      using assms(1) ex Invite unfolding read_event_def
      by (simp add: readInvite_def event_members_def mem del: norm.simps(5))
  next
    case (Manifest n s t)
    have "map_of (message_kvs m) ''name'' = Some (JStr n)" "map_of (message_kvs m) ''type'' = Some (JStr t)"
      "map_of (message_kvs m) ''size'' = Some (JNum (Whole s))"
      by (simp_all add: Manifest message_kvs_def)
    then show ?thesis using assms(1) ex Manifest
      by (cases "maxOffered ctx") (simp_all add: read_event_def readManifest_def event_members_def mem)
  next
    case (Answer k s)
    have "map_of (message_kvs m) ''key'' = Some (JStr k)" "map_of (message_kvs m) ''sdp'' = Some (JStr s)"
      by (simp_all add: Answer message_kvs_def)
    then show ?thesis using assms(1) ex Answer sdp[of s]
      by (simp add: read_event_def readAnswer_def event_members_def mem)
  next
    case (StopMessage r)
    have "map_of (message_kvs m) ''reason'' = Some (JStr (js (reason_name r)))"
      by (simp_all add: StopMessage message_kvs_def)
    then show ?thesis using ex StopMessage
      by (cases r) (simp_all add: read_event_def readStop_def event_members_def mem)
  next
    case Decline
    then show ?thesis using ex by (simp add: read_event_def event_members_def)
  next
    case (Accept s)
    then show ?thesis using assms(1) ex sdp[of s]
      by (simp add: read_event_def readSdpMessage_def event_members_def message_kvs_def)
  next
    case (Restart s)
    then show ?thesis using assms(1) ex sdp[of s]
      by (simp add: read_event_def readSdpMessage_def event_members_def message_kvs_def)
  next
    case (RestartAnswer s)
    then show ?thesis using assms(1) ex sdp[of s]
      by (simp add: read_event_def readSdpMessage_def event_members_def message_kvs_def)
  qed
qed

lemma read_event_norm:
  assumes "body_ok uc ctx m"
  shows "read_event uc (norm_members (map (\<lambda>(k, v). (js k, v)) (message_kvs m))) ctx (event_name m) = Inr m"
  by (rule read_event_members[OF assms hasExactly_norm member_message]) (simp_all add: event_members_kvs)

lemma read_body_norm:
  assumes "valid_message uc ctx m"
  shows "read_body uc (norm_members (map (\<lambda>(k, v). (js k, v)) (message_kvs m))) ctx = Inr m"
proof -
  have "map_of (message_kvs m) ''v'' = Some (JNum (Whole 1))"
    by (cases m) (simp_all add: message_kvs_def)
  moreover have "map_of (message_kvs m) ''event'' = Some (JStr (js (event_name m)))"
    by (simp add: message_kvs_def)
  ultimately show ?thesis
    using assms read_event_norm[of uc ctx m]
    by (simp add: read_body_def member_message find_event valid_message_def)
qed

lemma decode_encodeMessage:
  assumes "valid_message uc ctx m" "encodeMessage m = Inr bs"
  shows "decodeMessage uc ctx bs = Inr m"
proof -
  obtain t where t: "canonicalJson (message_json m) = Inr t" and bs: "bs = utf8_encode t"
    and l: "length bs \<le> messageBytes LIMITS"
    using assms(2) by (auto simp: encodeMessage_def Let_def split: sum.splits if_splits)
  let ?b = "norm_members (map (\<lambda>(k, v). (js k, v)) (message_kvs m))"
  have n: "norm (message_json m) = JObj ?b" by (simp only: message_json_kvs obj_def norm_object)
  show ?thesis
    using canonical_roundtrip[OF t wf_message] read_body_norm[OF assms(1)] l
    by (simp add: decodeMessage_def bs n del: canonicalJson.simps)
qed

lemma encode_decodeMessage:
  assumes "decodeMessage uc ctx bs = Inr m"
  shows "valid_message uc ctx m \<and> encodeMessage m = Inr bs"
proof -
  obtain t body where l: "length bs \<le> messageBytes LIMITS" and t: "utf8_decode bs = Some t"
    and p: "JSON_parse t = Some (JObj body)" and c: "canonicalJson (JObj body) = Inr t"
    and r: "read_body uc body ctx = Inr m"
    using assms
    by (auto simp: decodeMessage_def simp del: canonicalJson.simps
        split: option.splits json.splits sum.splits if_splits)
  have "valid_message uc ctx m" "canonicalJson (message_json m) = Inr t"
    using read_body_Inr[OF r JSON_parse_wf[OF p]] c by simp_all
  then show ?thesis using utf8_decode_sound(1)[OF t] l by (simp add: encodeMessage_def)
qed

interpretation messages: canonical_codec encodeMessage "decodeMessage uc ctx" "valid_message uc ctx" for uc ctx
  by unfold_locales (rule decode_encodeMessage encode_decodeMessage, assumption+)+

subsection \<open>What the messages promise\<close>

text \<open>
  Property C16: the message codec is canonical. A byte string is read as a message, at an index
  and for a context, exactly when that message is legal there and the byte string is the one
  \<open>encodeMessage\<close> writes for it. So every legal message that is written is read back
  unchanged, and no second spelling of a message (other member order, white space, escapes,
  number formats, repeated members, a byte order mark) is ever accepted.
\<close>

theorem message_codec:
  "decodeMessage uc ctx bs = Inr m \<longleftrightarrow> valid_message uc ctx m \<and> encodeMessage m = Inr bs"
  by (rule messages.dec_iff)

text \<open>
  Property C17: an invite is accepted only as the inviter's first message, with a size cap of 1
  to 250,000,000 bytes and one to four servers of one to four URLs; every one of its server
  URLs is on the allowlist fixed when the page was built, and a server that names no TURN
  relay carries neither a user name nor a credential.
\<close>

theorem invite_confined:
  assumes "decodeMessage uc ctx bs = Inr (Invite hide ice i m)"
  shows "sender ctx = Drop \<and> index ctx = 0 \<and> 1 \<le> m \<and> m \<le> 250000000 \<and> ice \<noteq> [] \<and> length ice \<le> 4 \<and>
    (\<forall>s \<in> set ice. urls s \<noteq> [] \<and> length (urls s) \<le> 4 \<and> set (urls s) \<subseteq> set (iceAllowlist ctx) \<and>
       (list_ex isRelayUrl (urls s) \<or> (user s = [] \<and> credential s = [])))"
proof -
  have v: "valid_message uc ctx (Invite hide ice i m)" using messages.enc_dec[OF assms] by simp
  then have "\<forall>s \<in> set ice. server_ok s" by (simp add: valid_message_def list_all_iff)
  then have "\<forall>s \<in> set ice. urls s \<noteq> [] \<and> length (urls s) \<le> 4 \<and>
      (list_ex isRelayUrl (urls s) \<or> (user s = [] \<and> credential s = []))"
    by (auto simp: server_ok_def secret_ok_def)
  moreover have "sender ctx = Drop \<and> index ctx = 0"
    using v by (auto simp: valid_message_def allowedEvents_def split: if_splits)
  ultimately show ?thesis using v by (auto simp: valid_message_def)
qed

definition sample_invite :: direct_message where
  "sample_invite = Invite False [\<lparr>credential = [], urls = DEFAULT_DIRECT_ICE_URLS, user = []\<rparr>]
     (js ''AAAAAAAAAAAAAAAAAAAAAA'') 1"

definition sample_context :: decode_context where
  "sample_context = \<lparr>sender = Drop, index = 0, iceAllowlist = DEFAULT_DIRECT_ICE_URLS, maxOffered = None\<rparr>"

lemma utf8_encode_length: "length (utf8_encode s) \<le> 4 * length s"
proof -
  have "length (code_points s) \<le> length s" by (induction s rule: code_points.induct) auto
  moreover have "length (concat (map (\<lambda>p. utf8_point (f p)) ps)) \<le> 4 * length ps" for f and ps :: "nat list"
    by (induction ps) (auto simp: utf8_point_def)
  ultimately show ?thesis unfolding utf8_encode_def by (meson le_trans mult_le_mono2)
qed

lemma sample_canonical:
  "case canonicalJson (message_json sample_invite) of Inl _ \<Rightarrow> False | Inr t \<Rightarrow> length t < 1000"
  by code_simp

lemma sample_valid: "valid_message \<lparr>nfc = id, lower = id\<rparr> sample_context sample_invite"
  by code_simp

lemma sample_decoded: "\<exists>bs. decodeMessage \<lparr>nfc = id, lower = id\<rparr> sample_context bs = Inr sample_invite"
proof -
  obtain t where t: "canonicalJson (message_json sample_invite) = Inr t" "length t < 1000"
    using sample_canonical by (auto split: sum.splits)
  then have "length (utf8_encode t) \<le> messageBytes LIMITS" using utf8_encode_length[of t] by simp
  then show ?thesis using sample_valid t by (auto simp: messages.dec_iff encodeMessage_def)
qed

theorem invite_confined_witness:
  "\<exists>bs. decodeMessage \<lparr>nfc = id, lower = id\<rparr> sample_context bs = Inr sample_invite \<and>
     sender sample_context = Drop \<and> set DEFAULT_DIRECT_ICE_URLS \<subseteq> set (iceAllowlist sample_context)"
proof -
  obtain bs where bs: "decodeMessage \<lparr>nfc = id, lower = id\<rparr> sample_context bs = Inr sample_invite"
    using sample_decoded ..
  from invite_confined[OF bs[unfolded sample_invite_def]] bs show ?thesis by auto
qed

end
