(* ===== verification/Keys.thy ===== *)
theory Keys
  imports Json "HOL-Library.Code_Target_Nat"
begin

text \<open>
  The text forms of byte strings in \<open>src/core/crypto.ts\<close>: lower-case hexadecimal and the
  canonical unpadded base64url of a recovery key, with \<open>btoa\<close> and \<open>atob\<close> as the
  platform defines them on the strings the code gives them. The recovery key codec is
  canonical: 32 bytes have one key, and no other text is read as those bytes.
\<close>

datatype key_error = NotV1Key | NotBase64 | NotKeyLength | NotCanonicalKey

subsection \<open>Hexadecimal\<close>

definition HEX :: jsstr where "HEX = js ''0123456789abcdef''"

definition toHex :: "bytes \<Rightarrow> jsstr" where
  "toHex bs = concat (map (\<lambda>b. [HEX ! (unat b div 16), HEX ! (unat b mod 16)]) bs)"

lemma distinct_HEX: "distinct HEX" "length HEX = 16"
  by (simp_all add: HEX_def js_def)

lemma toHex_inj: "toHex as = toHex bs \<Longrightarrow> as = bs"
proof (induction as arbitrary: bs)
  case Nil
  then show ?case by (cases bs) (simp_all add: toHex_def)
next
  case (Cons a as)
  then obtain b bs' where bs: "bs = b # bs'" by (cases bs) (simp_all add: toHex_def)
  have lt: "unat x div 16 < 16" "unat x mod 16 < 16" for x :: byte using byte_bound[of x] by simp_all
  have "HEX ! (unat a div 16) = HEX ! (unat b div 16)" "HEX ! (unat a mod 16) = HEX ! (unat b mod 16)" "toHex as = toHex bs'"
    using Cons.prems by (simp_all add: bs toHex_def)
  then have "unat a div 16 = unat b div 16" "unat a mod 16 = unat b mod 16" "as = bs'"
    using lt nth_eq_iff_index_eq[OF distinct_HEX(1)] Cons.IH by (simp_all add: distinct_HEX(2))
  then have "unat a = unat b" by (metis div_mult_mod_eq)
  then show ?case using \<open>as = bs'\<close> by (simp add: bs unsigned_word_eqI)
qed

subsection \<open>Base 64\<close>

definition b64_char :: "nat \<Rightarrow> code_unit" where
  "b64_char n =
     of_nat (if n < 26 then n + 65 else if n < 52 then n + 71 else if n < 62 then n - 4
             else if n = 62 then 43 else 47)"

definition b64_value :: "code_unit \<Rightarrow> nat option" where
  "b64_value c =
     (let n = unat c in
      if 65 \<le> n \<and> n \<le> 90 then Some (n - 65)
      else if 97 \<le> n \<and> n \<le> 122 then Some (n - 71)
      else if 48 \<le> n \<and> n \<le> 57 then Some (n + 4)
      else if n = 43 then Some 62 else if n = 47 then Some 63 else None)"

text \<open>\<open>btoa\<close> of the string whose code units are the bytes.\<close>

fun btoa :: "bytes \<Rightarrow> jsstr" where
  "btoa [] = []"
| "btoa [a] = [b64_char (unat a div 4), b64_char (unat a mod 4 * 16), 0x3D, 0x3D]"
| "btoa [a, b] =
     [b64_char (unat a div 4), b64_char (unat a mod 4 * 16 + unat b div 16), b64_char (unat b mod 16 * 4), 0x3D]"
| "btoa (a # b # c # r) =
     b64_char (unat a div 4) # b64_char (unat a mod 4 * 16 + unat b div 16)
     # b64_char (unat b mod 16 * 4 + unat c div 64) # b64_char (unat c mod 64) # btoa r"

fun sextets :: "nat list \<Rightarrow> bytes option" where
  "sextets [] = Some []"
| "sextets [w] = None"
| "sextets [w, x] = Some [of_nat (w * 4 + x div 16)]"
| "sextets [w, x, y] = Some [of_nat (w * 4 + x div 16), of_nat (x mod 16 * 16 + y div 4)]"
| "sextets (w # x # y # z # r) =
     map_option (\<lambda>bs. of_nat (w * 4 + x div 16) # of_nat (x mod 16 * 16 + y div 4) # of_nat (y mod 4 * 64 + z) # bs)
       (sextets r)"

text \<open>The forgiving decoder: up to two pad characters at the end of a multiple of four; spare
  low bits are dropped.\<close>

definition strip_pad :: "jsstr \<Rightarrow> jsstr" where
  "strip_pad s =
     (if length s mod 4 = 0 \<and> endsWith s [0x3D, 0x3D] then take (length s - 2) s
      else if length s mod 4 = 0 \<and> endsWith s [0x3D] then take (length s - 1) s else s)"

definition is_ascii_space :: "code_unit \<Rightarrow> bool" where
  "is_ascii_space c \<longleftrightarrow> c = 0x20 \<or> c = 0x09 \<or> c = 0x0A \<or> c = 0x0C \<or> c = 0x0D"

definition atob :: "jsstr \<Rightarrow> bytes option" where
  "atob s =
     (let t = strip_pad (filter (\<lambda>c. \<not> is_ascii_space c) s); vs = map b64_value t in
      if None \<in> set vs then None else sextets (map the vs))"

subsection \<open>Base64url keys\<close>

definition to_url :: "code_unit \<Rightarrow> code_unit" where
  "to_url c = (if c = 0x2B then 0x2D else if c = 0x2F then 0x5F else c)"

definition from_url :: "code_unit \<Rightarrow> code_unit" where
  "from_url c = (if c = 0x2D then 0x2B else if c = 0x5F then 0x2F else c)"

definition drop_pad :: "jsstr \<Rightarrow> jsstr" where
  "drop_pad s = rev (dropWhile (\<lambda>c. c = 0x3D) (rev s))"

definition base64UrlEncode :: "bytes \<Rightarrow> jsstr" where
  "base64UrlEncode bs = drop_pad (map to_url (btoa bs))"

definition base64UrlDecode :: "jsstr \<Rightarrow> key_error + bytes" where
  "base64UrlDecode value =
     (if \<not> (length value = 43 \<and> list_all is_base64url value) then Inl NotV1Key
      else
        (case atob (map from_url value @ [0x3D]) of
           None \<Rightarrow> Inl NotBase64
         | Some bs \<Rightarrow>
             if length bs \<noteq> 32 then Inl NotKeyLength
             else if base64UrlEncode bs \<noteq> value then Inl NotCanonicalKey
             else Inr bs))"

definition RECOVERY_KEY_PREFIX :: jsstr where "RECOVERY_KEY_PREFIX = js ''wbk1_''"

definition key_text :: "bytes \<Rightarrow> jsstr" where
  "key_text raw = RECOVERY_KEY_PREFIX @ base64UrlEncode raw"

definition parseInputKey :: "jsstr \<Rightarrow> key_error + bytes" where
  "parseInputKey value =
     (if \<not> startsWith value RECOVERY_KEY_PREFIX then Inl NotV1Key
      else base64UrlDecode (drop (length RECOVERY_KEY_PREFIX) value))"

subsection \<open>Base 64 round trips\<close>

lemma unit_eq_iff: "(of_nat n :: code_unit) = m \<longleftrightarrow> n mod 65536 = unat m"
  by (metis of_nat_unit_eqI unat_of_nat_unit)

lemma b64_table: "n < 64 \<Longrightarrow> b64_value (b64_char n) = Some n \<and> b64_char n \<noteq> 0x3D
    \<and> \<not> is_ascii_space (b64_char n) \<and> is_base64url (to_url (b64_char n)) \<and> to_url (b64_char n) \<noteq> 0x3D
    \<and> from_url (to_url (b64_char n)) = b64_char n"
  by (auto simp: b64_char_def b64_value_def is_ascii_space_def is_base64url_def to_url_def from_url_def
      unat_of_nat_unit unit_eq_iff Let_def simp del: of_nat_add of_nat_diff)

fun six :: "bytes \<Rightarrow> nat list" where
  "six [] = []"
| "six [a] = [unat a div 4, unat a mod 4 * 16]"
| "six [a, b] = [unat a div 4, unat a mod 4 * 16 + unat b div 16, unat b mod 16 * 4]"
| "six (a # b # c # r) =
     unat a div 4 # (unat a mod 4 * 16 + unat b div 16) # (unat b mod 16 * 4 + unat c div 64) # (unat c mod 64) # six r"

lemma btoa_six:
  "btoa bs = map b64_char (six bs) @ replicate (if length bs mod 3 = 0 then 0 else 3 - length bs mod 3) 0x3D"
proof (induction bs rule: six.induct)
  case (4 a b c r)
  have "Suc (Suc (Suc n)) mod 3 = n mod 3" for n :: nat by presburger
  then show ?case using 4 by simp
qed (simp_all add: numeral_2_eq_2)

lemma six_bound: "n \<in> set (six bs) \<Longrightarrow> n < 64"
proof (induction bs rule: six.induct)
  case (2 a)
  then show ?case using byte_bound[of a] by auto
next
  case (3 a b)
  have "unat a mod 4 * 16 + unat b div 16 < 64" using byte_bound[of b] by linarith
  then show ?case using 3 byte_bound[of a] by auto
next
  case (4 a b c r)
  have "unat a mod 4 * 16 + unat b div 16 < 64" "unat b mod 16 * 4 + unat c div 64 < 64"
    using byte_bound[of b] byte_bound[of c] by linarith+
  then show ?case using 4 byte_bound[of a] by auto
qed simp

lemma length_six: "length (six bs) = (4 * length bs + 2) div 3"
  by (induction bs rule: six.induct) simp_all

lemma first_byte: "of_nat (unat (a :: byte) div 4 * 4 + (unat a mod 4 * 16 + y) div 16) = a" if "y < 16"
proof -
  have "(unat a mod 4 * 16 + y) div 16 = unat a mod 4" using that by linarith
  then show ?thesis by simp
qed

lemma second_byte:
  "of_nat ((x * 16 + unat (b :: byte) div 16) mod 16 * 16 + (unat b mod 16 * 4 + y) div 4) = b" if "y < 4"
proof -
  have "(unat b mod 16 * 4 + y) div 4 = unat b mod 16" using that by linarith
  moreover have "(x * 16 + unat b div 16) mod 16 = unat b div 16" using byte_bound[of b] by simp
  ultimately show ?thesis by simp
qed

lemma third_byte: "of_nat ((y * 4 + unat (c :: byte) div 64) mod 4 * 64 + unat c mod 64) = c"
proof -
  have "(y * 4 + unat c div 64) mod 4 = unat c div 64" using byte_bound[of c] by simp
  then show ?thesis by simp
qed

lemma sextets_six: "sextets (six bs) = Some bs"
proof (induction bs rule: six.induct)
  case (2 a)
  then show ?case using first_byte[of 0 a] by simp
next
  case (3 a b)
  have "unat b div 16 < 16" using byte_bound[of b] by linarith
  then show ?case using first_byte[of "unat b div 16" a] second_byte[of 0 "unat a mod 4" b]
    by (simp del: of_nat_add)
next
  case (4 a b c r)
  have "unat b div 16 < 16" "unat c div 64 < 4" using byte_bound[of b] byte_bound[of c] by linarith+
  then show ?case
    using 4 first_byte[of "unat b div 16" a] second_byte[of "unat c div 64" "unat a mod 4" b]
      third_byte[of "unat b mod 16" c]
    by (simp del: of_nat_add)
qed simp

lemma b64_six:
  "map from_url (map to_url (map b64_char (six bs))) = map b64_char (six bs)"
  "list_all is_base64url (map to_url (map b64_char (six bs)))"
  "map b64_value (map b64_char (six bs)) = map Some (six bs)"
  "filter (\<lambda>c. \<not> is_ascii_space c) (map b64_char (six bs)) = map b64_char (six bs)"
  using b64_table six_bound[of _ bs] by (auto simp: list_all_iff filter_id_conv)

lemma encode32:
  assumes "length bs = 32"
  shows "base64UrlEncode bs = map to_url (map b64_char (six bs))"
proof -
  have "btoa bs = map b64_char (six bs) @ [0x3D]" using assms by (simp add: btoa_six)
  moreover have "six bs \<noteq> []" using assms length_six[of bs] by auto
  then have "to_url (b64_char (last (six bs))) \<noteq> 0x3D"
    using b64_table six_bound[of "last (six bs)" bs] by simp
  ultimately show ?thesis using \<open>six bs \<noteq> []\<close>
    by (cases "six bs" rule: rev_cases) (simp_all add: base64UrlEncode_def drop_pad_def to_url_def)
qed

lemma decode_encode32:
  assumes "length bs = 32"
  shows "base64UrlDecode (base64UrlEncode bs) = Inr bs"
proof -
  let ?t = "map b64_char (six bs)"
  have l: "length (six bs) = 43" using assms by (simp add: length_six)
  have "\<not> is_ascii_space 0x3D" by (simp add: is_ascii_space_def)
  then have f: "filter (\<lambda>c. \<not> is_ascii_space c) (?t @ [0x3D]) = ?t @ [0x3D]"
    using b64_six(4)[of bs] by (simp del: filter_map)
  have "six bs \<noteq> []" using l by auto
  then have "last ?t \<noteq> 0x3D" using b64_table six_bound[of "last (six bs)" bs] by (simp add: last_map)
  then have "\<not> endsWith (?t @ [0x3D]) [0x3D, 0x3D]"
    using \<open>six bs \<noteq> []\<close> l by (cases "six bs" rule: rev_cases) (auto simp: endsWith_def)
  then have p: "strip_pad (?t @ [0x3D]) = ?t" using l by (simp add: strip_pad_def endsWith_def)
  have "None \<notin> set (map b64_value ?t)" unfolding b64_six(3) by auto
  then have "atob (?t @ [0x3D]) = Some bs"
    unfolding atob_def f p Let_def b64_six(3) using sextets_six[of bs] by (simp add: comp_def)
  then show ?thesis
    using assms l b64_six(1,2)[of bs] by (simp add: base64UrlDecode_def encode32 del: map_map list.pred_map)
qed

lemma encode32_length: "length bs = 32 \<Longrightarrow> length (base64UrlEncode bs) = 43"
  by (simp add: encode32 length_six)

interpretation keys: canonical_codec "\<lambda>bs. Inr (key_text bs) :: unit + jsstr" parseInputKey "\<lambda>bs. length bs = 32"
proof unfold_locales
  fix x :: bytes and y
  show "length x = 32 \<Longrightarrow> (Inr (key_text x) :: unit + jsstr) = Inr y \<Longrightarrow> parseInputKey y = Inr x"
    using decode_encode32[of x] by (auto simp: key_text_def parseInputKey_def startsWith_def)
  show "parseInputKey y = Inr x \<Longrightarrow> length x = 32 \<and> (Inr (key_text x) :: unit + jsstr) = Inr y"
    by (auto simp: parseInputKey_def base64UrlDecode_def key_text_def startsWith_def
        split: if_splits option.splits) (metis append_take_drop_id)
qed

text \<open>
  Property C15: the recovery key codec is canonical. A text is read as 32 key bytes exactly when
  it is \<open>wbk1_\<close> followed by their one unpadded base64url form, so every key handed out
  is read back and no other spelling opens an envelope.
\<close>

theorem recovery_key_codec:
  "parseInputKey t = Inr raw \<longleftrightarrow> length raw = 32 \<and> t = key_text raw"
  using keys.dec_iff[of t raw] by auto

end
