(* ===== verification/Envelope.thy ===== *)
theory Envelope
  imports Security Keys "HOL-Library.Log_Nat"
begin

text \<open>
  The encrypted envelope (\<open>src/core/crypto.ts\<close>): the padding buckets, the sealed
  metadata, the record-at-a-time encoder of FSWNENC2 and the reader of FSWNENC2, FSWNENC1
  and the legacy magic.

  AES-GCM, HKDF and SHA-256 are the platform's and a package's, so they are fields of a
  \<open>cryptography\<close> record; what the code relies on is \<open>aead_laws\<close>: a sealed record opens
  under the same key, nonce and additional data to the same plaintext, is 16 bytes longer
  than it, and nothing but a sealed record opens. The random source is an \<open>entropy\<close>
  record. An abort signal is a function from the number of the call and the place of the
  check in it to whether the operation has been aborted by then.
\<close>

datatype envelope_error =
    Aborted | SourceTooLarge | KeyRefused key_error | MetadataTooLarge | BadMimeType | FileChanged
  | OneAtATime | DigestNotKnown | NotAnEnvelope | HeaderInvalid | LengthInvalid | WrongKeyOrModified
  | MetadataTruncated | MetadataLengthInvalid | MetadataInvalid | MetadataTypes | FileNameInvalid
  | SizeRefused security_error | MetadataShape | MetadataNotCanonical | PaddingInvalid | NotDeclaredFile

record cryptography =
  gcm_encrypt :: "bytes \<Rightarrow> bytes \<Rightarrow> bytes \<Rightarrow> bytes \<Rightarrow> bytes"
  gcm_decrypt :: "bytes \<Rightarrow> bytes \<Rightarrow> bytes \<Rightarrow> bytes \<Rightarrow> bytes option"
  hkdf :: "bytes \<Rightarrow> bytes \<Rightarrow> bytes \<Rightarrow> bytes"
  sha256 :: "bytes \<Rightarrow> bytes"

record entropy =
  noncePrefix :: bytes
  salt :: bytes
  freshKey :: bytes
  padding :: "nat \<Rightarrow> nat \<Rightarrow> bytes"

text \<open>A \<open>Blob\<close>: a size, and what reading a slice of it yields.\<close>

record blob =
  blob_size :: nat
  blob_slice :: "nat \<Rightarrow> nat \<Rightarrow> bytes"

type_synonym abort_signal = "nat \<Rightarrow> nat \<Rightarrow> bool"

record envelope_metadata =
  m_name :: jsstr
  m_size :: nat
  m_type :: jsstr

definition ENVELOPE_MAGIC :: bytes where "ENVELOPE_MAGIC = map of_char ''FSWNENC1''"
definition ENVELOPE_MAGIC_LEGACY :: bytes where "ENVELOPE_MAGIC_LEGACY = map of_char ''WBLMENC1''"
definition ENVELOPE_MAGIC_V2 :: bytes where "ENVELOPE_MAGIC_V2 = map of_char ''FSWNENC2''"
definition ENVELOPE_HEADER_BYTES :: nat where "ENVELOPE_HEADER_BYTES = 24"
definition ENVELOPE_HEADER_BYTES_V2 :: nat where "ENVELOPE_HEADER_BYTES_V2 = 56"
definition ENVELOPE_SALT_BYTES :: nat where "ENVELOPE_SALT_BYTES = 32"
definition HKDF_INFO_V2 :: bytes where "HKDF_INFO_V2 = map of_char ''forgesworn-aes-256-gcm-chunked/v2''"
definition ENVELOPE_CHUNK_BYTES :: nat where "ENVELOPE_CHUNK_BYTES = 1024 * 1024"
definition ENVELOPE_TAG_BYTES :: nat where "ENVELOPE_TAG_BYTES = 16"
definition MAX_ENVELOPE_METADATA_BYTES :: nat where "MAX_ENVELOPE_METADATA_BYTES = 4096"
definition MAX_ENVELOPE_RECORDS :: nat where
  "MAX_ENVELOPE_RECORDS =
     ceil_div (MAX_PROTOTYPE_FILE_BYTES + 4 + MAX_ENVELOPE_METADATA_BYTES) ENVELOPE_CHUNK_BYTES"
definition MIN_PADDING_BUCKET_BYTES :: nat where "MIN_PADDING_BUCKET_BYTES = 64 * 1024"

lemmas envelope_sizes = ENVELOPE_HEADER_BYTES_def ENVELOPE_HEADER_BYTES_V2_def ENVELOPE_SALT_BYTES_def
  ENVELOPE_CHUNK_BYTES_def ENVELOPE_TAG_BYTES_def MAX_ENVELOPE_METADATA_BYTES_def MIN_PADDING_BUCKET_BYTES_def

subsection \<open>Sizes, nonces and metadata\<close>

definition assertActive :: "abort_signal \<Rightarrow> nat \<Rightarrow> nat \<Rightarrow> envelope_error + unit" where
  "assertActive sig call place = guardR (\<not> sig call place) Aborted"

definition normaliseMimeType :: "unicode \<Rightarrow> jsstr \<Rightarrow> envelope_error + jsstr" where
  "normaliseMimeType uc v =
     (let type = lower uc (if v = [] then js ''application/octet-stream'' else v) in
      if length type > 255 \<or> list_ex is_control type then Inl BadMimeType else Inr type)"

definition paddedPlaintextLength :: "nat \<Rightarrow> nat" where
  "paddedPlaintextLength n =
     (if n \<le> MIN_PADDING_BUCKET_BYTES then MIN_PADDING_BUCKET_BYTES
      else if n \<le> ENVELOPE_CHUNK_BYTES then 2 ^ ceillog2 n
      else ceil_div n ENVELOPE_CHUNK_BYTES * ENVELOPE_CHUNK_BYTES)"

text \<open>Writing bytes into an array of fixed length at an offset.\<close>

definition blit :: "nat \<Rightarrow> bytes \<Rightarrow> bytes \<Rightarrow> bytes" where
  "blit off xs buf = take off buf @ xs @ drop (off + length xs) buf"

definition makeNonce :: "bytes \<Rightarrow> nat \<Rightarrow> bytes" where
  "makeNonce prefix counter = blit 8 (be32 counter) (blit 0 prefix (replicate 12 0))"

definition makeAdditionalData :: "bytes \<Rightarrow> nat \<Rightarrow> bytes" where
  "makeAdditionalData header counter =
     blit (length header) (be32 counter) (blit 0 header (replicate (length header + 4) 0))"

text \<open>\<open>JSON.stringify({ name, size, type })\<close>.\<close>

definition metadata_text :: "envelope_metadata \<Rightarrow> jsstr" where
  "metadata_text m =
     js ''{\"name\":'' @ JSON_quote (m_name m) @ js '',\"size\":'' @ decimal (m_size m)
     @ js '',\"type\":'' @ JSON_quote (m_type m) @ js ''}''"

definition frameMetadata :: "unicode \<Rightarrow> jsstr \<Rightarrow> nat \<Rightarrow> jsstr \<Rightarrow> envelope_error + bytes \<times> envelope_metadata" where
  "frameMetadata uc name sz type =
     bindR (normaliseMimeType uc type) (\<lambda>ty.
       let metadata = \<lparr>m_name = sanitiseFileName uc name, m_size = sz, m_type = ty\<rparr>;
           metadataBytes = utf8_encode (metadata_text metadata) in
       if length metadataBytes > MAX_ENVELOPE_METADATA_BYTES then Inl MetadataTooLarge
       else Inr (be32 (length metadataBytes) @ metadataBytes, metadata))"

definition assertSourceSize :: "nat \<Rightarrow> envelope_error + unit" where
  "assertSourceSize sz = guardR (sz \<le> MAX_PROTOTYPE_FILE_BYTES) SourceTooLarge"

definition envelopeBytes :: "unicode \<Rightarrow> jsstr \<Rightarrow> jsstr \<Rightarrow> nat \<Rightarrow> envelope_error + nat" where
  "envelopeBytes uc name type sourceBytes =
     bindR (assertSourceSize sourceBytes) (\<lambda>_.
     bindR (frameMetadata uc name sourceBytes type) (\<lambda>(prefix, _).
       let plaintextLength = paddedPlaintextLength (length prefix + sourceBytes);
           recordCount = ceil_div plaintextLength ENVELOPE_CHUNK_BYTES in
       Inr (ENVELOPE_HEADER_BYTES_V2 + plaintextLength + recordCount * ENVELOPE_TAG_BYTES)))"

definition newInputKey :: "entropy \<Rightarrow> jsstr" where
  "newInputKey e = key_text (freshKey e)"

subsection \<open>The encoder\<close>

record envelope_encoder =
  env_header :: bytes
  env_recordCount :: nat
  env_bytes :: nat
  env_metadata :: envelope_metadata
  env_inputKey :: jsstr
  env_prefix :: bytes
  env_fileEnd :: nat
  env_plaintextLength :: nat
  env_noncePrefix :: bytes
  env_key :: bytes
  env_counter :: nat
  env_busy :: bool
  env_hashed :: bytes
  env_digest :: "bytes option"

definition supplied_key :: "jsstr option \<Rightarrow> envelope_error + bytes option" where
  "supplied_key key =
     (case key of
        None \<Rightarrow> Inr None
      | Some k \<Rightarrow> (case parseInputKey k of Inl e \<Rightarrow> Inl (KeyRefused e) | Inr raw \<Rightarrow> Inr (Some raw)))"

definition v2_header :: "nat \<Rightarrow> entropy \<Rightarrow> bytes" where
  "v2_header recordCount e =
     blit 24 (salt e) (blit 16 (noncePrefix e) (blit 12 (be32 recordCount)
       (blit 8 (be32 ENVELOPE_CHUNK_BYTES) (blit 0 ENVELOPE_MAGIC_V2 (replicate ENVELOPE_HEADER_BYTES_V2 0)))))"

definition createEnvelopeEncoder ::
  "cryptography \<Rightarrow> unicode \<Rightarrow> abort_signal \<Rightarrow> entropy \<Rightarrow> blob \<Rightarrow> jsstr \<Rightarrow> jsstr \<Rightarrow> jsstr option
   \<Rightarrow> envelope_error + envelope_encoder" where
  "createEnvelopeEncoder cr uc sig e source name type key =
     bindR (assertActive sig 0 0) (\<lambda>_.
     bindR (assertSourceSize (blob_size source)) (\<lambda>_.
     bindR (supplied_key key) (\<lambda>supplied.
     bindR (frameMetadata uc name (blob_size source) type) (\<lambda>(prefix, metadata).
       let fileEnd = length prefix + blob_size source;
           plaintextLength = paddedPlaintextLength fileEnd;
           recordCount = ceil_div plaintextLength ENVELOPE_CHUNK_BYTES;
           rawKey = (case supplied of Some raw \<Rightarrow> raw | None \<Rightarrow> freshKey e) in
       Inr \<lparr>env_header = v2_header recordCount e, env_recordCount = recordCount,
            env_bytes = ENVELOPE_HEADER_BYTES_V2 + plaintextLength + recordCount * ENVELOPE_TAG_BYTES,
            env_metadata = metadata, env_inputKey = key_text rawKey, env_prefix = prefix,
            env_fileEnd = fileEnd, env_plaintextLength = plaintextLength,
            env_noncePrefix = noncePrefix e, env_key = hkdf cr rawKey (salt e) HKDF_INFO_V2,
            env_counter = 0, env_busy = False, env_hashed = [], env_digest = None\<rparr>))))"

definition subarray :: "bytes \<Rightarrow> nat \<Rightarrow> nat \<Rightarrow> bytes" where
  "subarray xs from til = take (til - from) (drop from xs)"

text \<open>One plaintext record, and the source bytes hashed so far.\<close>

definition plaintextRecord ::
  "abort_signal \<Rightarrow> entropy \<Rightarrow> blob \<Rightarrow> envelope_encoder \<Rightarrow> nat \<Rightarrow> envelope_error + bytes \<times> bytes" where
  "plaintextRecord sig e source st index =
     (let offset = index * ENVELOPE_CHUNK_BYTES;
          len = min ENVELOPE_CHUNK_BYTES (env_plaintextLength st - offset);
          chunk0 = replicate len 0;
          fileStart = length (env_prefix st); fileEnd = env_fileEnd st;
          prefixEnd = min (offset + len) fileStart;
          chunk1 = (if prefixEnd > offset then blit 0 (subarray (env_prefix st) offset prefixEnd) chunk0 else chunk0);
          overlapStart = max offset fileStart; overlapEnd = min (offset + len) fileEnd in
      bindR (if overlapEnd > overlapStart then
               (let slice = blob_slice source (overlapStart - fileStart) (overlapEnd - fileStart) in
                bindR (assertActive sig (Suc index) 1) (\<lambda>_.
                  if length slice \<noteq> overlapEnd - overlapStart then Inl FileChanged
                  else Inr (blit (overlapStart - offset) slice chunk1, env_hashed st @ slice)))
             else Inr (chunk1, env_hashed st)) (\<lambda>(chunk2, hashed).
        let paddingStart = max offset fileEnd in
        Inr (if paddingStart < offset + len
             then blit (paddingStart - offset) (padding e (offset + len - paddingStart) paddingStart) chunk2
             else chunk2, hashed)))"

definition encoder_next ::
  "cryptography \<Rightarrow> abort_signal \<Rightarrow> entropy \<Rightarrow> blob \<Rightarrow> envelope_encoder
   \<Rightarrow> envelope_error + bytes option \<times> envelope_encoder" where
  "encoder_next cr sig e source st =
     (if env_busy st then Inl OneAtATime
      else if env_counter st \<ge> env_recordCount st then Inr (None, st)
      else
        let index = env_counter st in
        bindR (assertActive sig (Suc index) 0) (\<lambda>_.
        bindR (plaintextRecord sig e source st index) (\<lambda>(plaintext, hashed).
          let ciphertext = gcm_encrypt cr (env_key st) (makeNonce (env_noncePrefix st) index)
                             (makeAdditionalData (env_header st) index) plaintext in
          bindR (assertActive sig (Suc index) 2) (\<lambda>_.
            Inr (Some ciphertext,
                 st\<lparr>env_counter := Suc index, env_hashed := hashed,
                    env_digest := (if Suc index = env_recordCount st then Some (sha256 cr hashed) else env_digest st)\<rparr>)))))"

definition encoder_digest :: "envelope_encoder \<Rightarrow> envelope_error + bytes" where
  "encoder_digest st = (case env_digest st of None \<Rightarrow> Inl DigestNotKnown | Some d \<Rightarrow> Inr d)"

definition encoder_dispose :: "envelope_encoder \<Rightarrow> envelope_encoder" where
  "encoder_dispose st = st\<lparr>env_prefix := replicate (length (env_prefix st)) 0\<rparr>"

lemma encoder_next_counter:
  "encoder_next cr sig e source st = Inr (Some c, st') \<Longrightarrow>
     env_counter st' = Suc (env_counter st) \<and> env_recordCount st' = env_recordCount st
     \<and> env_counter st < env_recordCount st"
  by (auto simp: encoder_next_def result_split Let_def split: if_splits)

function seal_records ::
  "cryptography \<Rightarrow> abort_signal \<Rightarrow> entropy \<Rightarrow> blob \<Rightarrow> envelope_encoder \<Rightarrow> bytes list
   \<Rightarrow> envelope_error + bytes list \<times> envelope_encoder" where
  "seal_records cr sig e source st parts =
     (case encoder_next cr sig e source st of
        Inl er \<Rightarrow> Inl er
      | Inr (None, st') \<Rightarrow> Inr (parts, st')
      | Inr (Some record, st') \<Rightarrow> seal_records cr sig e source st' (parts @ [record]))"
  by pat_completeness auto
termination
  by (relation "measure (\<lambda>(_, _, _, _, st, _). env_recordCount st - env_counter st)")
    (auto dest!: encoder_next_counter)

declare seal_records.simps [simp del]

record encrypted_envelope =
  ee_file :: bytes
  ee_recoveryKey :: jsstr
  ee_sourceName :: jsstr
  ee_sourceSize :: nat
  ee_sourceType :: jsstr

definition size_check :: "security_error + nat \<Rightarrow> envelope_error + unit" where
  "size_check r = (case r of Inl e \<Rightarrow> Inl (SizeRefused e) | Inr _ \<Rightarrow> Inr ())"

definition encryptPrivacyEnvelope ::
  "cryptography \<Rightarrow> unicode \<Rightarrow> abort_signal \<Rightarrow> entropy \<Rightarrow> blob \<Rightarrow> jsstr \<Rightarrow> jsstr
   \<Rightarrow> envelope_error + encrypted_envelope" where
  "encryptPrivacyEnvelope cr uc sig e file name type =
     bindR (assertActive sig 0 0) (\<lambda>_.
     bindR (size_check (assertPrototypeFileSize (Whole (int (blob_size file))))) (\<lambda>_.
     bindR (createEnvelopeEncoder cr uc sig e file name type None) (\<lambda>enc.
     bindR (seal_records cr sig e file enc []) (\<lambda>(parts, _).
       let encrypted = env_header enc @ concat parts in
       bindR (size_check (assertPrototypeTransferSize (Whole (int (length encrypted))))) (\<lambda>_.
         Inr \<lparr>ee_file = encrypted, ee_recoveryKey = env_inputKey enc, ee_sourceName = m_name (env_metadata enc),
              ee_sourceSize = m_size (env_metadata enc), ee_sourceType = m_type (env_metadata enc)\<rparr>)))))"

subsection \<open>Reading an envelope\<close>

record envelope_head =
  h_header :: bytes
  h_headerBytes :: nat
  h_chunkSize :: nat
  h_recordCount :: nat
  h_noncePrefix :: bytes
  h_salt :: "bytes option"

definition parseEnvelopeHeader :: "abort_signal \<Rightarrow> bytes \<Rightarrow> envelope_error + envelope_head" where
  "parseEnvelopeHeader sig file =
     bindR (assertActive sig 0 1) (\<lambda>_.
       let magic = take 8 file; isV2 = (magic = ENVELOPE_MAGIC_V2) in
       if \<not> (isV2 \<or> magic = ENVELOPE_MAGIC \<or> magic = ENVELOPE_MAGIC_LEGACY) then Inl NotAnEnvelope
       else
         let headerBytes = (if isV2 then ENVELOPE_HEADER_BYTES_V2 else ENVELOPE_HEADER_BYTES);
             header = take headerBytes file in
         bindR (assertActive sig 0 2) (\<lambda>_.
           if length header \<noteq> headerBytes then Inl NotAnEnvelope
           else
             let chunkSize = rd32 header 8; recordCount = rd32 header 12 in
             if chunkSize \<noteq> ENVELOPE_CHUNK_BYTES \<or> recordCount < 1 \<or> recordCount > MAX_ENVELOPE_RECORDS
             then Inl HeaderInvalid
             else
               let minimumSize = headerBytes + (recordCount - 1) * (chunkSize + ENVELOPE_TAG_BYTES)
                                 + 1 + ENVELOPE_TAG_BYTES;
                   maximumSize = headerBytes + recordCount * (chunkSize + ENVELOPE_TAG_BYTES) in
               if length file < minimumSize \<or> length file > maximumSize then Inl LengthInvalid
               else Inr \<lparr>h_header = header, h_headerBytes = headerBytes, h_chunkSize = chunkSize,
                         h_recordCount = recordCount, h_noncePrefix = subarray header 16 24,
                         h_salt = (if isV2 then Some (subarray header 24 (24 + ENVELOPE_SALT_BYTES)) else None)\<rparr>))"

text \<open>The members the reader looks at, and its checks in order.\<close>

definition check_metadata ::
  "unicode \<Rightarrow> jsstr \<Rightarrow> (jsstr \<times> json) list \<Rightarrow> envelope_error + envelope_metadata" where
  "check_metadata uc text candidate =
     (case (map_of candidate (js ''name''), map_of candidate (js ''size''), map_of candidate (js ''type'')) of
        (Some (JStr n), Some (JNum k), Some (JStr t)) \<Rightarrow>
          if sanitiseFileName uc n \<noteq> n then Inl FileNameInvalid
          else
            (case assertPrototypeFileSize k of
               Inl e \<Rightarrow> Inl (SizeRefused e)
             | Inr sz \<Rightarrow>
                 bindR (normaliseMimeType uc t) (\<lambda>ty.
                   let metadata = \<lparr>m_name = n, m_size = sz, m_type = ty\<rparr> in
                   if join [0x2C] (sort (map fst candidate)) \<noteq> js ''name,size,type'' then Inl MetadataShape
                   else if text \<noteq> metadata_text metadata then Inl MetadataNotCanonical
                   else Inr metadata))
      | _ \<Rightarrow> Inl MetadataTypes)"

definition parseEnvelopeMetadata :: "unicode \<Rightarrow> bytes \<Rightarrow> envelope_error + envelope_metadata \<times> nat" where
  "parseEnvelopeMetadata uc plaintext =
     (if length plaintext < 4 then Inl MetadataTruncated
      else
        let metadataLength = rd32 plaintext 0 in
        if metadataLength < 2 \<or> metadataLength > MAX_ENVELOPE_METADATA_BYTES \<or> 4 + metadataLength > length plaintext
        then Inl MetadataLengthInvalid
        else
          (case utf8_decode_bom (subarray plaintext 4 (4 + metadataLength)) of
             None \<Rightarrow> Inl MetadataInvalid
           | Some text \<Rightarrow>
               (case JSON_parse text of
                  Some (JObj candidate) \<Rightarrow>
                    bindR (check_metadata uc text candidate) (\<lambda>m. Inr (m, 4 + metadataLength))
                | Some (JArr _) \<Rightarrow> Inl MetadataTypes
                | _ \<Rightarrow> Inl MetadataInvalid)))"

record open_state =
  o_metadata :: "(envelope_metadata \<times> nat) option"
  o_parts :: "bytes list"
  o_copied :: nat

text \<open>What the reader does with the plaintext of one record.\<close>

definition read_record ::
  "unicode \<Rightarrow> nat \<Rightarrow> nat \<Rightarrow> nat \<Rightarrow> bytes \<Rightarrow> open_state \<Rightarrow> envelope_error + open_state" where
  "read_record uc plaintextLength chunkSize counter plaintext st =
     bindR (case o_metadata st of
              Some mp \<Rightarrow> Inr mp
            | None \<Rightarrow>
                bindR (parseEnvelopeMetadata uc plaintext) (\<lambda>(m, prefixLength).
                  if paddedPlaintextLength (prefixLength + m_size m) \<noteq> plaintextLength then Inl PaddingInvalid
                  else Inr (m, prefixLength))) (\<lambda>(m, prefixLength).
       let globalStart = counter * chunkSize;
           wantedStart = prefixLength; wantedEnd = prefixLength + m_size m;
           overlapStart = max globalStart wantedStart;
           overlapEnd = min (globalStart + length plaintext) wantedEnd;
           part = subarray plaintext (overlapStart - globalStart) (overlapEnd - globalStart) in
       Inr (if overlapEnd > overlapStart
            then \<lparr>o_metadata = Some (m, prefixLength), o_parts = o_parts st @ [part], o_copied = o_copied st + length part\<rparr>
            else st\<lparr>o_metadata := Some (m, prefixLength)\<rparr>))"

definition open_record ::
  "cryptography \<Rightarrow> unicode \<Rightarrow> abort_signal \<Rightarrow> bytes \<Rightarrow> envelope_head \<Rightarrow> bytes \<Rightarrow> nat \<Rightarrow> open_state
   \<Rightarrow> envelope_error + open_state" where
  "open_record cr uc sig file h key counter st =
     bindR (assertActive sig (Suc counter) 0) (\<lambda>_.
       let step = h_chunkSize h + ENVELOPE_TAG_BYTES;
           ciphertextStart = h_headerBytes h + counter * step;
           ciphertextEnd = (if counter = h_recordCount h - 1 then length file else ciphertextStart + step);
           ciphertext = subarray file ciphertextStart ciphertextEnd;
           plaintextLength = length file - h_headerBytes h - h_recordCount h * ENVELOPE_TAG_BYTES in
       bindR (assertActive sig (Suc counter) 1) (\<lambda>_.
         (case gcm_decrypt cr key (makeNonce (h_noncePrefix h) counter) (makeAdditionalData (h_header h) counter) ciphertext of
            None \<Rightarrow> Inl WrongKeyOrModified
          | Some plaintext \<Rightarrow>
              bindR (assertActive sig (Suc counter) 2) (\<lambda>_.
                read_record uc plaintextLength (h_chunkSize h) counter plaintext st))))"

fun open_records ::
  "cryptography \<Rightarrow> unicode \<Rightarrow> abort_signal \<Rightarrow> bytes \<Rightarrow> envelope_head \<Rightarrow> bytes \<Rightarrow> nat list \<Rightarrow> open_state
   \<Rightarrow> envelope_error + open_state" where
  "open_records cr uc sig file h key [] st = Inr st"
| "open_records cr uc sig file h key (counter # counters) st =
     bindR (open_record cr uc sig file h key counter st) (open_records cr uc sig file h key counters)"

record recovered_file =
  r_bytes :: bytes
  r_name :: jsstr
  r_type :: jsstr

definition decryptPrivacyEnvelope ::
  "cryptography \<Rightarrow> unicode \<Rightarrow> abort_signal \<Rightarrow> bytes \<Rightarrow> jsstr \<Rightarrow> envelope_error + recovered_file" where
  "decryptPrivacyEnvelope cr uc sig file recoveryKey =
     bindR (assertActive sig 0 0) (\<lambda>_.
     bindR (size_check (assertPrototypeTransferSize (Whole (int (length file))))) (\<lambda>_.
       if \<not> startsWith recoveryKey RECOVERY_KEY_PREFIX then Inl (KeyRefused NotV1Key)
       else
         bindR (parseEnvelopeHeader sig file) (\<lambda>h.
           (case base64UrlDecode (drop (length RECOVERY_KEY_PREFIX) recoveryKey) of
              Inl e \<Rightarrow> Inl (KeyRefused e)
            | Inr rawKey \<Rightarrow>
                let key = (case h_salt h of Some s \<Rightarrow> hkdf cr rawKey s HKDF_INFO_V2 | None \<Rightarrow> rawKey) in
                bindR (open_records cr uc sig file h key [0..<h_recordCount h]
                         \<lparr>o_metadata = None, o_parts = [], o_copied = 0\<rparr>) (\<lambda>st.
                  (case o_metadata st of
                     None \<Rightarrow> Inl NotDeclaredFile
                   | Some (m, _) \<Rightarrow>
                       if o_copied st \<noteq> m_size m then Inl NotDeclaredFile
                       else bindR (assertActive sig (Suc (h_recordCount h)) 0) (\<lambda>_.
                         Inr \<lparr>r_bytes = concat (o_parts st), r_name = m_name m, r_type = m_type m\<rparr>)))))))"

subsection \<open>Arrays\<close>

lemma blit_at:
  assumes "length a = off" "length xs \<le> length b"
  shows "blit off xs (a @ b) = a @ xs @ drop (length xs) b"
  using assms by (simp add: blit_def)

lemma blit_zeros: "length a = off \<Longrightarrow> length xs \<le> n \<Longrightarrow> blit off xs (a @ replicate n x) = (a @ xs) @ replicate (n - length xs) x"
  by (simp add: blit_at)

lemma makeNonce_eq: "length p = 8 \<Longrightarrow> makeNonce p i = p @ be32 i"
  by (simp add: makeNonce_def blit_def)

lemma makeAdditionalData_eq: "makeAdditionalData h i = h @ be32 i"
  by (simp add: makeAdditionalData_def blit_def)

definition entropy_ok :: "entropy \<Rightarrow> bool" where
  "entropy_ok e \<longleftrightarrow> length (noncePrefix e) = 8 \<and> length (salt e) = 32 \<and> length (freshKey e) = 32 \<and>
     (\<forall>n off. length (padding e n off) = n)"

lemma v2_header_eq:
  assumes "entropy_ok e"
  shows "v2_header n e = ENVELOPE_MAGIC_V2 @ be32 ENVELOPE_CHUNK_BYTES @ be32 n @ noncePrefix e @ salt e"
proof -
  have l: "length ENVELOPE_MAGIC_V2 = 8" by (simp add: ENVELOPE_MAGIC_V2_def)
  have "replicate 56 0 = (replicate 8 0 @ replicate 48 0 :: bytes)" by (simp add: replicate_add[symmetric])
  then show ?thesis using assms l
    by (simp add: v2_header_def entropy_ok_def blit_def envelope_sizes)
qed

lemma v2_header_length: "entropy_ok e \<Longrightarrow> length (v2_header n e) = 56"
  by (simp add: v2_header_eq entropy_ok_def ENVELOPE_MAGIC_V2_def)

subsection \<open>Padding buckets\<close>

lemma pow2_bucket:
  assumes "65536 < n" "n \<le> 1048576"
  shows "n \<le> 2 ^ ceillog2 n \<and> (2::nat) ^ ceillog2 n \<le> 1048576"
proof -
  have "ceillog2 n \<le> 20" using ceillog2_le_iff[of n 20] assms by simp
  then have "(2::nat) ^ ceillog2 n \<le> 2 ^ 20" by (rule power_increasing) simp
  then show ?thesis using ceillog2_le_iff[of n "ceillog2 n"] assms by simp
qed

definition record_count :: "nat \<Rightarrow> nat" where
  "record_count n = ceil_div (paddedPlaintextLength n) ENVELOPE_CHUNK_BYTES"

lemma small_bucket:
  assumes "n \<le> ENVELOPE_CHUNK_BYTES"
  shows "n \<le> paddedPlaintextLength n \<and> 65536 \<le> paddedPlaintextLength n \<and>
    paddedPlaintextLength n \<le> ENVELOPE_CHUNK_BYTES \<and> record_count n = 1"
proof -
  have b: "n \<le> paddedPlaintextLength n \<and> 65536 \<le> paddedPlaintextLength n \<and>
      paddedPlaintextLength n \<le> ENVELOPE_CHUNK_BYTES"
    using assms pow2_bucket[of n] by (auto simp: paddedPlaintextLength_def envelope_sizes)
  moreover from b have "record_count n = 1"
    unfolding record_count_def ceil_div_def
    by (intro div_nat_eqI) (auto simp: ENVELOPE_CHUNK_BYTES_def)
  ultimately show ?thesis by simp
qed

lemma large_bucket:
  assumes "ENVELOPE_CHUNK_BYTES < n"
  shows "paddedPlaintextLength n = record_count n * ENVELOPE_CHUNK_BYTES \<and> n \<le> paddedPlaintextLength n \<and>
    (record_count n - 1) * ENVELOPE_CHUNK_BYTES < n \<and> 1 < record_count n"
proof -
  let ?c = "ENVELOPE_CHUNK_BYTES"
  have c: "0 < ?c" by (simp add: ENVELOPE_CHUNK_BYTES_def)
  have p: "paddedPlaintextLength n = ceil_div n ?c * ?c"
    using assms by (simp add: paddedPlaintextLength_def envelope_sizes)
  then have r: "record_count n = ceil_div n ?c" using ceil_div_mult[OF c] by (simp add: record_count_def)
  note b = ceil_div_bounds[OF c, of n]
  have "1 < ceil_div n ?c"
  proof (rule ccontr)
    assume "\<not> ?thesis"
    then have "ceil_div n ?c * ?c \<le> 1 * ?c" by (intro mult_le_mono1) simp
    then show False using b(1) assms by linarith
  qed
  moreover have "(ceil_div n ?c - 1) * ?c < n" using b assms unfolding diff_mult_distrib by linarith
  ultimately show ?thesis using p r b by simp
qed

text \<open>The facts the record arithmetic rests on, for every source.\<close>

lemma bucket:
  fixes n
  defines "r \<equiv> record_count n" and "p \<equiv> paddedPlaintextLength n" and "c \<equiv> ENVELOPE_CHUNK_BYTES"
  shows "n \<le> p" "65536 \<le> p" "0 < r" "(r - 1) * c < p" "p \<le> r * c"
    and "i < r \<Longrightarrow> i * c < p"
    and "i < r \<Longrightarrow> Suc i < r \<or> min c (p - i * c) = p - i * c"
    and "Suc i < r \<Longrightarrow> Suc i * c < n"
    and "Suc i < r \<Longrightarrow> min c (p - i * c) = c"
proof -
  have c: "c = 1048576" by (simp add: c_def ENVELOPE_CHUNK_BYTES_def)
  have A: "n \<le> p \<and> 65536 \<le> p \<and> 0 < r \<and> (r - 1) * c < p \<and> p \<le> r * c \<and> (1 < r \<longrightarrow> (r - 1) * c < n)"
  proof (cases "n \<le> c")
    case True
    then show ?thesis using small_bucket[of n] by (auto simp: r_def p_def c_def)
  next
    case False
    then show ?thesis using large_bucket[of n] c by (auto simp: r_def p_def c_def[symmetric])
  qed
  then show "n \<le> p" "65536 \<le> p" "0 < r" "(r - 1) * c < p" "p \<le> r * c" by auto
  show "i * c < p" if "i < r" for i
  proof -
    have "i * c \<le> (r - 1) * c" using that by (intro mult_le_mono1) simp
    then show ?thesis using A by linarith
  qed
  show "Suc i < r \<or> min c (p - i * c) = p - i * c" if "i < r" for i
  proof (cases "Suc i < r")
    case False
    then have "r * c = i * c + c" using that by (metis add.commute less_antisym linorder_not_less mult_Suc not_less_eq)
    then have "p - i * c \<le> c" using A by linarith
    then show ?thesis by simp
  qed simp
  show n: "Suc i * c < n" if "Suc i < r" for i
  proof -
    have "Suc i * c \<le> (r - 1) * c" using that by (intro mult_le_mono1) simp
    then show ?thesis using A that by linarith
  qed
  show "min c (p - i * c) = c" if "Suc i < r" for i
  proof -
    have "c + i * c < n" using n[OF that] by simp
    then have "c \<le> p - i * c" using A by linarith
    then show ?thesis by simp
  qed
qed

lemma record_count_max:
  assumes "n \<le> MAX_PROTOTYPE_FILE_BYTES + 4 + MAX_ENVELOPE_METADATA_BYTES"
  shows "record_count n \<le> MAX_ENVELOPE_RECORDS"
proof (cases "n \<le> ENVELOPE_CHUNK_BYTES")
  case True
  then show ?thesis using small_bucket[of n]
    by (simp add: MAX_ENVELOPE_RECORDS_def ceil_div_def envelope_sizes MAX_PROTOTYPE_FILE_BYTES_def)
next
  case False
  have c: "0 < ENVELOPE_CHUNK_BYTES" by (simp add: ENVELOPE_CHUNK_BYTES_def)
  have "record_count n = ceil_div n ENVELOPE_CHUNK_BYTES"
    using False ceil_div_mult[OF c] by (simp add: record_count_def paddedPlaintextLength_def envelope_sizes)
  then show ?thesis using ceil_div_mono[OF assms] by (simp add: MAX_ENVELOPE_RECORDS_def)
qed

subsection \<open>Records of the plaintext\<close>

definition stable :: "blob \<Rightarrow> bytes \<Rightarrow> bool" where
  "stable source bs \<longleftrightarrow> blob_size source = length bs \<and> (\<forall>a b. blob_slice source a b = subarray bs a b)"

definition pad_bytes :: "entropy \<Rightarrow> nat \<Rightarrow> bytes" where
  "pad_bytes e n = (if n < paddedPlaintextLength n then padding e (paddedPlaintextLength n - n) n else [])"

definition whole_plaintext :: "entropy \<Rightarrow> bytes \<Rightarrow> bytes \<Rightarrow> bytes" where
  "whole_plaintext e prefix bs = prefix @ bs @ pad_bytes e (length prefix + length bs)"

text \<open>The record of a plaintext at an index.\<close>

definition chunk_of :: "bytes \<Rightarrow> nat \<Rightarrow> bytes" where
  "chunk_of w i = take ENVELOPE_CHUNK_BYTES (drop (i * ENVELOPE_CHUNK_BYTES) w)"

lemma length_whole:
  "entropy_ok e \<Longrightarrow> length (whole_plaintext e p bs) = paddedPlaintextLength (length p + length bs)"
  using bucket(1)[of "length p + length bs"]
  by (auto simp: whole_plaintext_def pad_bytes_def entropy_ok_def)

lemma three_parts:
  fixes p bs q :: bytes
  shows "take len (drop off (p @ bs @ q)) =
     take len (drop off p) @ take (len - (length p - off)) (drop (off - length p) bs)
     @ take (len - (length p + length bs - off)) (drop (off - length p - length bs) q)"
proof -
  have "length p - off + (length bs - (off - length p)) \<ge> length p + length bs - off" by simp
  moreover have "len - (length p - off) - (length bs - (off - length p)) = len - (length p + length bs - off)" by simp
  ultimately show ?thesis by simp
qed

lemma assemble:
  assumes "length a + length b + length c = n"
    and "b \<noteq> [] \<longrightarrow> kb = length a" and "c \<noteq> [] \<longrightarrow> kc = length a + length b"
  shows "(let c1 = blit 0 a (replicate n 0); c2 = (if b \<noteq> [] then blit kb b c1 else c1) in
    if c \<noteq> [] then blit kc c c2 else c2) = a @ b @ (c :: bytes)"
proof -
  have 1: "blit 0 a (replicate n 0) = a @ replicate (n - length a) 0"
    using assms(1) blit_zeros[of "[]" 0 a n] by simp
  have 2: "(if b \<noteq> [] then blit kb b (a @ replicate (n - length a) 0) else a @ replicate (n - length a) 0) =
      (a @ b) @ replicate (n - length a - length b) 0"
    using assms blit_zeros[of a kb b] by auto
  show ?thesis unfolding 1 Let_def 2
    using assms blit_zeros[of "a @ b" kc c] by auto
qed

text \<open>An encoder made for a stable source.\<close>

definition encoder_for :: "entropy \<Rightarrow> bytes \<Rightarrow> envelope_encoder \<Rightarrow> bool" where
  "encoder_for e bs st \<longleftrightarrow>
     env_fileEnd st = length (env_prefix st) + length bs \<and>
     env_plaintextLength st = paddedPlaintextLength (env_fileEnd st) \<and>
     env_recordCount st = record_count (env_fileEnd st) \<and>
     env_noncePrefix st = noncePrefix e \<and> env_header st = v2_header (env_recordCount st) e \<and> \<not> env_busy st"

lemma plaintextRecord_eq:
  assumes "entropy_ok e" "stable source bs" "encoder_for e bs st" "i < env_recordCount st" "\<not> sig (Suc i) 1"
  defines "p \<equiv> env_prefix st"
  shows "plaintextRecord sig e source st i =
    Inr (chunk_of (whole_plaintext e p bs) i,
         env_hashed st @ take (ENVELOPE_CHUNK_BYTES - (length p - i * ENVELOPE_CHUNK_BYTES)) (drop (i * ENVELOPE_CHUNK_BYTES - length p) bs))"
proof -
  define c where "c = ENVELOPE_CHUNK_BYTES"
  define n where "n = length p + length bs"
  define off where "off = i * c"
  define pl where "pl = paddedPlaintextLength n"
  define len where "len = min c (pl - off)"
  note eo = assms(3)[unfolded encoder_for_def, folded p_def n_def]
  have ir: "i < record_count n" using assms(4) eo by (simp add: n_def)
  note B = bucket[where n = n, folded c_def pl_def]
  have offpl: "off < pl" using B(6)[OF ir] by (simp add: off_def)
  have npl: "n \<le> pl" by (rule B(1))
  define pE where "pE = min (off + len) (length p)"
  define oS where "oS = max off (length p)"
  define oE where "oE = min (off + len) n"
  define pS where "pS = max off n"
  define A where "A = subarray p off pE"
  define B' where "B' = subarray bs (oS - length p) (oE - length p)"
  define C where "C = (if pS < off + len then padding e (off + len - pS) pS else [])"
  note pos = pE_def oS_def oE_def pS_def
  have lens: "length A = pE - off" "length B' = oE - oS"
    "length C = off + len - pS"
    using assms(1) by (auto simp: A_def B'_def C_def pos subarray_def n_def entropy_ok_def)
  have offn: "off \<le> n"
    using B(8)[of "i - 1"] ir by (cases i) (auto simp: off_def)
  have len: "off + len = pl \<or> len = c \<and> off + c < n"
    using B(7)[OF ir] B(8)[of i] B(9)[of i] offpl by (auto simp: len_def off_def)
  then have c: "C = take (len - (n - off)) (drop (off - n) (pad_bytes e n))"
    using assms(1) offn npl by (auto simp: C_def pos pad_bytes_def pl_def[symmetric] entropy_ok_def max_def)
  have a: "A = take len (drop off p)"
    by (cases "off + len \<le> length p") (simp_all add: A_def pos subarray_def)
  have b: "B' = take (len - (length p - off)) (drop (off - length p) bs)"
    using offn by (cases "off + len \<le> n"; cases "off \<le> length p") (auto simp: B'_def pos subarray_def n_def min_def max_def add.commute)
  have whole: "take len (drop off (whole_plaintext e p bs)) = A @ B' @ C"
  proof -
    have "take len (drop off (whole_plaintext e p bs)) = take len (drop off p)
        @ take (len - (length p - off)) (drop (off - length p) bs)
        @ take (len - (n - off)) (drop (off - n) (pad_bytes e n))"
      using three_parts[of len off p bs "pad_bytes e n"] by (simp only: whole_plaintext_def n_def diff_diff_left)
    then show ?thesis by (simp only: a b c)
  qed
  have "length (whole_plaintext e p bs) = pl" using length_whole[OF assms(1)] by (simp add: pl_def n_def)
  then have "take c (drop off (whole_plaintext e p bs)) = take len (drop off (whole_plaintext e p bs))"
    by (cases "c \<le> pl - off") (simp_all add: len_def)
  then have chunk: "chunk_of (whole_plaintext e p bs) i = A @ B' @ C"
    using whole by (simp only: chunk_of_def c_def[symmetric] off_def[symmetric])
  have hash: "B' = take (c - (length p - off)) (drop (off - length p) bs)"
    unfolding b
  proof (cases "len = c")
    case False
    then have "off + len = pl" "len \<le> c" using len by (auto simp: len_def)
    then have "length (drop (off - length p) bs) \<le> len - (length p - off)"
      using npl offn by (simp add: n_def)
    then show "take (len - (length p - off)) (drop (off - length p) bs) =
        take (c - (length p - off)) (drop (off - length p) bs)"
      using \<open>len \<le> c\<close> by (subst (1 2) take_all) auto
  qed simp
  have sum: "length A + length B' + length C = len"
    unfolding lens using offn npl offpl by (auto simp: pos n_def min_def max_def)
  have nb: "B' \<noteq> [] \<longleftrightarrow> oS < oE" and nc: "C \<noteq> [] \<longleftrightarrow> pS < off + len"
    using lens(2,3) by (metis length_greater_0_conv zero_less_diff)+
  have pb: "B' \<noteq> [] \<longrightarrow> oS - off = length A"
    unfolding nb lens(1) by (auto simp: pos n_def min_def max_def)
  have pc: "C \<noteq> [] \<longrightarrow> pS - off = length A + length B'"
    unfolding nc lens(1,2) using offn by (auto simp: pos n_def min_def max_def)
  have chunk1: "(if off < pE then blit 0 A (replicate len 0) else replicate len 0) = blit 0 A (replicate len 0)"
    using lens(1) by (auto simp: blit_def)
  have sl: "blob_slice source (oS - length p) (oE - length p) = B'"
    using assms(2) by (simp add: stable_def B'_def)
  have C: "pS < off + len \<Longrightarrow> padding e (off + len - pS) pS = C" by (simp add: C_def)
  note asm = assemble[OF sum pb pc, unfolded nb nc Let_def]
  have st: "env_prefix st = p" "env_plaintextLength st = pl" "env_fileEnd st = n"
    using eo by (simp_all add: p_def pl_def n_def)
  have "plaintextRecord sig e source st i = Inr (A @ B' @ C, env_hashed st @ B')"
    unfolding plaintextRecord_def st c_def[symmetric] off_def[symmetric] len_def[symmetric] Let_def
      pE_def[symmetric] oS_def[symmetric] oE_def[symmetric] pS_def[symmetric] A_def[symmetric] sl chunk1
    using assms(5) asm nb lens(2) C by (cases "oS < oE"; cases "pS < off + len") (simp_all add: assertActive_def)
  then show ?thesis using chunk hash by (simp add: c_def off_def)
qed

subsection \<open>Sealing every record\<close>

definition aead_laws :: "cryptography \<Rightarrow> bool" where
  "aead_laws cr \<longleftrightarrow>
     (\<forall>k n a p. gcm_decrypt cr k n a (gcm_encrypt cr k n a p) = Some p) \<and>
     (\<forall>k n a p. length (gcm_encrypt cr k n a p) = length p + ENVELOPE_TAG_BYTES) \<and>
     (\<forall>k n a c p. gcm_decrypt cr k n a c = Some p \<longrightarrow> c = gcm_encrypt cr k n a p)"

definition seal :: "cryptography \<Rightarrow> bytes \<Rightarrow> bytes \<Rightarrow> bytes \<Rightarrow> bytes \<Rightarrow> nat \<Rightarrow> bytes" where
  "seal cr key np header w i = gcm_encrypt cr key (makeNonce np i) (makeAdditionalData header i) (chunk_of w i)"

abbreviation sealed_by :: "cryptography \<Rightarrow> entropy \<Rightarrow> bytes \<Rightarrow> envelope_encoder \<Rightarrow> nat \<Rightarrow> bytes" where
  "sealed_by cr e bs st \<equiv>
     seal cr (env_key st) (env_noncePrefix st) (env_header st) (whole_plaintext e (env_prefix st) bs)"

definition hashed_upto :: "envelope_encoder \<Rightarrow> bytes \<Rightarrow> bool" where
  "hashed_upto st bs \<longleftrightarrow> env_hashed st = take (env_counter st * ENVELOPE_CHUNK_BYTES - length (env_prefix st)) bs"

lemma hashed_step:
  "take (k * c - l) bs @ take (c - (l - k * c)) (drop (k * c - l) bs) = take (Suc k * c - l) bs"
proof -
  have "Suc k * c - l = (k * c - l) + (c - (l - k * c))" by simp
  then show ?thesis by (simp only: take_add)
qed

lemma encoder_next_eq:
  assumes "entropy_ok e" "stable source bs" "encoder_for e bs st" "hashed_upto st bs"
    and "\<And>i p. \<not> sig i p" "env_counter st < env_recordCount st"
  obtains st' where "encoder_next cr sig e source st = Inr (Some (sealed_by cr e bs st (env_counter st)), st')"
    and "encoder_for e bs st'" "hashed_upto st' bs" "env_counter st' = Suc (env_counter st)"
    and "env_recordCount st' = env_recordCount st" "sealed_by cr e bs st' = sealed_by cr e bs st"
    and "env_prefix st' = env_prefix st"
    and "Suc (env_counter st) = env_recordCount st \<longrightarrow> env_digest st' = Some (sha256 cr (env_hashed st'))"
proof -
  let ?i = "env_counter st" and ?l = "length (env_prefix st)" and ?c = ENVELOPE_CHUNK_BYTES
  define h where "h = take (Suc ?i * ?c - ?l) bs"
  have h: "env_hashed st @ take (?c - (?l - ?i * ?c)) (drop (?i * ?c - ?l) bs) = h"
    using assms(4) hashed_step by (simp only: hashed_upto_def h_def)
  note r = plaintextRecord_eq[OF assms(1-3) assms(6), of sig, OF assms(5), unfolded h]
  define st' where "st' = st\<lparr>env_counter := Suc ?i, env_hashed := h,
    env_digest := (if Suc ?i = env_recordCount st then Some (sha256 cr h) else env_digest st)\<rparr>"
  have "encoder_next cr sig e source st = Inr (Some (sealed_by cr e bs st ?i), st')"
    using assms(5,6) assms(3)[unfolded encoder_for_def] r
    by (simp add: encoder_next_def Let_def assertActive_def seal_def st'_def del: One_nat_def)
  then show thesis
    by (rule that) (use assms(3) in \<open>simp_all add: encoder_for_def hashed_upto_def st'_def h_def\<close>)
qed

lemma seal_records_eq:
  assumes "entropy_ok e" "stable source bs" "encoder_for e bs st" "hashed_upto st bs"
    and "\<And>i p. \<not> sig i p" "env_counter st < env_recordCount st"
  shows "\<exists>st'. seal_records cr sig e source st parts =
      Inr (parts @ map (sealed_by cr e bs st) [env_counter st..<env_recordCount st], st')
    \<and> env_digest st' = Some (sha256 cr bs)"
  using assms
proof (induction "env_recordCount st - env_counter st" arbitrary: st parts rule: less_induct)
  case less
  obtain st' where n: "encoder_next cr sig e source st = Inr (Some (sealed_by cr e bs st (env_counter st)), st')"
    and e: "encoder_for e bs st'" "hashed_upto st' bs" "env_counter st' = Suc (env_counter st)"
      "env_recordCount st' = env_recordCount st" "sealed_by cr e bs st' = sealed_by cr e bs st"
      "env_prefix st' = env_prefix st"
      "Suc (env_counter st) = env_recordCount st \<longrightarrow> env_digest st' = Some (sha256 cr (env_hashed st'))"
    by (rule encoder_next_eq[OF less.prems(1-6), where cr = cr], rule that, assumption+)
  have up: "[env_counter st..<env_recordCount st] = env_counter st # [env_counter st'..<env_recordCount st']"
    using less.prems(6) by (simp add: e upt_conv_Cons)
  have step: "seal_records cr sig e source st parts =
      seal_records cr sig e source st' (parts @ [sealed_by cr e bs st (env_counter st)])"
    by (subst seal_records.simps) (simp add: n)
  show ?case
  proof (cases "env_counter st' < env_recordCount st'")
    case True
    have "env_recordCount st' - env_counter st' < env_recordCount st - env_counter st"
      using less.prems(6) by (simp add: e)
    from less.hyps[OF this less.prems(1,2) e(1,2) less.prems(5) True, of "parts @ [sealed_by cr e bs st (env_counter st)]"] show ?thesis
      by (simp add: step up e(5))
  next
    case False
    then have last: "Suc (env_counter st) = env_recordCount st" using less.prems(6) by (simp add: e)
    have "seal_records cr sig e source st' ps = Inr (ps, st')" for ps
      using False e(1) by (subst seal_records.simps) (simp add: encoder_next_def encoder_for_def)
    moreover have "env_hashed st' = bs"
    proof -
      have n: "env_recordCount st = record_count (length (env_prefix st) + length bs)"
        using less.prems(3) by (simp add: encoder_for_def)
      have "length (env_prefix st) + length bs \<le> env_recordCount st * ENVELOPE_CHUNK_BYTES"
        using bucket(1,5)[of "length (env_prefix st) + length bs"] unfolding n by linarith
      then show ?thesis using e(2,3,6) last by (simp add: hashed_upto_def)
    qed
    moreover have "[env_counter st..<env_recordCount st] = [env_counter st]" using up False by simp
    ultimately show ?thesis using last e(7) by (simp add: step)
  qed
qed

end
