(* ===== verification/Envelope_Open.thy ===== *)
theory Envelope_Open
  imports Envelope
begin

text \<open>
  The two directions of the envelope of \<open>src/core/crypto.ts\<close>. What the encoder seals, the
  reader opens to the same source (\<open>envelope_roundtrip\<close>); and what the reader opens is a
  sealed envelope of exactly the plaintext it returns (\<open>decrypt_authentic\<close>). Both rest on
  one description of a sealed file, \<open>sealed_file\<close>, and one account of what the reader has
  gathered after a number of records, \<open>gathered\<close>.
\<close>

subsection \<open>Blocks of a sealed file\<close>

lemma drop_concat:
  assumes "\<And>i. Suc i < length xs \<Longrightarrow> length (xs ! i) = b" "k < length xs"
  shows "drop (k * b) (concat xs) = concat (drop k xs)"
  using assms
proof (induction k arbitrary: xs)
  case (Suc k)
  then obtain y ys where xs: "xs = y # ys" by (cases xs) auto
  then have "length y = b" using Suc.prems(1)[of 0] Suc.prems(2) by (cases ys) auto
  moreover have "drop (k * b) (concat ys) = concat (drop k ys)"
  proof (rule Suc.IH)
    show "length (ys ! i) = b" if "Suc i < length ys" for i
      using Suc.prems(1)[of "Suc i"] xs that by simp
  qed (use Suc.prems(2) xs in simp)
  ultimately show ?case using xs by simp
qed simp

lemma block_of:
  assumes "\<And>i. Suc i < length xs \<Longrightarrow> length (xs ! i) = b" "k < length xs"
  shows "subarray (h @ concat xs) (length h + k * b)
     (if k = length xs - 1 then length (h @ concat xs) else length h + k * b + b) = xs ! k"
proof -
  have d: "drop (k * b) (concat xs) = xs ! k @ concat (drop (Suc k) xs)"
    using drop_concat[OF assms] Cons_nth_drop_Suc[OF assms(2)] by (metis concat.simps(2))
  show ?thesis
  proof (cases "k = length xs - 1")
    case True
    then have "drop (k * b) (concat xs) = xs ! k" using d by simp
    then show ?thesis using True by (simp add: subarray_def) (metis length_drop take_all order_refl)
  next
    case False
    then have "length (xs ! k) = b" using assms by simp
    then show ?thesis using False d by (simp add: subarray_def)
  qed
qed

lemma concat_chunks: "concat (map (chunk_of w) [0..<k]) = take (k * ENVELOPE_CHUNK_BYTES) w"
proof (induction k)
  case (Suc k)
  have "Suc k * ENVELOPE_CHUNK_BYTES = k * ENVELOPE_CHUNK_BYTES + ENVELOPE_CHUNK_BYTES" by simp
  then show ?case using Suc by (simp only: take_add upt_Suc_append le0 map_append concat_append) (simp add: chunk_of_def)
qed simp

lemma length_seal: "aead_laws cr \<Longrightarrow> length (seal cr key np h w i) = length (chunk_of w i) + 16"
  by (simp add: aead_laws_def seal_def envelope_sizes)

lemma length_sealed:
  assumes "aead_laws cr" "length w \<le> k * ENVELOPE_CHUNK_BYTES"
  shows "length (concat (map (seal cr key np h w) [0..<k])) = length w + k * 16"
proof -
  have "length (concat (map (seal cr key np h w) is)) = length (concat (map (chunk_of w) is)) + length is * 16" for "is"
    by (induction "is") (simp_all add: length_seal[OF assms(1)])
  then show ?thesis using concat_chunks[of w k] assms(2) by simp
qed

text \<open>A sealed file: a header and the sealed records of a plaintext.\<close>

definition sealed_file :: "cryptography \<Rightarrow> bytes \<Rightarrow> entropy \<Rightarrow> bytes \<Rightarrow> nat \<Rightarrow> bytes" where
  "sealed_file cr key e w r =
     v2_header r e @ concat (map (seal cr key (noncePrefix e) (v2_header r e) w) [0..<r])"

lemma length_sealed_file:
  "aead_laws cr \<Longrightarrow> entropy_ok e \<Longrightarrow> length w \<le> r * ENVELOPE_CHUNK_BYTES \<Longrightarrow>
     length (sealed_file cr key e w r) = 56 + length w + r * 16"
  by (simp add: sealed_file_def v2_header_length length_sealed)

lemma parse_sealed_header:
  assumes "aead_laws cr" "entropy_ok e" "0 < r" "r \<le> MAX_ENVELOPE_RECORDS"
    and "(r - 1) * ENVELOPE_CHUNK_BYTES < length w" "length w \<le> r * ENVELOPE_CHUNK_BYTES"
    and "\<And>i p. \<not> sig i p"
  shows "parseEnvelopeHeader sig (sealed_file cr key e w r) =
    Inr \<lparr>h_header = v2_header r e, h_headerBytes = 56, h_chunkSize = ENVELOPE_CHUNK_BYTES, h_recordCount = r,
         h_noncePrefix = noncePrefix e, h_salt = Some (salt e)\<rparr>"
proof -
  let ?f = "sealed_file cr key e w r" and ?c = ENVELOPE_CHUNK_BYTES
  let ?h = "v2_header r e"
  have r32: "r < 2 ^ 32" using assms(4) by (simp add: MAX_ENVELOPE_RECORDS_def ceil_div_def envelope_sizes MAX_PROTOTYPE_FILE_BYTES_def)
  have l8: "length ENVELOPE_MAGIC_V2 = 8" by (simp add: ENVELOPE_MAGIC_V2_def)
  note h = v2_header_eq[OF assms(2), of r]
  have lh: "length ?h = 56" using assms(2) by (rule v2_header_length)
  have m: "take 8 ?f = ENVELOPE_MAGIC_V2" by (simp add: sealed_file_def h l8)
  have t: "take 56 ?f = ?h" using lh by (simp add: sealed_file_def)
  have c32: "?c < 2 ^ 32" by (simp add: ENVELOPE_CHUNK_BYTES_def)
  have rd8: "rd32 ?h 8 = ?c" unfolding h using rd32_be32[OF c32 l8] by simp
  have "rd32 ((ENVELOPE_MAGIC_V2 @ be32 ?c) @ be32 r @ noncePrefix e @ salt e) 12 = r"
    by (rule rd32_be32[OF r32]) (simp add: l8)
  then have rd12: "rd32 ?h 12 = r" unfolding h by simp
  have np: "subarray ?h 16 24 = noncePrefix e" "subarray ?h 24 (24 + ENVELOPE_SALT_BYTES) = salt e"
    using assms(2) by (simp_all add: h subarray_def l8 entropy_ok_def ENVELOPE_SALT_BYTES_def)
  have lf: "length ?f = 56 + length w + r * 16" by (rule length_sealed_file[OF assms(1,2,6)])
  have "(r - 1) * (?c + 16) = (r - 1) * ?c + (r - 1) * 16" "r * (?c + 16) = r * ?c + r * 16"
    "r * 16 = (r - 1) * 16 + 16"
    using assms(3) by (simp_all add: algebra_simps flip: Suc_pred' [of r])
  then have sz: "\<not> (length ?f < 56 + (r - 1) * (?c + 16) + 1 + 16 \<or> length ?f > 56 + r * (?c + 16))"
    using assms(5,6) lf by linarith
  show ?thesis
    unfolding parseEnvelopeHeader_def
    using assms(3,4,7) m t rd8 rd12 np sz lh
    by (simp add: Let_def assertActive_def ENVELOPE_HEADER_BYTES_V2_def ENVELOPE_TAG_BYTES_def not_less del: One_nat_def)
qed

subsection \<open>The sealed metadata\<close>

definition lower_laws :: "(jsstr \<Rightarrow> jsstr) \<Rightarrow> bool" where
  "lower_laws f \<longleftrightarrow> (\<forall>s. f (f s) = f s) \<and> (\<forall>s. s \<noteq> [] \<longrightarrow> f s \<noteq> [])"

lemma normaliseMimeType_fixed:
  assumes "lower_laws (lower uc)" "normaliseMimeType uc t = Inr ty"
  shows "normaliseMimeType uc ty = Inr ty"
proof -
  have "ty = lower uc (if t = [] then js ''application/octet-stream'' else t)" "ty \<noteq> []"
    using assms by (auto simp: normaliseMimeType_def lower_laws_def Let_def split: if_splits)
  then have "lower uc ty = ty" using assms(1) by (simp add: lower_laws_def)
  then show ?thesis using assms(2) \<open>ty \<noteq> []\<close>
    by (auto simp: normaliseMimeType_def Let_def split: if_splits)
qed

lemma js_chars: "js (a # s) = of_char a # js s" "js [] = []"
  by (simp_all add: js_def)

definition metadata_members :: "envelope_metadata \<Rightarrow> (jsstr \<times> json) list" where
  "metadata_members m =
     [(js ''name'', JStr (m_name m)), (js ''size'', JNum (Whole (int (m_size m)))), (js ''type'', JStr (m_type m))]"

lemma metadata_text_parts:
  "metadata_text m = 0x7B # JSON_quote (js ''name'') @ 0x3A # JSON_quote (m_name m) @ 0x2C #
     JSON_quote (js ''size'') @ 0x3A # decimal (m_size m) @ 0x2C #
     JSON_quote (js ''type'') @ 0x3A # JSON_quote (m_type m) @ [0x7D]"
proof -
  have "js ''{\"name\":'' = 0x7B # JSON_quote (js ''name'') @ [0x3A]" by code_simp
  moreover have "js '',\"size\":'' = 0x2C # JSON_quote (js ''size'') @ [0x3A]" by code_simp
  moreover have "js '',\"type\":'' = 0x2C # JSON_quote (js ''type'') @ [0x3A]" by code_simp
  moreover have "js ''}'' = [0x7D]" by code_simp
  ultimately show ?thesis by (simp add: metadata_text_def)
qed

lemma parses_quoted_object: "parses_members [] (JSON_quote k @ t) v r \<Longrightarrow> parses (0x7B # JSON_quote k @ t) v r"
  using parses_object[of "tl (JSON_quote k) @ t" v r] by (simp add: JSON_quote_def)

lemma utf8_encode_ascii: "unat u < 0x80 \<Longrightarrow> utf8_encode (u # s) = of_nat (unat u) # utf8_encode s"
proof -
  assume u: "unat u < 0x80"
  then have "code_points (u # s) = unat u # code_points s"
    by (cases s) (simp_all add: is_high_def)
  moreover have "utf8_point (unat u) = [of_nat (unat u)]" "\<not> surrogate (unat u)"
    using u by (simp_all add: utf8_point_def surrogate_def)
  ultimately show ?thesis by (simp add: utf8_encode_def)
qed

lemma parse_metadata_text:
  assumes "m_size m < 2 ^ 53"
  shows "JSON_parse (metadata_text m) = Some (JObj (metadata_members m))"
proof -
  let ?n = "(js ''name'', JStr (m_name m))" and ?s = "(js ''size'', JNum (Whole (int (m_size m))))"
  have ne: "js ''name'' \<noteq> js ''size''" "js ''name'' \<noteq> js ''type''" "js ''size'' \<noteq> js ''type''"
    by code_simp+
  have 3: "parses_members [?n, ?s] (JSON_quote (js ''type'') @ 0x3A # JSON_quote (m_type m) @ [0x7D])
      (JObj (metadata_members m)) []"
    using parses_members_step(1)[OF parses_quote[of "m_type m" "[0x7D]"], of "[?n, ?s]" "js ''type''"] ne
    by (simp add: metadata_members_def)
  have 2: "parses_members [?n] (JSON_quote (js ''size'') @ 0x3A # decimal (m_size m) @ 0x2C #
      JSON_quote (js ''type'') @ 0x3A # JSON_quote (m_type m) @ [0x7D]) (JObj (metadata_members m)) []"
    by (rule parses_members_step(2)[OF parses_decimal[OF assms] refl])
      (use 3 ne in \<open>simp_all add: number_end_def is_digit_def\<close>)
  have "parses_members [] (JSON_quote (js ''name'') @ 0x3A # JSON_quote (m_name m) @ 0x2C #
      JSON_quote (js ''size'') @ 0x3A # decimal (m_size m) @ 0x2C #
      JSON_quote (js ''type'') @ 0x3A # JSON_quote (m_type m) @ [0x7D]) (JObj (metadata_members m)) []"
    by (rule parses_members_step(2)[OF parses_quote refl]) (use 2 in simp)
  then have "parses (metadata_text m) (JObj (metadata_members m)) []"
    unfolding metadata_text_parts by (rule parses_quoted_object)
  then show ?thesis by (rule JSON_parse_parses)
qed

lemma metadata_bytes:
  "utf8_decode_bom (utf8_encode (metadata_text m)) = Some (metadata_text m)"
  "\<exists>t. utf8_encode (metadata_text m) = 0x7B # 0x22 # t"
proof -
  have "sound_text (metadata_text m)"
    unfolding metadata_text_parts
    by (intro sound_text_Cons sound_text_append quote_text decimal_text) (simp_all add: ascii_text)
  then have d: "utf8_decode (utf8_encode (metadata_text m)) = Some (metadata_text m)"
    by (simp add: utf8_points_encode sound_text_def)
  obtain t where t: "metadata_text m = 0x7B # 0x22 # t" by (simp add: metadata_text_parts JSON_quote_def)
  have "utf8_encode (0x7B # 0x22 # t) = 0x7B # 0x22 # utf8_encode t" by (simp add: utf8_encode_ascii)
  then show "utf8_decode_bom (utf8_encode (metadata_text m)) = Some (metadata_text m)"
    "\<exists>t. utf8_encode (metadata_text m) = 0x7B # 0x22 # t"
    using d by (simp_all add: utf8_decode_bom_def t)
qed

lemma check_metadata_ok:
  assumes "sanitiseFileName uc (m_name m) = m_name m" "normaliseMimeType uc (m_type m) = Inr (m_type m)"
    and "0 < m_size m" "m_size m \<le> MAX_PROTOTYPE_FILE_BYTES"
  shows "check_metadata uc (metadata_text m) (metadata_members m) = Inr m"
proof -
  have ne: "js ''name'' \<noteq> js ''size''" "js ''name'' \<noteq> js ''type''" "js ''size'' \<noteq> js ''type''"
    by code_simp+
  have "join [0x2C] (sort [js ''name'', js ''size'', js ''type'']) = js ''name,size,type''" by code_simp
  then show ?thesis using assms ne
    by (cases m) (simp add: check_metadata_def metadata_members_def assertPrototypeFileSize_def Let_def)
qed

lemma parse_framed:
  assumes "frameMetadata uc name sz type = Inr (prefix, m)" "sanitiseFileName uc (m_name m) = m_name m"
    and "lower_laws (lower uc)" "0 < sz" "sz \<le> MAX_PROTOTYPE_FILE_BYTES"
  shows "parseEnvelopeMetadata uc (prefix @ rest) = Inr (m, length prefix) \<and> m_size m = sz \<and> length prefix \<le> 4100"
proof -
  let ?b = "utf8_encode (metadata_text m)"
  have p: "prefix = be32 (length ?b) @ ?b" "length ?b \<le> 4096" and ty: "normaliseMimeType uc type = Inr (m_type m)"
    and sz: "m_size m = sz"
    using assms(1) by (auto simp: frameMetadata_def result_split Let_def MAX_ENVELOPE_METADATA_BYTES_def split: if_splits)
  have rd: "rd32 (prefix @ rest) 0 = length ?b" using rd32_be32[of "length ?b" "[]" 0 "?b @ rest"] p by simp
  have sub: "subarray (prefix @ rest) 4 (4 + length ?b) = ?b" by (simp add: p(1) subarray_def)
  have lt: "m_size m < 2 ^ 53" using assms(5) sz by (simp add: MAX_PROTOTYPE_FILE_BYTES_def)
  have ok: "check_metadata uc (metadata_text m) (metadata_members m) = Inr m"
    using assms(2,4,5) sz normaliseMimeType_fixed[OF assms(3) ty] by (intro check_metadata_ok) auto
  have "2 \<le> length ?b" using metadata_bytes(2)[of m] by auto
  moreover have "4 + length ?b \<le> length (prefix @ rest)" by (simp add: p(1))
  ultimately show ?thesis
    unfolding parseEnvelopeMetadata_def Let_def rd sub metadata_bytes(1)
    using p(2) parse_metadata_text[OF lt] ok sz
    by (simp add: p(1) MAX_ENVELOPE_METADATA_BYTES_def)
qed

subsection \<open>Opening a sealed file\<close>

lemma window_step:
  fixes w :: bytes
  assumes "g + L \<le> length w"
  shows "drop lo (take (min (g + L) hi) w) = drop lo (take (min g hi) w) @
    (if max g lo < min (g + L) hi
     then subarray (take L (drop g w)) (max g lo - g) (min (g + L) hi - g) else [])"
proof (cases "hi \<le> g")
  case True
  then show ?thesis by simp
next
  case False
  let ?M = "min (g + L) hi"
  have M: "g \<le> ?M" "?M - g \<le> L" using False by auto
  have "take ?M w = take g w @ take (?M - g) (drop g w)"
    using M(1) by (metis le_add_diff_inverse take_add)
  moreover have "length (take g w) = g" using assms by simp
  ultimately have "drop lo (take ?M w) = drop lo (take g w) @ drop (lo - g) (take (?M - g) (drop g w))"
    by (simp only: drop_append)
  moreover have "drop (lo - g) (take (?M - g) (drop g w)) = (if max g lo < ?M
      then subarray (take L (drop g w)) (max g lo - g) (?M - g) else [])"
  proof (cases "max g lo < ?M")
    case True
    have e: "max g lo - g = lo - g" by simp
    have "take (?M - g) (drop g w) = take (?M - g) (take L (drop g w))" using M(2) by (simp only: take_take min_absorb1)
    then show ?thesis using True by (simp only: e subarray_def drop_take if_True)
  next
    case False
    then have "?M - g \<le> lo - g" by linarith
    then show ?thesis by (subst if_not_P[OF False]) simp
  qed
  moreover have "min g hi = g" using False by simp
  ultimately show ?thesis by (simp only:)
qed

lemma length_chunk: "length (chunk_of w i) = min ENVELOPE_CHUNK_BYTES (length w - i * ENVELOPE_CHUNK_BYTES)"
  by (simp add: chunk_of_def)

lemma chunk_of_take: "chunk_of w i = take (length (chunk_of w i)) (drop (i * ENVELOPE_CHUNK_BYTES) w)"
  by (cases "ENVELOPE_CHUNK_BYTES \<le> length w - i * ENVELOPE_CHUNK_BYTES") (simp_all add: chunk_of_def)

text \<open>What the reader has gathered after a number of records.\<close>

definition gathered :: "bytes \<Rightarrow> envelope_metadata \<Rightarrow> nat \<Rightarrow> nat \<Rightarrow> open_state \<Rightarrow> bool" where
  "gathered w m lp k st \<longleftrightarrow>
     (case o_metadata st of None \<Rightarrow> k = 0 | Some mp \<Rightarrow> mp = (m, lp)) \<and>
     concat (o_parts st) = drop lp (take (min (k * ENVELOPE_CHUNK_BYTES) (lp + m_size m)) w) \<and>
     o_copied st = length (concat (o_parts st))"

lemma read_record_gathers:
  assumes "gathered w m lp k st" "k * ENVELOPE_CHUNK_BYTES < length w"
    and "k = 0 \<Longrightarrow> parseEnvelopeMetadata uc (chunk_of w 0) = Inr (m, lp)"
    and "paddedPlaintextLength (lp + m_size m) = length w"
    and "Suc k * ENVELOPE_CHUNK_BYTES \<le> length w \<or> lp + m_size m \<le> length w"
  shows "\<exists>st'. read_record uc (length w) ENVELOPE_CHUNK_BYTES k (chunk_of w k) st = Inr st' \<and> gathered w m lp (Suc k) st'
    \<and> o_metadata st' = Some (m, lp)"
proof -
  let ?c = ENVELOPE_CHUNK_BYTES and ?R = "chunk_of w k"
  define g where "g = k * ?c"
  define hi where "hi = lp + m_size m"
  define L where "L = length ?R"
  define oS where "oS = max g lp"
  define oE where "oE = min (g + L) hi"
  have gL: "g + L \<le> length w" using assms(2) by (simp add: g_def L_def length_chunk)
  have R: "?R = take L (drop g w)" using chunk_of_take[of w k] by (simp add: L_def g_def)
  have parts: "concat (o_parts st) = drop lp (take (min g hi) w)" and cp: "o_copied st = length (concat (o_parts st))"
    using assms(1) by (simp_all add: gathered_def g_def hi_def)
  have nxt: "drop lp (take (min (Suc k * ?c) hi) w) = drop lp (take oE w)"
  proof (cases "g + ?c \<le> length w")
    case True
    then have "g + L = Suc k * ?c" by (simp add: L_def length_chunk g_def)
    then show ?thesis by (simp add: oE_def)
  next
    case False
    then have "g + L = length w" "hi \<le> length w" using assms(2,5) by (auto simp: L_def length_chunk g_def hi_def)
    then show ?thesis using False by (simp add: oE_def g_def)
  qed
  note ws = window_step[OF gL, of lp hi, folded R oS_def oE_def]
  have md: "(case o_metadata st of
              Some mp \<Rightarrow> Inr mp
            | None \<Rightarrow>
                bindR (parseEnvelopeMetadata uc ?R) (\<lambda>(m, prefixLength).
                  if paddedPlaintextLength (prefixLength + m_size m) \<noteq> length w then Inl PaddingInvalid
                  else Inr (m, prefixLength))) = Inr (m, lp)"
    using assms(1,3,4) by (auto simp: gathered_def split: option.splits)
  show ?thesis
  proof (cases "oS < oE")
    case True
    let ?p = "subarray ?R (oS - g) (oE - g)"
    have "read_record uc (length w) ?c k ?R st =
        Inr \<lparr>o_metadata = Some (m, lp), o_parts = o_parts st @ [?p], o_copied = o_copied st + length ?p\<rparr>"
      unfolding read_record_def md bindR_simps prod.case Let_def g_def[symmetric] hi_def[symmetric]
        L_def[symmetric] oS_def[symmetric] oE_def[symmetric] using True by simp
    moreover have p: "concat (o_parts st @ [?p]) = drop lp (take oE w)" using True ws parts by simp
    moreover have "o_copied st + length ?p = length (drop lp (take oE w))" unfolding p[symmetric] cp by simp
    ultimately show ?thesis using nxt by (simp add: gathered_def hi_def del: concat_append)
  next
    case False
    have "read_record uc (length w) ?c k ?R st = Inr (st\<lparr>o_metadata := Some (m, lp)\<rparr>)"
      unfolding read_record_def md bindR_simps prod.case Let_def g_def[symmetric] hi_def[symmetric]
        L_def[symmetric] oS_def[symmetric] oE_def[symmetric] using False by simp
    moreover have "concat (o_parts st) = drop lp (take oE w)" using False ws parts by simp
    ultimately show ?thesis using cp nxt by (simp add: gathered_def hi_def)
  qed
qed

lemma open_record_sealed:
  assumes "aead_laws cr" "entropy_ok e" "\<And>i p. \<not> sig i p" "k < r"
    and "(r - 1) * ENVELOPE_CHUNK_BYTES < length w" "length w \<le> r * ENVELOPE_CHUNK_BYTES"
    and "h = \<lparr>h_header = v2_header r e, h_headerBytes = 56, h_chunkSize = ENVELOPE_CHUNK_BYTES, h_recordCount = r,
         h_noncePrefix = noncePrefix e, h_salt = s\<rparr>"
  shows "open_record cr uc sig (sealed_file cr key e w r) h key k st =
    read_record uc (length w) ENVELOPE_CHUNK_BYTES k (chunk_of w k) st"
proof -
  let ?xs = "map (seal cr key (noncePrefix e) (v2_header r e) w) [0..<r]" and ?b = "ENVELOPE_CHUNK_BYTES + ENVELOPE_TAG_BYTES"
  let ?f = "sealed_file cr key e w r"
  have f: "?f = v2_header r e @ concat ?xs" by (simp add: sealed_file_def)
  have full: "length (?xs ! i) = ?b" if "Suc i < length ?xs" for i
  proof -
    have "Suc i * ENVELOPE_CHUNK_BYTES \<le> (r - 1) * ENVELOPE_CHUNK_BYTES" using that by (intro mult_le_mono1) simp
    then have "ENVELOPE_CHUNK_BYTES \<le> length w - i * ENVELOPE_CHUNK_BYTES" using assms(5) by simp
    then show ?thesis using that by (simp add: length_seal[OF assms(1)] length_chunk ENVELOPE_TAG_BYTES_def)
  qed
  have "subarray ?f (length (v2_header r e) + k * ?b)
      (if k = length ?xs - 1 then length ?f else length (v2_header r e) + k * ?b + ?b) = ?xs ! k"
    unfolding f by (rule block_of) (use full assms(4) in auto)
  then have c: "subarray ?f (56 + k * ?b) (if k = r - 1 then length ?f else 56 + k * ?b + ?b) =
      seal cr key (noncePrefix e) (v2_header r e) w k"
    using assms(4) unfolding v2_header_length[OF assms(2)] length_map length_upt by simp
  have pl: "length ?f - 56 - r * ENVELOPE_TAG_BYTES = length w"
    using length_sealed_file[OF assms(1,2,6)] by (simp add: ENVELOPE_TAG_BYTES_def)
  show ?thesis
    unfolding open_record_def assms(7) envelope_head.select_convs Let_def c pl
    using assms(1,3) by (simp add: assertActive_def seal_def aead_laws_def)
qed

lemma open_records_sealed:
  assumes "aead_laws cr" "entropy_ok e" "\<And>i p. \<not> sig i p"
    and w: "(r - 1) * ENVELOPE_CHUNK_BYTES < length w" "length w \<le> r * ENVELOPE_CHUNK_BYTES"
    and h: "h = \<lparr>h_header = v2_header r e, h_headerBytes = 56, h_chunkSize = ENVELOPE_CHUNK_BYTES, h_recordCount = r,
         h_noncePrefix = noncePrefix e, h_salt = s\<rparr>"
    and m: "parseEnvelopeMetadata uc (chunk_of w 0) = Inr (m, lp)" "paddedPlaintextLength (lp + m_size m) = length w"
    and "gathered w m lp k st" "k < r"
  shows "\<exists>st'. open_records cr uc sig (sealed_file cr key e w r) h key [k..<r] st = Inr st' \<and>
    gathered w m lp r st' \<and> o_metadata st' = Some (m, lp)"
  using assms(9,10)
proof (induction "r - k" arbitrary: k st)
  case (Suc d)
  have "k * ENVELOPE_CHUNK_BYTES \<le> (r - 1) * ENVELOPE_CHUNK_BYTES" using Suc.prems(2) by (intro mult_le_mono1) simp
  then have kw: "k * ENVELOPE_CHUNK_BYTES < length w" using w(1) by linarith
  have "lp + m_size m \<le> length w" using bucket(1)[of "lp + m_size m"] m(2) by simp
  then obtain st1 where s: "read_record uc (length w) ENVELOPE_CHUNK_BYTES k (chunk_of w k) st = Inr st1"
    and g: "gathered w m lp (Suc k) st1" "o_metadata st1 = Some (m, lp)"
    using read_record_gathers[OF Suc.prems(1) kw] m by blast
  have o: "open_record cr uc sig (sealed_file cr key e w r) h key k st = Inr st1"
    using open_record_sealed[OF assms(1-3) Suc.prems(2) w h] s by simp
  have up: "[k..<r] = k # [Suc k..<r]" using Suc.prems(2) by (simp add: upt_conv_Cons)
  show ?case
  proof (cases "Suc k < r")
    case True
    with Suc.hyps(1)[OF _ g(1)] Suc.hyps(2) show ?thesis by (simp add: up o)
  next
    case False
    then have "Suc k = r" using Suc.prems(2) by simp
    then show ?thesis using g by (simp add: up o)
  qed
qed simp

lemma decrypt_sealed:
  assumes "aead_laws cr" "entropy_ok e" "\<And>i p. \<not> sig i p" "length raw = 32"
    and m: "frameMetadata uc name (length bs) type = Inr (prefix, m)" "sanitiseFileName uc (m_name m) = m_name m"
    and "lower_laws (lower uc)" "0 < length bs" "length bs \<le> MAX_PROTOTYPE_FILE_BYTES"
  defines "n \<equiv> length prefix + length bs"
  shows "decryptPrivacyEnvelope cr uc sig
      (sealed_file cr (hkdf cr raw (salt e) HKDF_INFO_V2) e (whole_plaintext e prefix bs) (record_count n)) (key_text raw) =
    Inr \<lparr>r_bytes = bs, r_name = m_name m, r_type = m_type m\<rparr>"
proof -
  let ?c = ENVELOPE_CHUNK_BYTES and ?r = "record_count n" and ?key = "hkdf cr raw (salt e) HKDF_INFO_V2"
  define w where "w = whole_plaintext e prefix bs"
  let ?f = "sealed_file cr ?key e w ?r"
  have lw: "length w = paddedPlaintextLength n" using length_whole[OF assms(2)] by (simp add: w_def n_def)
  note B = bucket[of n, folded lw]
  have pm: "parseEnvelopeMetadata uc (prefix @ rest) = Inr (m, length prefix)" "m_size m = length bs" "length prefix \<le> 4100" for rest
    using parse_framed[OF m assms(7-9)] by auto
  have c0: "chunk_of w 0 = prefix @ take (?c - length prefix) (bs @ pad_bytes e n)"
    using pm(3) by (simp add: chunk_of_def w_def whole_plaintext_def n_def ENVELOPE_CHUNK_BYTES_def)
  have rmax: "?r \<le> MAX_ENVELOPE_RECORDS"
    using pm(3) assms(9) by (intro record_count_max) (simp add: n_def MAX_ENVELOPE_METADATA_BYTES_def)
  have r16: "?r * 16 \<le> 257 * 16"
    using rmax by (simp add: MAX_ENVELOPE_RECORDS_def ceil_div_def envelope_sizes MAX_PROTOTYPE_FILE_BYTES_def)
  have "length w \<le> 257 * 1048576"
    using B(5) mult_le_mono1[OF rmax, of ?c]
    by (simp add: MAX_ENVELOPE_RECORDS_def ceil_div_def envelope_sizes MAX_PROTOTYPE_FILE_BYTES_def)
  then have sz: "size_check (assertPrototypeTransferSize (Whole (int (length ?f)))) = Inr ()"
    using length_sealed_file[OF assms(1,2) B(5), of ?key] r16
    by (simp add: size_check_def assertPrototypeTransferSize_def MAX_PROTOTYPE_TRANSFER_BYTES_def MAX_PROTOTYPE_FILE_BYTES_def)
  have key: "startsWith (key_text raw) RECOVERY_KEY_PREFIX"
    "base64UrlDecode (drop (length RECOVERY_KEY_PREFIX) (key_text raw)) = Inr raw"
    using decode_encode32[OF assms(4)] by (simp_all add: key_text_def startsWith_def)
  let ?h = "\<lparr>h_header = v2_header ?r e, h_headerBytes = 56, h_chunkSize = ?c, h_recordCount = ?r,
         h_noncePrefix = noncePrefix e, h_salt = Some (salt e)\<rparr>"
  let ?s0 = "\<lparr>o_metadata = None, o_parts = [], o_copied = 0\<rparr>"
  have ph: "parseEnvelopeHeader sig ?f = Inr ?h"
    by (rule parse_sealed_header[OF assms(1,2) B(3) rmax B(4,5) assms(3)])
  have g0: "gathered w m (length prefix) 0 ?s0" by (simp add: gathered_def)
  have m1: "parseEnvelopeMetadata uc (chunk_of w 0) = Inr (m, length prefix)" using c0 pm(1) by simp
  have m2: "paddedPlaintextLength (length prefix + m_size m) = length w" using pm(2) lw by (simp add: n_def)
  obtain st where st: "open_records cr uc sig ?f ?h ?key [0..<?r] ?s0 = Inr st"
    and g: "gathered w m (length prefix) ?r st" "o_metadata st = Some (m, length prefix)"
    using open_records_sealed[where sig = sig and s = "Some (salt e)" and key = ?key, OF assms(1-3) B(4,5) refl m1 m2 g0 B(3)] by blast
  have "concat (o_parts st) = drop (length prefix) (take (min (?r * ?c) n) w)"
    using g(1) pm(2) by (simp add: gathered_def n_def)
  also have "min (?r * ?c) n = n" using B(1,5) by simp
  also have "drop (length prefix) (take n w) = bs" by (simp add: w_def whole_plaintext_def n_def)
  finally have parts: "concat (o_parts st) = bs" .
  then have cp: "o_copied st = m_size m" using g(1) pm(2) by (simp add: gathered_def)
  show ?thesis unfolding w_def[symmetric] decryptPrivacyEnvelope_def
    using assms(3) by (simp add: assertActive_def sz key ph st g(2) cp parts)
qed

subsection \<open>What the envelope promises\<close>

lemma frame_prefix: "frameMetadata uc name n type = Inr (p, m) \<Longrightarrow> length p \<le> 4100"
  by (auto simp: frameMetadata_def result_split Let_def MAX_ENVELOPE_METADATA_BYTES_def split: if_splits)

lemma created_encoder:
  assumes "createEnvelopeEncoder cr uc sig e source name type key = Inr st" "stable source bs"
  shows "encoder_for e bs st \<and> hashed_upto st bs \<and> env_counter st = 0 \<and> 0 < env_recordCount st \<and>
    frameMetadata uc name (length bs) type = Inr (env_prefix st, env_metadata st) \<and>
    length bs \<le> MAX_PROTOTYPE_FILE_BYTES \<and>
    env_header st = v2_header (record_count (length (env_prefix st) + length bs)) e \<and>
    (\<exists>raw. env_inputKey st = key_text raw \<and> env_key st = hkdf cr raw (salt e) HKDF_INFO_V2 \<and>
       (case key of None \<Rightarrow> raw = freshKey e | Some k \<Rightarrow> parseInputKey k = Inr raw)) \<and>
    env_bytes st = 56 + paddedPlaintextLength (length (env_prefix st) + length bs)
      + record_count (length (env_prefix st) + length bs) * 16"
  using assms bucket(3)[of "length (env_prefix st) + length bs"]
  by (auto simp: createEnvelopeEncoder_def result_split Let_def encoder_for_def hashed_upto_def record_count_def
      stable_def assertSourceSize_def supplied_key_def envelope_sizes split: option.splits sum.splits)

lemma sealed_encoder:
  assumes "entropy_ok e" "stable source bs" "\<And>i p. \<not> sig i p"
    and "createEnvelopeEncoder cr uc sig e source name type key = Inr st"
  shows "\<exists>parts st'. seal_records cr sig e source st [] = Inr (parts, st') \<and>
    env_header st @ concat parts = sealed_file cr (env_key st) e (whole_plaintext e (env_prefix st) bs)
      (record_count (length (env_prefix st) + length bs)) \<and>
    env_digest st' = Some (sha256 cr bs)"
proof -
  note c = created_encoder[OF assms(4,2)]
  have n: "env_recordCount st = record_count (length (env_prefix st) + length bs)" "env_noncePrefix st = noncePrefix e"
    using c by (simp_all add: encoder_for_def)
  obtain st' where "seal_records cr sig e source st [] = Inr (map (sealed_by cr e bs st) [0..<env_recordCount st], st')"
    and "env_digest st' = Some (sha256 cr bs)"
    using seal_records_eq[of e source bs st sig cr "[]"] assms(1-3) c by auto
  then show ?thesis using c n by (simp add: sealed_file_def)
qed

text \<open>
  Property C12: for every source of 1 byte to 256 MiB whose metadata fits, encryption succeeds,
  the envelope has exactly the size \<open>envelopeBytes\<close> announced, and opening it with the
  recovery key it returned gives back the source bytes, under the sanitised name and the
  normalised media type. This holds for every AEAD that obeys its laws, every source of
  randomness and every name.
\<close>

theorem envelope_roundtrip:
  assumes "aead_laws cr" "entropy_ok e" "nfc_laws (nfc uc)" "lower_laws (lower uc)" "stable file bs"
    and "\<forall>i p. \<not> sig i p" "0 < length bs" "length bs \<le> MAX_PROTOTYPE_FILE_BYTES"
    and "frameMetadata uc name (length bs) type = Inr (prefix, m)"
  shows "\<exists>env. encryptPrivacyEnvelope cr uc sig e file name type = Inr env \<and>
    envelopeBytes uc name type (length bs) = Inr (length (ee_file env)) \<and>
    decryptPrivacyEnvelope cr uc sig (ee_file env) (ee_recoveryKey env) =
      Inr \<lparr>r_bytes = bs, r_name = sanitiseFileName uc name, r_type = m_type m\<rparr>"
proof -
  have sig: "\<not> sig i p" for i p using assms(6) by simp
  have sz: "blob_size file = length bs" using assms(5) by (simp add: stable_def)
  define n where "n = length prefix + length bs"
  obtain st where st: "createEnvelopeEncoder cr uc sig e file name type None = Inr st"
    using assms(8,9) sig sz
    by (simp add: createEnvelopeEncoder_def assertActive_def assertSourceSize_def supplied_key_def Let_def)
  note c = created_encoder[OF st assms(5)]
  have pm: "env_prefix st = prefix" "env_metadata st = m" using c assms(9) by auto
  have k: "env_inputKey st = key_text (freshKey e)" "env_key st = hkdf cr (freshKey e) (salt e) HKDF_INFO_V2"
    using c by auto
  let ?f = "sealed_file cr (env_key st) e (whole_plaintext e prefix bs) (record_count n)"
  obtain parts st' where parts: "seal_records cr sig e file st [] = Inr (parts, st')" "env_header st @ concat parts = ?f"
    using sealed_encoder[OF assms(2,5) sig st] pm by (auto simp: n_def)
  have raw: "length (freshKey e) = 32" using assms(2) by (simp add: entropy_ok_def)
  have nm: "m_name m = sanitiseFileName uc name"
    using assms(9) by (auto simp: frameMetadata_def result_split Let_def split: if_splits)
  have fx: "sanitiseFileName uc (m_name m) = m_name m"
    unfolding nm using sanitiseFileName_good[OF assms(3)] good_name_fixed by blast
  note d = decrypt_sealed[OF assms(1,2) sig raw assms(9) fx assms(4,7,8), folded n_def k(2)]
  have lf: "length ?f = 56 + paddedPlaintextLength n + record_count n * 16"
    using length_sealed_file[OF assms(1,2)] length_whole[OF assms(2)] bucket(5)[of n] by (simp add: n_def)
  have "size_check (assertPrototypeTransferSize (Whole (int (length ?f)))) = Inr ()"
    using d by (auto simp: decryptPrivacyEnvelope_def result_split)
  then have "encryptPrivacyEnvelope cr uc sig e file name type =
      Inr \<lparr>ee_file = ?f, ee_recoveryKey = key_text (freshKey e), ee_sourceName = m_name m,
          ee_sourceSize = m_size m, ee_sourceType = m_type m\<rparr>"
    using sig st parts assms(7,8) sz k(1) pm
    by (simp add: encryptPrivacyEnvelope_def assertActive_def size_check_def[of "Inr _"]
        assertPrototypeFileSize_def Let_def del: length_append)
  moreover have "envelopeBytes uc name type (length bs) = Inr (length ?f)"
    using assms(8,9) lf by (simp add: envelopeBytes_def assertSourceSize_def n_def record_count_def envelope_sizes Let_def)
  ultimately show ?thesis using d by (simp add: nm)
qed

text \<open>A stand-in for the platform's AEAD: the plaintext and a constant tag.\<close>

definition sample_crypto :: cryptography where
  "sample_crypto = \<lparr>
     gcm_encrypt = (\<lambda>k n a p. p @ replicate 16 0),
     gcm_decrypt = (\<lambda>k n a c. if 16 \<le> length c \<and> drop (length c - 16) c = replicate 16 0
                              then Some (take (length c - 16) c) else None),
     hkdf = (\<lambda>raw s info. raw), sha256 = (\<lambda>bs. replicate 32 (of_nat (length bs)))\<rparr>"

definition sample_entropy :: entropy where
  "sample_entropy = \<lparr>noncePrefix = replicate 8 1, salt = replicate 32 2, freshKey = replicate 32 3,
     padding = (\<lambda>n off. replicate n 4)\<rparr>"

definition sample_blob :: "bytes \<Rightarrow> blob" where
  "sample_blob bs = \<lparr>blob_size = length bs, blob_slice = subarray bs\<rparr>"

definition sample_unicode :: unicode where
  "sample_unicode = \<lparr>nfc = id, lower = id\<rparr>"

lemma sample_crypto_laws: "aead_laws sample_crypto"
proof -
  have "c = take (length c - 16) c @ replicate 16 0"
    if "16 \<le> length c" "drop (length c - 16) c = replicate 16 (0 :: byte)" for c
    using that append_take_drop_id[of "length c - 16" c] by simp
  then show ?thesis by (auto simp: aead_laws_def sample_crypto_def ENVELOPE_TAG_BYTES_def split: if_splits)
qed

lemma sample_platform_laws:
  "entropy_ok sample_entropy" "nfc_laws (nfc sample_unicode)" "lower_laws (lower sample_unicode)"
  "stable (sample_blob bs) bs"
  by (simp_all add: entropy_ok_def sample_entropy_def nfc_laws_def lower_laws_def sample_unicode_def stable_def sample_blob_def)

lemma sample_frame:
  "\<exists>prefix m. frameMetadata sample_unicode (js ''a.txt'') (length [7, 8, 9 :: byte]) (js ''text/plain'') = Inr (prefix, m) \<and>
     m_type m = js ''text/plain'' \<and> length prefix < 1000"
proof -
  have "case frameMetadata sample_unicode (js ''a.txt'') 3 (js ''text/plain'') of
      Inl _ \<Rightarrow> False | Inr (prefix, m) \<Rightarrow> m_type m = js ''text/plain'' \<and> length prefix < 1000"
    by code_simp
  then show ?thesis by (auto simp: numeral_3_eq_3 split: sum.splits)
qed

theorem envelope_roundtrip_witness:
  "\<exists>env. encryptPrivacyEnvelope sample_crypto sample_unicode (\<lambda>_ _. False) sample_entropy (sample_blob [7, 8, 9])
       (js ''a.txt'') (js ''text/plain'') = Inr env \<and>
     decryptPrivacyEnvelope sample_crypto sample_unicode (\<lambda>_ _. False) (ee_file env) (ee_recoveryKey env) =
       Inr \<lparr>r_bytes = [7, 8, 9], r_name = sanitiseFileName sample_unicode (js ''a.txt''), r_type = js ''text/plain''\<rparr>"
proof -
  obtain prefix m where f: "frameMetadata sample_unicode (js ''a.txt'') (length [7, 8, 9 :: byte]) (js ''text/plain'') = Inr (prefix, m)"
    and t: "m_type m = js ''text/plain''"
    using sample_frame by blast
  show ?thesis
    using envelope_roundtrip[OF sample_crypto_laws sample_platform_laws(1-3) sample_platform_laws(4)[of "[7, 8, 9]"], of "\<lambda>_ _. False" "js ''a.txt''" "js ''text/plain''" prefix m] f t
    by (auto simp: MAX_PROTOTYPE_FILE_BYTES_def)
qed

text \<open>
  Property C14: the record-at-a-time encoder that direct send streams from makes, for a source
  that does not change, exactly the announced number of records and of bytes, each at most
  1 MiB and a tag; it then knows the SHA-256 of the source bytes; and record number i is the
  sealing, under the envelope's key, of the i-th piece of the padded plaintext with the i-th
  nonce and the i-th additional data, the nonces of one envelope being pairwise different.
\<close>

theorem encoder_stream:
  assumes "aead_laws cr" "entropy_ok e" "stable source bs" "\<forall>i p. \<not> sig i p"
    and "createEnvelopeEncoder cr uc sig e source name type key = Inr st"
  shows "\<exists>parts st'. seal_records cr sig e source st [] = Inr (parts, st') \<and>
    length parts = env_recordCount st \<and> length (env_header st @ concat parts) = env_bytes st \<and>
    (\<forall>p \<in> set parts. length p \<le> 1048592) \<and> encoder_digest st' = Inr (sha256 cr bs) \<and>
    parts = map (\<lambda>i. gcm_encrypt cr (env_key st) (makeNonce (env_noncePrefix st) i) (makeAdditionalData (env_header st) i)
        (chunk_of (whole_plaintext e (env_prefix st) bs) i)) [0..<env_recordCount st] \<and>
    distinct (map (makeNonce (env_noncePrefix st)) [0..<env_recordCount st])"
proof -
  have sig: "\<not> sig i p" for i p using assms(4) by simp
  note c = created_encoder[OF assms(5,3)]
  let ?n = "length (env_prefix st) + length bs"
  have e: "env_recordCount st = record_count ?n" "env_noncePrefix st = noncePrefix e"
    using c by (simp_all add: encoder_for_def)
  obtain st' where s: "seal_records cr sig e source st [] = Inr (map (sealed_by cr e bs st) [0..<env_recordCount st], st')"
    and d: "env_digest st' = Some (sha256 cr bs)"
    using seal_records_eq[of e source bs st sig cr "[]"] assms(2,3) sig c by auto
  have "length (env_header st @ concat (map (sealed_by cr e bs st) [0..<env_recordCount st])) = env_bytes st"
    using c e length_sealed[OF assms(1), of "whole_plaintext e (env_prefix st) bs"] length_whole[OF assms(2)]
      bucket(5)[of ?n] v2_header_length[OF assms(2)] by simp
  moreover have "\<forall>p \<in> set (map (sealed_by cr e bs st) [0..<env_recordCount st]). length p \<le> 1048592"
    by (auto simp: length_seal[OF assms(1)] length_chunk ENVELOPE_CHUNK_BYTES_def)
  moreover have "inj_on (makeNonce (env_noncePrefix st)) {..<env_recordCount st}"
  proof (rule inj_onI)
    fix i j assume ij: "i \<in> {..<env_recordCount st}" "j \<in> {..<env_recordCount st}"
      and eq: "makeNonce (env_noncePrefix st) i = makeNonce (env_noncePrefix st) j"
    have "length (env_prefix st) \<le> 4100"
      using c by (blast intro: frame_prefix)
    then have "env_recordCount st \<le> MAX_ENVELOPE_RECORDS"
      unfolding e(1) using c by (intro record_count_max) (simp add: MAX_ENVELOPE_METADATA_BYTES_def)
    then have "i < 2 ^ 32" "j < 2 ^ 32"
      using ij by (auto simp: MAX_ENVELOPE_RECORDS_def ceil_div_def envelope_sizes MAX_PROTOTYPE_FILE_BYTES_def)
    moreover have "be32 i = be32 j"
      using eq assms(2) e(2) by (simp add: makeNonce_eq entropy_ok_def)
    ultimately show "i = j" using rd32_be32[of i "[]" 0 "[]"] rd32_be32[of j "[]" 0 "[]"] by simp
  qed
  ultimately show ?thesis using s d by (simp add: encoder_digest_def distinct_map atLeast0LessThan seal_def)
qed

lemma sample_encoder:
  "\<exists>st. createEnvelopeEncoder sample_crypto sample_unicode (\<lambda>_ _. False) sample_entropy (sample_blob [7, 8, 9])
     (js ''a.txt'') (js ''text/plain'') None = Inr st"
  using sample_frame
  by (auto simp: createEnvelopeEncoder_def assertActive_def assertSourceSize_def supplied_key_def Let_def
      MAX_PROTOTYPE_FILE_BYTES_def sample_blob_def)

theorem encoder_stream_witness:
  "\<exists>st parts st'. createEnvelopeEncoder sample_crypto sample_unicode (\<lambda>_ _. False) sample_entropy (sample_blob [7, 8, 9])
     (js ''a.txt'') (js ''text/plain'') None = Inr st \<and>
     seal_records sample_crypto (\<lambda>_ _. False) sample_entropy (sample_blob [7, 8, 9]) st [] = Inr (parts, st') \<and>
     encoder_digest st' = Inr (replicate 32 3)"
proof -
  obtain st where st: "createEnvelopeEncoder sample_crypto sample_unicode (\<lambda>_ _. False) sample_entropy (sample_blob [7, 8, 9])
     (js ''a.txt'') (js ''text/plain'') None = Inr st"
    using sample_encoder ..
  have "sha256 sample_crypto [7, 8, 9] = replicate 32 3" by (simp add: sample_crypto_def)
  then show ?thesis
    using encoder_stream[OF sample_crypto_laws sample_platform_laws(1) sample_platform_laws(4)[of "[7, 8, 9]"] _ st] st
    by auto
qed

subsection \<open>Nothing but a sealed file opens\<close>

definition cipher_block :: "bytes \<Rightarrow> envelope_head \<Rightarrow> nat \<Rightarrow> bytes" where
  "cipher_block file h i =
     subarray file (h_headerBytes h + i * (h_chunkSize h + ENVELOPE_TAG_BYTES))
       (if i = h_recordCount h - 1 then length file
        else h_headerBytes h + i * (h_chunkSize h + ENVELOPE_TAG_BYTES) + (h_chunkSize h + ENVELOPE_TAG_BYTES))"

lemma header_bounds:
  assumes "parseEnvelopeHeader sig file = Inr h"
  shows "h_header h = take (h_headerBytes h) file \<and> h_headerBytes h \<le> length file \<and> h_chunkSize h = ENVELOPE_CHUNK_BYTES
    \<and> 1 \<le> h_recordCount h \<and> h_recordCount h \<le> MAX_ENVELOPE_RECORDS
    \<and> h_headerBytes h + (h_recordCount h - 1) * (ENVELOPE_CHUNK_BYTES + ENVELOPE_TAG_BYTES) + 1 + ENVELOPE_TAG_BYTES \<le> length file
    \<and> length file \<le> h_headerBytes h + h_recordCount h * (ENVELOPE_CHUNK_BYTES + ENVELOPE_TAG_BYTES)"
  using assms by (auto simp: parseEnvelopeHeader_def result_split Let_def not_less split: if_splits)

lemma blocks_cover:
  assumes "parseEnvelopeHeader sig file = Inr h"
  shows "file = h_header h @ concat (map (cipher_block file h) [0..<h_recordCount h])"
proof -
  define b where "b = h_chunkSize h + ENVELOPE_TAG_BYTES"
  let ?r = "h_recordCount h" and ?hb = "h_headerBytes h"
  note H = header_bounds[OF assms]
  have pre: "concat (map (cipher_block file h) [0..<k]) = take (k * b) (drop ?hb file)" if "k < ?r" for k
    using that
  proof (induction k)
    case (Suc k)
    have "Suc k * b = k * b + b" by simp
    moreover have "cipher_block file h k = take b (drop (k * b) (drop ?hb file))"
      using Suc.prems by (simp add: cipher_block_def subarray_def b_def add.commute)
    ultimately show ?case using Suc by (simp only: take_add upt_Suc_append le0 map_append concat_append) simp
  qed simp
  obtain k where k: "?r = Suc k" using H by (cases ?r) auto
  have "cipher_block file h k = drop (k * b) (drop ?hb file)"
    using k by (simp add: cipher_block_def subarray_def b_def add.commute)
  then have "concat (map (cipher_block file h) [0..<?r]) = drop ?hb file"
    using pre[of k] k by (simp del: drop_drop)
  then show ?thesis using H by simp
qed

lemma open_records_decrypts:
  assumes "open_records cr uc sig file h key ks st = Inr st'" "i \<in> set ks"
  shows "gcm_decrypt cr key (makeNonce (h_noncePrefix h) i) (makeAdditionalData (h_header h) i) (cipher_block file h i) \<noteq> None"
  using assms
  by (induction ks arbitrary: st)
    (auto simp: result_split open_record_def Let_def cipher_block_def split: option.splits)

lemma open_record_reads:
  assumes "open_record cr uc sig file h key k st = Inr st'"
    and "gcm_decrypt cr key (makeNonce (h_noncePrefix h) k) (makeAdditionalData (h_header h) k) (cipher_block file h k) = Some p"
  shows "read_record uc (length file - h_headerBytes h - h_recordCount h * ENVELOPE_TAG_BYTES) (h_chunkSize h) k p st = Inr st'"
  using assms by (auto simp: result_split open_record_def Let_def cipher_block_def split: option.splits)

lemma chunk_of_concat:
  assumes "\<And>i. Suc i < n \<Longrightarrow> length (P i) = ENVELOPE_CHUNK_BYTES" "length (P (n - 1)) \<le> ENVELOPE_CHUNK_BYTES" "k < n"
  shows "chunk_of (concat (map P [0..<n])) k = P k"
proof -
  let ?xs = "map P [0..<n]"
  have "drop (k * ENVELOPE_CHUNK_BYTES) (concat ?xs) = concat (drop k ?xs)"
    by (rule drop_concat) (use assms(1,3) in auto)
  also have "drop k ?xs = P k # drop (Suc k) ?xs"
    using assms(3) Cons_nth_drop_Suc[of k ?xs] by simp
  finally have d: "chunk_of (concat ?xs) k = take ENVELOPE_CHUNK_BYTES (P k @ concat (drop (Suc k) ?xs))"
    by (simp add: chunk_of_def)
  show ?thesis
  proof (cases "Suc k < n")
    case True
    then show ?thesis using d assms(1)[of k] by simp
  next
    case False
    then have "k = n - 1" "drop (Suc k) ?xs = []" using assms(3) by auto
    then show ?thesis using d assms(2) by simp
  qed
qed

lemma open_records_gathers:
  assumes "open_records cr uc sig file h key [k..<h_recordCount h] st = Inr st'" "k \<le> h_recordCount h"
    and "gathered w m lp k st" "h_chunkSize h = ENVELOPE_CHUNK_BYTES"
    and "\<And>i. i < h_recordCount h \<Longrightarrow> gcm_decrypt cr key (makeNonce (h_noncePrefix h) i) (makeAdditionalData (h_header h) i)
          (cipher_block file h i) = Some (chunk_of w i) \<and> i * ENVELOPE_CHUNK_BYTES < length w"
    and "length w = length file - h_headerBytes h - h_recordCount h * ENVELOPE_TAG_BYTES"
    and m: "parseEnvelopeMetadata uc (chunk_of w 0) = Inr (m, lp)" "paddedPlaintextLength (lp + m_size m) = length w"
  shows "gathered w m lp (h_recordCount h) st'"
  using assms(1-3)
proof (induction "h_recordCount h - k" arbitrary: k st)
  case (Suc d)
  then have k: "k < h_recordCount h" by simp
  then have up: "[k..<h_recordCount h] = k # [Suc k..<h_recordCount h]" by (simp add: upt_conv_Cons)
  obtain st1 where o: "open_record cr uc sig file h key k st = Inr st1"
    and r: "open_records cr uc sig file h key [Suc k..<h_recordCount h] st1 = Inr st'"
    using Suc.prems(1) by (auto simp: up result_split)
  have "read_record uc (length w) ENVELOPE_CHUNK_BYTES k (chunk_of w k) st = Inr st1"
    using open_record_reads[OF o] assms(5)[OF k] assms(4,6) by simp
  moreover have "lp + m_size m \<le> length w" using bucket(1)[of "lp + m_size m"] m(2) by simp
  ultimately have "gathered w m lp (Suc k) st1"
    using read_record_gathers[OF Suc.prems(3), of uc] assms(5)[OF k] m by auto
  then show ?case using Suc.hyps(1)[OF _ r] Suc.hyps(2) k by simp
qed simp

lemma first_record_metadata:
  assumes "read_record uc n c 0 p \<lparr>o_metadata = None, o_parts = [], o_copied = 0\<rparr> = Inr st"
  obtains m lp where "parseEnvelopeMetadata uc p = Inr (m, lp)" "paddedPlaintextLength (lp + m_size m) = n"
  using assms by (auto simp: read_record_def result_split Let_def split: if_splits)

definition envelope_key :: "cryptography \<Rightarrow> envelope_head \<Rightarrow> bytes \<Rightarrow> bytes" where
  "envelope_key cr h raw = (case h_salt h of Some s \<Rightarrow> hkdf cr raw s HKDF_INFO_V2 | None \<Rightarrow> raw)"

lemma decrypt_Inr:
  assumes "decryptPrivacyEnvelope cr uc sig file recoveryKey = Inr out"
  obtains raw h st m lp where "parseInputKey recoveryKey = Inr raw" "parseEnvelopeHeader sig file = Inr h"
    and "open_records cr uc sig file h (envelope_key cr h raw) [0..<h_recordCount h]
          \<lparr>o_metadata = None, o_parts = [], o_copied = 0\<rparr> = Inr st"
    and "o_metadata st = Some (m, lp)" "o_copied st = m_size m"
    and "out = \<lparr>r_bytes = concat (o_parts st), r_name = m_name m, r_type = m_type m\<rparr>"
proof -
  let ?s0 = "\<lparr>o_metadata = None, o_parts = [], o_copied = 0\<rparr>"
  from assms obtain h where sw: "startsWith recoveryKey RECOVERY_KEY_PREFIX" and h: "parseEnvelopeHeader sig file = Inr h"
    and b: "(case base64UrlDecode (drop (length RECOVERY_KEY_PREFIX) recoveryKey) of Inl e \<Rightarrow> Inl (KeyRefused e)
       | Inr raw \<Rightarrow> bindR (open_records cr uc sig file h (envelope_key cr h raw) [0..<h_recordCount h] ?s0) (\<lambda>st.
           case o_metadata st of None \<Rightarrow> Inl NotDeclaredFile | Some (m, _) \<Rightarrow>
             if o_copied st \<noteq> m_size m then Inl NotDeclaredFile
             else bindR (assertActive sig (Suc (h_recordCount h)) 0) (\<lambda>_.
               Inr \<lparr>r_bytes = concat (o_parts st), r_name = m_name m, r_type = m_type m\<rparr>))) = Inr out"
    unfolding decryptPrivacyEnvelope_def envelope_key_def Let_def by (auto simp: bindR_eq_Inr split: if_splits)
  then obtain raw where raw: "base64UrlDecode (drop (length RECOVERY_KEY_PREFIX) recoveryKey) = Inr raw"
    by (cases "base64UrlDecode (drop (length RECOVERY_KEY_PREFIX) recoveryKey)") auto
  with b obtain st where st: "open_records cr uc sig file h (envelope_key cr h raw) [0..<h_recordCount h] ?s0 = Inr st"
    and f: "(case o_metadata st of None \<Rightarrow> Inl NotDeclaredFile | Some (m, _) \<Rightarrow>
             if o_copied st \<noteq> m_size m then Inl NotDeclaredFile
             else bindR (assertActive sig (Suc (h_recordCount h)) 0) (\<lambda>_.
               Inr \<lparr>r_bytes = concat (o_parts st), r_name = m_name m, r_type = m_type m\<rparr>)) = Inr out"
    by (auto simp: bindR_eq_Inr)
  obtain m lp where "o_metadata st = Some (m, lp)" using f by (cases "o_metadata st") auto
  with f st raw h sw show thesis
    by (intro that[of raw h st m lp]) (auto simp: parseInputKey_def bindR_eq_Inr split: if_splits)
qed

text \<open>
  Property C13: nothing but a sealed envelope opens. When decryption returns a file, the input
  is a valid header followed by the sealed records of one plaintext, each under the key the
  recovery key gives for that header, its own nonce and the whole header and its own position
  as additional data; that plaintext has exactly the padded length its metadata calls for;
  and the file is the declared bytes of that plaintext, under the declared name and type. So
  no reordered, dropped, repeated or altered record is ever part of what is returned.
\<close>

theorem decrypt_authentic:
  assumes "aead_laws cr" "decryptPrivacyEnvelope cr uc sig file recoveryKey = Inr out"
  shows "\<exists>raw h w m lp. parseInputKey recoveryKey = Inr raw \<and> parseEnvelopeHeader sig file = Inr h \<and>
    file = h_header h @ concat (map (seal cr (envelope_key cr h raw) (h_noncePrefix h) (h_header h) w) [0..<h_recordCount h]) \<and>
    parseEnvelopeMetadata uc (chunk_of w 0) = Inr (m, lp) \<and> paddedPlaintextLength (lp + m_size m) = length w \<and>
    out = \<lparr>r_bytes = take (m_size m) (drop lp w), r_name = m_name m, r_type = m_type m\<rparr>"
proof -
  obtain raw h st m' lp' where k: "parseInputKey recoveryKey = Inr raw" and h: "parseEnvelopeHeader sig file = Inr h"
    and o: "open_records cr uc sig file h (envelope_key cr h raw) [0..<h_recordCount h]
          \<lparr>o_metadata = None, o_parts = [], o_copied = 0\<rparr> = Inr st"
    and md: "o_metadata st = Some (m', lp')"
    and out: "out = \<lparr>r_bytes = concat (o_parts st), r_name = m_name m', r_type = m_type m'\<rparr>"
    using decrypt_Inr[OF assms(2)] by metis
  note H = header_bounds[OF h]
  let ?c = ENVELOPE_CHUNK_BYTES and ?r = "h_recordCount h" and ?key = "envelope_key cr h raw"
  let ?dec = "\<lambda>i. gcm_decrypt cr ?key (makeNonce (h_noncePrefix h) i) (makeAdditionalData (h_header h) i) (cipher_block file h i)"
  define P where "P = (\<lambda>i. the (?dec i))"
  define w where "w = concat (map P [0..<?r])"
  have dec: "?dec i = Some (P i)" if "i < ?r" for i
    using open_records_decrypts[OF o, of i] that by (auto simp: P_def)
  have enc: "cipher_block file h i = gcm_encrypt cr ?key (makeNonce (h_noncePrefix h) i) (makeAdditionalData (h_header h) i) (P i)"
    and len: "length (cipher_block file h i) = length (P i) + 16" if "i < ?r" for i
    using assms(1) dec[OF that] by (auto simp: aead_laws_def ENVELOPE_TAG_BYTES_def) metis+
  have full: "length (P i) = ?c" if "Suc i < ?r" for i
  proof -
    have "Suc i * (?c + 16) \<le> (?r - 1) * (?c + 16)" using that by (intro mult_le_mono1) simp
    then have "h_headerBytes h + i * (?c + 16) + (?c + 16) \<le> length file" using H by (simp add: ENVELOPE_TAG_BYTES_def)
    then have "length (cipher_block file h i) = ?c + 16"
      using that H by (simp add: cipher_block_def subarray_def ENVELOPE_TAG_BYTES_def)
    then show ?thesis using len[of i] that by simp
  qed
  have r0: "0 < ?r" using H by simp
  have rr: "?r * (?c + 16) = (?r - 1) * (?c + 16) + (?c + 16)" using r0 by (cases ?r) auto
  have "length (cipher_block file h (?r - 1)) \<le> ?c + 16"
    using H rr by (simp add: cipher_block_def subarray_def ENVELOPE_TAG_BYTES_def) linarith
  then have lastP: "length (P (?r - 1)) \<le> ?c" using len[of "?r - 1"] r0 by simp
  have ch: "chunk_of w i = P i" if "i < ?r" for i
    unfolding w_def by (rule chunk_of_concat) (use full lastP that in auto)
  have blocks: "map (cipher_block file h) [0..<?r] = map (seal cr ?key (h_noncePrefix h) (h_header h) w) [0..<?r]"
    using enc ch by (simp add: seal_def)
  have lw: "length w = length file - h_headerBytes h - ?r * ENVELOPE_TAG_BYTES"
  proof -
    have "length (concat (map (cipher_block file h) is)) = length (concat (map P is)) + length is * 16"
      if "\<forall>i \<in> set is. i < ?r" for "is"
      using that by (induction "is") (simp_all add: len)
    from this[of "[0..<?r]"] have "length (concat (map (cipher_block file h) [0..<?r])) = length w + ?r * 16"
      by (simp add: w_def)
    moreover have "length file = length (h_header h) + length (concat (map (cipher_block file h) [0..<?r]))"
      using blocks_cover[OF h] by (metis length_append)
    ultimately show ?thesis using H by (simp add: ENVELOPE_TAG_BYTES_def)
  qed
  have h1: "h_headerBytes h + (?r - 1) * (?c + 16) + 17 \<le> length file" and h2: "length file \<le> h_headerBytes h + ?r * (?c + 16)"
    and lw16: "length w = length file - h_headerBytes h - ?r * 16"
    using H lw by (simp_all add: ENVELOPE_TAG_BYTES_def)
  have iw: "i * ?c < length w" if "i < ?r" for i
  proof -
    have "i * ?c \<le> (?r - 1) * ?c" using that by (intro mult_le_mono1) simp
    moreover have "(?r - 1) * (?c + 16) = (?r - 1) * ?c + (?r - 1) * 16" "?r * 16 = (?r - 1) * 16 + 16"
      using r0 by (cases ?r; simp add: algebra_simps)+
    ultimately show ?thesis using h1 lw16 by linarith
  qed
  obtain st1 where "open_record cr uc sig file h ?key 0 \<lparr>o_metadata = None, o_parts = [], o_copied = 0\<rparr> = Inr st1"
    using o r0 by (auto simp: upt_conv_Cons result_split)
  from open_record_reads[OF this dec[OF r0]]
  have "read_record uc (length w) ?c 0 (chunk_of w 0) \<lparr>o_metadata = None, o_parts = [], o_copied = 0\<rparr> = Inr st1"
    using H lw ch[OF r0] by simp
  then obtain m lp where m: "parseEnvelopeMetadata uc (chunk_of w 0) = Inr (m, lp)"
    "paddedPlaintextLength (lp + m_size m) = length w"
    by (rule first_record_metadata)
  have g: "gathered w m lp ?r st"
    by (rule open_records_gathers[OF o _ _ _ _ lw m]) (use H dec ch iw in \<open>auto simp: gathered_def\<close>)
  have "lp + m_size m \<le> length w" using bucket(1)[of "lp + m_size m"] m(2) by simp
  moreover have "length w \<le> ?r * ?c" using h2 lw16 by (simp add: add_mult_distrib2)
  ultimately have "concat (o_parts st) = drop lp (take (lp + m_size m) w)" using g by (simp add: gathered_def)
  then have "concat (o_parts st) = take (m_size m) (drop lp w)" by (simp add: drop_take)
  moreover have "m' = m" "lp' = lp" using g md by (auto simp: gathered_def)
  ultimately show ?thesis using k h m out blocks_cover[OF h] blocks by (metis)
qed

lemma sample_opened:
  "\<exists>file out. decryptPrivacyEnvelope sample_crypto sample_unicode (\<lambda>_ _. False) file (key_text (replicate 32 3)) = Inr out \<and>
     r_bytes out = [7, 8, 9]"
proof -
  obtain prefix m where f: "frameMetadata sample_unicode (js ''a.txt'') (length [7, 8, 9 :: byte]) (js ''text/plain'') = Inr (prefix, m)"
    using sample_frame by blast
  have "m_name m = sanitiseFileName sample_unicode (js ''a.txt'')"
    using f by (auto simp: frameMetadata_def result_split Let_def split: if_splits)
  then have n: "sanitiseFileName sample_unicode (m_name m) = m_name m"
    using sanitiseFileName_good[OF sample_platform_laws(2)] good_name_fixed by simp
  show ?thesis
    using decrypt_sealed[OF sample_crypto_laws sample_platform_laws(1) _ _ f n sample_platform_laws(3), of "\<lambda>_ _. False" "replicate 32 3"]
    by (force simp: MAX_PROTOTYPE_FILE_BYTES_def)
qed

theorem decrypt_authentic_witness:
  "\<exists>file out h w. decryptPrivacyEnvelope sample_crypto sample_unicode (\<lambda>_ _. False) file (key_text (replicate 32 3)) = Inr out \<and>
     r_bytes out = [7, 8, 9] \<and>
     (\<exists>raw. file = h_header h @ concat (map (seal sample_crypto (envelope_key sample_crypto h raw) (h_noncePrefix h) (h_header h) w)
        [0..<h_recordCount h]))"
proof -
  obtain env out where d: "decryptPrivacyEnvelope sample_crypto sample_unicode (\<lambda>_ _. False) env (key_text (replicate 32 3)) = Inr out"
    and b: "r_bytes out = [7, 8, 9]"
    using sample_opened by blast
  from decrypt_authentic[OF sample_crypto_laws d] d b show ?thesis by blast
qed

text \<open>
  Property C23: the reader's check that the metadata is canonical is made on the decoded text,
  and the decoder drops a byte order mark first. So metadata with a byte order mark in front
  of its canonical bytes, which are not the canonical bytes, is accepted as well.
\<close>

theorem metadata_bom_accepted:
  assumes "parseEnvelopeMetadata uc (be32 (length b) @ b) = Inr (m, 4 + length b)"
    and "length b + 3 \<le> 4096" "take 3 b \<noteq> [0xEF, 0xBB, 0xBF]"
  shows "parseEnvelopeMetadata uc (be32 (length b + 3) @ [0xEF, 0xBB, 0xBF] @ b) = Inr (m, 4 + (length b + 3))"
proof -
  let ?b = "[0xEF, 0xBB, 0xBF] @ b"
  have r: "rd32 (be32 (length x) @ x) 0 = length x" if "length x \<le> 4096" for x :: bytes
    using rd32_be32[of "length x" "[]" 0 x] that by simp
  have s: "subarray (be32 (length x) @ x) 4 (4 + length x) = x" for x :: bytes
    by (simp add: subarray_def)
  have l: "length ?b = length b + 3" by simp
  have d: "utf8_decode_bom ?b = utf8_decode_bom b" using assms(3) by (simp add: utf8_decode_bom_def)
  have p: "parseEnvelopeMetadata uc (be32 (length x) @ x) =
      (if length x < 2 then Inl MetadataLengthInvalid
       else case utf8_decode_bom x of None \<Rightarrow> Inl MetadataInvalid
         | Some text \<Rightarrow> (case JSON_parse text of
              Some (JObj candidate) \<Rightarrow> bindR (check_metadata uc text candidate) (\<lambda>m. Inr (m, 4 + length x))
            | Some (JArr _) \<Rightarrow> Inl MetadataTypes | _ \<Rightarrow> Inl MetadataInvalid))"
    if "length x \<le> 4096" for x
    unfolding parseEnvelopeMetadata_def Let_def r[OF that] s using that by (simp add: MAX_ENVELOPE_METADATA_BYTES_def)
  have "length b \<le> 4096" "length ?b \<le> 4096" using assms(2) by simp_all
  from p[OF this(1)] p[OF this(2)] show ?thesis
    using assms(1)[unfolded p[OF \<open>length b \<le> 4096\<close>]] unfolding d l
    by (auto simp: result_split split: if_splits option.splits json.splits)
qed

theorem metadata_bom_accepted_witness:
  "\<exists>b m. parseEnvelopeMetadata sample_unicode (be32 (length b + 3) @ [0xEF, 0xBB, 0xBF] @ b) =
     Inr (m, 4 + (length b + 3)) \<and> [0xEF, 0xBB, 0xBF] @ b \<noteq> utf8_encode (metadata_text m)"
proof -
  obtain prefix m where f: "frameMetadata sample_unicode (js ''a.txt'') (length [7, 8, 9 :: byte]) (js ''text/plain'') = Inr (prefix, m)"
    and l: "length prefix < 1000"
    using sample_frame by blast
  let ?b = "utf8_encode (metadata_text m)"
  have p: "prefix = be32 (length ?b) @ ?b" and nm: "m_name m = sanitiseFileName sample_unicode (js ''a.txt'')"
    using f by (auto simp: frameMetadata_def result_split Let_def split: if_splits)
  have "sanitiseFileName sample_unicode (m_name m) = m_name m"
    unfolding nm using sanitiseFileName_good[OF sample_platform_laws(2)] good_name_fixed by blast
  from parse_framed[OF f this sample_platform_laws(3), of "[]"]
  have "parseEnvelopeMetadata sample_unicode (be32 (length ?b) @ ?b) = Inr (m, 4 + length ?b)"
    by (simp add: MAX_PROTOTYPE_FILE_BYTES_def p)
  moreover have hd: "take 3 ?b \<noteq> [0xEF, 0xBB, 0xBF]" using metadata_bytes(2)[of m] by auto
  ultimately have "parseEnvelopeMetadata sample_unicode (be32 (length ?b + 3) @ [0xEF, 0xBB, 0xBF] @ ?b) = Inr (m, 4 + (length ?b + 3))"
    using l p by (intro metadata_bom_accepted) auto
  then show ?thesis using hd by (intro exI[of _ ?b] exI[of _ m]) auto
qed

end
