(* ===== verification/Transfer_Ends.thy ===== *)
theory Transfer_Ends
  imports Frames
begin

text \<open>
  The two ends of a transfer over a data channel (\<open>src/direct/transfer.ts\<close>): what
  \<open>sendEnvelope\<close> and \<open>receiveEnvelope\<close> do at each frame, each turn of their loops and
  each step of the receiver's queue. Each function is one stretch of the code that runs
  without waiting; everything that can happen between two such stretches is an event of the
  other end, the channel or the person.

  The channel's part of a call is an argument: \<open>up\<close> says whether the channel is open and
  takes a frame. What an end has sent is the list of frames it put on the channel, in order.
\<close>

text \<open>\<open>TUncaught\<close> is an exception that is not a \<open>TransferError\<close>.\<close>

datatype transfer_failure =
    TCancelled | TPeerCancelled | TPeerFailed | TPeerStorage | TProtocol | TClosed
  | TFrameSize | TSource | TVerification | TStorage | TUncaught

fun failureForStop :: "stop_code \<Rightarrow> transfer_failure" where
  "failureForStop StopCancelled = TPeerCancelled"
| "failureForStop StopStorage = TPeerStorage"
| "failureForStop StopFailed = TPeerFailed"

definition trySend :: "bool \<Rightarrow> bytes \<Rightarrow> bytes list \<Rightarrow> bytes list" where
  "trySend up frame out = (if up then out @ [frame] else out)"

subsection \<open>The sender\<close>

record sender =
  s_total :: nat
  s_room :: nat
  s_end :: "bytes \<times> nat"
  s_sent :: nat
  s_acked :: nat
  s_ended :: bool
  s_kept :: bool
  s_paused :: bool
  s_failure :: "transfer_failure option"
  s_current :: bytes
  s_position :: nat
  s_out :: "bytes list"

definition sender_fail :: "bool \<Rightarrow> transfer_failure \<Rightarrow> stop_code option \<Rightarrow> sender \<Rightarrow> sender" where
  "sender_fail up err code st =
     (if s_failure st \<noteq> None then st
      else st\<lparr>s_failure := Some err,
              s_out := (case code of Some c \<Rightarrow> trySend up (encodeStop c) (s_out st) | None \<Rightarrow> s_out st)\<rparr>)"

definition sender_frame :: "bool \<Rightarrow> bytes \<Rightarrow> sender \<Rightarrow> sender" where
  "sender_frame up bs st =
     (if s_failure st \<noteq> None \<or> s_kept st then st
      else
        (case decodeFrame Receiver bs of
           Inl _ \<Rightarrow> sender_fail up TProtocol (Some StopFailed) st
         | Inr (Ack nxt) \<Rightarrow>
             if nxt \<le> int (s_acked st) \<or> nxt > int (s_sent st) then sender_fail up TProtocol (Some StopFailed) st
             else st\<lparr>s_acked := nat nxt\<rparr>
         | Inr Kept \<Rightarrow>
             if \<not> s_ended st then sender_fail up TProtocol (Some StopFailed) st else st\<lparr>s_kept := True\<rparr>
         | Inr (Stop c) \<Rightarrow> sender_fail up (failureForStop c) None st
         | Inr _ \<Rightarrow> sender_fail up TProtocol (Some StopFailed) st))"

definition sender_low :: "sender \<Rightarrow> sender" where
  "sender_low st = st\<lparr>s_paused := False\<rparr>"

definition sender_closed :: "bool \<Rightarrow> sender \<Rightarrow> sender" where
  "sender_closed up st = (if s_kept st then st else sender_fail up TClosed None st)"

definition sender_abort :: "bool \<Rightarrow> sender \<Rightarrow> sender" where
  "sender_abort up st = sender_fail up TCancelled (Some StopCancelled) st"

definition sender_start :: "nat \<Rightarrow> bool \<Rightarrow> bool \<Rightarrow> nat \<Rightarrow> bytes \<Rightarrow> bytes \<times> nat \<Rightarrow> sender" where
  "sender_start maxMessageSize up aborted tot header ending =
     (let frameSize = min maxMessageSize (frameBytes LIMITS);
          st0 = \<lparr>s_total = tot, s_room = frameSize - DATA_HEADER_BYTES, s_end = ending, s_sent = 0, s_acked = 0,
                 s_ended = False, s_kept = False, s_paused = False, s_failure = None, s_current = header,
                 s_position = 0, s_out = []\<rparr>;
          st1 = (if aborted then sender_abort up st0 else st0);
          st2 = (if \<not> up then sender_fail up TClosed None st1 else st1) in
      if frameSize < minFrameBytes LIMITS then sender_fail up TFrameSize (Some StopFailed) st2 else st2)"

text \<open>The awaited record: made, refused by the source (perhaps because of an abort), or none left.\<close>

datatype next_record = NextRecord bytes | NoRecord | RecordThrew bool

definition sender_record :: "bool \<Rightarrow> next_record \<Rightarrow> sender \<Rightarrow> sender" where
  "sender_record up res st =
     (if s_failure st \<noteq> None \<or> s_sent st \<ge> s_total st \<or> s_position st \<noteq> length (s_current st) then st
      else
        (case res of
           NextRecord bs \<Rightarrow> st\<lparr>s_current := bs, s_position := 0\<rparr>
         | NoRecord \<Rightarrow> sender_fail up TSource (Some StopFailed) st
         | RecordThrew aborted \<Rightarrow>
             if aborted then sender_fail up TCancelled (Some StopCancelled) st
             else sender_fail up TSource (Some StopFailed) st))"

text \<open>END, once every byte is on the channel.\<close>

definition sender_finish :: "bool \<Rightarrow> sender \<Rightarrow> sender" where
  "sender_finish up st =
     (case encodeEnd (fst (s_end st)) (int (snd (s_end st))) of
        Inl _ \<Rightarrow> sender_fail up TUncaught None st
      | Inr f \<Rightarrow> st\<lparr>s_out := trySend up f (s_out st), s_ended := True\<rparr>)"

definition wanted_bytes :: "sender \<Rightarrow> nat" where
  "wanted_bytes st = min (min (s_room st) (length (s_current st) - s_position st)) (s_total st - s_sent st)"

text \<open>What the protocol's own pacing rule allows.\<close>

definition protocolPacing :: "nat \<Rightarrow> bool \<Rightarrow> int" where
  "protocolPacing inFlight paused = (if paused then 0 else max 0 (int (unacknowledgedBytes LIMITS) - int inFlight))"

definition allowed_bytes :: "int \<Rightarrow> sender \<Rightarrow> int" where
  "allowed_bytes verdict st = min verdict (int (unacknowledgedBytes LIMITS) - (int (s_sent st) - int (s_acked st)))"

text \<open>
  One turn of the loop, with the pacing rule's verdict and the channel's buffered amount
  after the frame is queued. The protocol's window is a ceiling the verdict cannot lift.
\<close>

definition sender_turn :: "bool \<Rightarrow> int \<Rightarrow> nat \<Rightarrow> sender \<Rightarrow> sender" where
  "sender_turn up verdict buffered st =
     (if s_failure st \<noteq> None \<or> s_sent st \<ge> s_total st \<or> s_position st = length (s_current st) then st
      else
        let allowed = allowed_bytes verdict st in
        if allowed \<le> 0 then st
        else
          let n = nat (min (int (wanted_bytes st)) allowed) in
          (case encodeData (int (s_sent st)) (take n (drop (s_position st) (s_current st))) of
             Inl _ \<Rightarrow> sender_fail up TClosed None st
           | Inr f \<Rightarrow>
               if \<not> up then sender_fail up TClosed None st
               else
                 let st' = st\<lparr>s_out := s_out st @ [f], s_sent := s_sent st + n, s_position := s_position st + n,
                              s_paused := (s_paused st \<or> buffered > highWaterBytes LIMITS)\<rparr> in
                 if s_sent st' < s_total st' then st' else sender_finish up st'))"

subsection \<open>The sink\<close>

datatype sink_error = SinkStorage | SinkRefused

record 's sink_ops =
  sink_write :: "'s \<Rightarrow> bytes \<Rightarrow> 's \<times> sink_error option"
  sink_end :: "'s \<Rightarrow> bytes \<Rightarrow> int \<Rightarrow> 's \<times> sink_error option"
  sink_abort :: "'s \<Rightarrow> 's"

subsection \<open>The receiver\<close>

datatype sink_step = WriteStep bytes | EndStep bytes int

record 's receiver =
  r_total :: nat
  r_plain :: int
  r_received :: nat
  r_written :: nat
  r_lastAck :: nat
  r_endSeen :: bool
  r_done :: bool
  r_failure :: "transfer_failure option"
  r_queue :: "sink_step list"
  r_busy :: "sink_step option"
  r_out :: "bytes list"
  r_sink :: 's
  r_over :: bool

definition receiver_fail :: "bool \<Rightarrow> transfer_failure \<Rightarrow> stop_code option \<Rightarrow> 's receiver \<Rightarrow> 's receiver" where
  "receiver_fail up err code st =
     (if r_failure st \<noteq> None \<or> r_done st then st
      else st\<lparr>r_failure := Some err,
              r_out := (case code of Some c \<Rightarrow> trySend up (encodeStop c) (r_out st) | None \<Rightarrow> r_out st)\<rparr>)"

definition receiver_data :: "bool \<Rightarrow> int \<Rightarrow> bytes \<Rightarrow> 's receiver \<Rightarrow> 's receiver" where
  "receiver_data up offset bs st =
     (if r_endSeen st then receiver_fail up TProtocol (Some StopFailed) st
      else if offset \<noteq> int (r_received st) then receiver_fail up TProtocol (Some StopFailed) st
      else if r_received st + length bs > r_total st then receiver_fail up TProtocol (Some StopFailed) st
      else if int (r_received st + length bs) - int (r_lastAck st) > int (unacknowledgedBytes LIMITS)
        then receiver_fail up TProtocol (Some StopFailed) st
      else st\<lparr>r_received := r_received st + length bs, r_queue := r_queue st @ [WriteStep bs]\<rparr>)"

definition receiver_end :: "bool \<Rightarrow> bytes \<Rightarrow> int \<Rightarrow> 's receiver \<Rightarrow> 's receiver" where
  "receiver_end up digest sz st =
     (if r_endSeen st then receiver_fail up TProtocol (Some StopFailed) st
      else if r_received st \<noteq> r_total st then receiver_fail up TProtocol (Some StopFailed) st
      else if sz \<noteq> r_plain st then receiver_fail up TVerification (Some StopFailed) st
      else st\<lparr>r_endSeen := True, r_queue := r_queue st @ [EndStep digest sz]\<rparr>)"

definition receiver_frame :: "bool \<Rightarrow> bytes \<Rightarrow> 's receiver \<Rightarrow> 's receiver" where
  "receiver_frame up bs st =
     (if r_failure st \<noteq> None \<or> r_done st then st
      else
        (case decodeFrame Sender bs of
           Inl _ \<Rightarrow> receiver_fail up TProtocol (Some StopFailed) st
         | Inr (Data offset d) \<Rightarrow> receiver_data up offset d st
         | Inr (End digest sz) \<Rightarrow> receiver_end up digest sz st
         | Inr (Stop c) \<Rightarrow> receiver_fail up (failureForStop c) None st
         | Inr _ \<Rightarrow> receiver_fail up TProtocol (Some StopFailed) st))"

definition receiver_closed :: "bool \<Rightarrow> 's receiver \<Rightarrow> 's receiver" where
  "receiver_closed up st = (if r_done st then st else receiver_fail up TClosed None st)"

definition receiver_abort :: "bool \<Rightarrow> 's receiver \<Rightarrow> 's receiver" where
  "receiver_abort up st = receiver_fail up TCancelled (Some StopCancelled) st"

definition receiver_start :: "bool \<Rightarrow> bool \<Rightarrow> nat \<Rightarrow> int \<Rightarrow> 's \<Rightarrow> 's receiver" where
  "receiver_start up aborted tot plain sink =
     (let st0 = \<lparr>r_total = tot, r_plain = plain, r_received = 0, r_written = 0, r_lastAck = 0, r_endSeen = False,
                 r_done = False, r_failure = None, r_queue = [], r_busy = None, r_out = [], r_sink = sink, r_over = False\<rparr>;
          st1 = (if aborted then receiver_abort up st0 else st0) in
      if \<not> up then receiver_fail up TClosed None st1 else st1)"

text \<open>The queue starts its next step when the last has settled; after a failure it starts none.\<close>

definition receiver_begin :: "'s receiver \<Rightarrow> 's receiver" where
  "receiver_begin st =
     (case (r_busy st, r_queue st) of
        (None, q # qs) \<Rightarrow>
          if r_failure st \<noteq> None then st\<lparr>r_queue := qs\<rparr> else st\<lparr>r_busy := Some q, r_queue := qs\<rparr>
      | _ \<Rightarrow> st)"

definition sink_failed :: "bool \<Rightarrow> sink_error \<Rightarrow> 's receiver \<Rightarrow> 's receiver" where
  "sink_failed up err st =
     (case err of
        SinkStorage \<Rightarrow> receiver_fail up TStorage (Some StopStorage) st
      | SinkRefused \<Rightarrow> receiver_fail up TVerification (Some StopFailed) st)"

definition settle_write :: "bool \<Rightarrow> nat \<Rightarrow> 's receiver \<Rightarrow> 's receiver" where
  "settle_write up n st =
     (let st1 = st\<lparr>r_written := r_written st + n\<rparr> in
      if int (r_written st1) - int (r_lastAck st1) \<ge> int (ackEveryBytes LIMITS) \<or> r_written st1 = r_total st1 then
        let st2 = st1\<lparr>r_lastAck := r_written st1\<rparr> in
        (case encodeAck (int (r_written st2)) of
           Inl _ \<Rightarrow> receiver_fail up TVerification (Some StopFailed) st2
         | Inr f \<Rightarrow> if up then st2\<lparr>r_out := r_out st2 @ [f]\<rparr> else receiver_fail up TClosed None st2)
      else st1)"

definition receiver_settle :: "'s sink_ops \<Rightarrow> bool \<Rightarrow> 's receiver \<Rightarrow> 's receiver" where
  "receiver_settle ops up st =
     (case r_busy st of
        None \<Rightarrow> st
      | Some (WriteStep bs) \<Rightarrow>
          (case sink_write ops (r_sink st) bs of
             (s, Some err) \<Rightarrow> sink_failed up err (st\<lparr>r_busy := None, r_sink := s\<rparr>)
           | (s, None) \<Rightarrow> settle_write up (length bs) (st\<lparr>r_busy := None, r_sink := s\<rparr>))
      | Some (EndStep digest sz) \<Rightarrow>
          (case sink_end ops (r_sink st) digest sz of
             (s, Some err) \<Rightarrow> sink_failed up err (st\<lparr>r_busy := None, r_sink := s\<rparr>)
           | (s, None) \<Rightarrow>
               let st1 = st\<lparr>r_busy := None, r_sink := s\<rparr> in
               if up then st1\<lparr>r_out := r_out st1 @ [encodeKept], r_done := True\<rparr>
               else receiver_fail up TClosed None st1))"

text \<open>The way out of a failed receive, once the step in flight has settled.\<close>

definition receiver_exit :: "'s sink_ops \<Rightarrow> 's receiver \<Rightarrow> 's receiver" where
  "receiver_exit ops st =
     (if r_failure st \<noteq> None \<and> r_busy st = None \<and> r_queue st = [] \<and> \<not> r_over st
      then st\<lparr>r_sink := sink_abort ops (r_sink st), r_over := True\<rparr> else st)"

end
