(* ===== verification/Transfer_Sender.thy ===== *)
theory Transfer_Sender
  imports Transfer_Ends
begin

text \<open>
  What the sending end has put on the channel at any moment, whatever the channel, the
  person, the file source and the pacing rule have done: the chunks of the envelope in order,
  END once all are sent, and at most one STOP. Each operation of the sender keeps this
  invariant.
\<close>

subsection \<open>What the frames on the channel say\<close>

abbreviation slog :: "sender \<Rightarrow> (frame_error + frame) list" where
  "slog st \<equiv> map (decodeFrame Sender) (s_out st)"

fun data_log :: "nat \<Rightarrow> bytes list \<Rightarrow> (frame_error + frame) list" where
  "data_log off [] = []"
| "data_log off (d # ds) = Inr (Data (int off) d) # data_log (off + length d) ds"

lemma data_log_append: "data_log off (ds @ es) = data_log off ds @ data_log (off + length (concat ds)) es"
  by (induction off ds rule: data_log.induct) (simp_all add: add.assoc)

lemma length_data_log [simp]: "length (data_log off ds) = length ds"
  by (induction off ds rule: data_log.induct) simp_all

lemma nth_data_log: "i < length ds \<Longrightarrow> data_log off ds ! i = Inr (Data (int (off + length (concat (take i ds)))) (ds ! i))"
proof (induction off ds arbitrary: i rule: data_log.induct)
  case (2 off d ds)
  then show ?case by (cases i) (simp_all add: add.assoc)
qed simp

lemma decode_stop [simp]: "decodeFrame r (encodeStop c) = Inr (Stop c)"
  using decode_encodeFrame[of r "Stop c"] by (cases r) simp_all

lemma decode_kept [simp]: "decodeFrame Receiver encodeKept = Inr Kept"
  using decode_encodeFrame[of Receiver Kept] by simp

subsection \<open>What the sender has sent\<close>

text \<open>The STOP that an end's own failure sends to the other, if any.\<close>

fun stop_reason :: "transfer_failure \<Rightarrow> stop_code option" where
  "stop_reason TCancelled = Some StopCancelled"
| "stop_reason TStorage = Some StopStorage"
| "stop_reason TProtocol = Some StopFailed"
| "stop_reason TFrameSize = Some StopFailed"
| "stop_reason TSource = Some StopFailed"
| "stop_reason TVerification = Some StopFailed"
| "stop_reason _ = None"

lemma stop_reason_failureForStop [simp]: "stop_reason (failureForStop c) = None"
  by (cases c) simp_all

lemma range_failureForStop: "range failureForStop = {TPeerCancelled, TPeerStorage, TPeerFailed}"
proof -
  have all: "(UNIV :: stop_code set) = {StopCancelled, StopFailed, StopStorage}" by (auto intro: stop_code.exhaust)
  show ?thesis unfolding all by auto
qed

text \<open>The frames a sender has sent: the chunks in order, END once all are sent, a STOP on failure.\<close>

definition sent_shape :: "bytes list \<Rightarrow> bool \<Rightarrow> frame \<Rightarrow> transfer_failure option \<Rightarrow> (frame_error + frame) list \<Rightarrow> bool" where
  "sent_shape ds ended fin failure log \<longleftrightarrow>
     (\<exists>stops. log = data_log 0 ds @ (if ended then [Inr fin] else []) @ stops \<and>
        (stops = [] \<or> (\<exists>e c. failure = Some e \<and> stop_reason e = Some c \<and> stops = [Inr (Stop c)])))"

definition sender_inv :: "bytes \<Rightarrow> bytes list \<Rightarrow> bytes list \<Rightarrow> sender \<Rightarrow> bool" where
  "sender_inv env ds records st \<longleftrightarrow>
     s_total st = length env \<and> s_sent st \<le> length env \<and> s_acked st \<le> s_sent st \<and>
     s_position st \<le> length (s_current st) \<and> s_room st \<le> 65527 \<and> (s_failure st = None \<longrightarrow> 1 \<le> s_room st) \<and>
     int (length env) \<le> MAX_SAFE_INTEGER \<and> length (fst (s_end st)) = 32 \<and> int (snd (s_end st)) \<le> MAX_SAFE_INTEGER \<and>
     (s_failure st = None \<longrightarrow> drop (s_position st) (s_current st) @ concat records = drop (s_sent st) env) \<and>
     concat ds = take (s_sent st) env \<and>
     sent_shape ds (s_ended st) (End (fst (s_end st)) (int (snd (s_end st)))) (s_failure st) (slog st) \<and>
     (s_ended st \<longrightarrow> s_sent st = length env) \<and>
     (s_sent st = length env \<and> env \<noteq> [] \<and> s_failure st = None \<longrightarrow> s_ended st) \<and>
     s_sent st \<le> s_acked st + unacknowledgedBytes LIMITS"

lemma sent_shape_failed: "sent_shape ds e fin None log \<Longrightarrow> sent_shape ds e fin failure log"
  unfolding sent_shape_def by blast

lemma sent_shape_stop:
  "sent_shape ds e fin None log \<Longrightarrow> stop_reason f = Some c \<Longrightarrow> sent_shape ds e fin (Some f) (log @ [Inr (Stop c)])"
  unfolding sent_shape_def by simp

lemma sender_fail_inv:
  assumes "sender_inv env ds records st" "code = stop_reason err"
  shows "sender_inv env ds records (sender_fail up err code st)"
proof (cases "s_failure st")
  case None
  let ?fin = "End (fst (s_end st)) (int (snd (s_end st)))"
  have shape: "sent_shape ds (s_ended st) ?fin None (slog st)"
    using assms None by (simp add: sender_inv_def)
  have "sent_shape ds (s_ended st) ?fin (Some err) (map (decodeFrame Sender) (trySend up (encodeStop c) (s_out st)))"
    if "stop_reason err = Some c" for c
    using sent_shape_stop[OF shape that] sent_shape_failed[OF shape] by (simp add: trySend_def)
  then show ?thesis
    using assms None sent_shape_failed[OF shape] unfolding sender_inv_def sender_fail_def
    by (cases "stop_reason err") simp_all
qed (use assms in \<open>simp add: sender_fail_def\<close>)

lemma sender_frame_inv:
  assumes "sender_inv env ds records st"
  shows "sender_inv env ds records (sender_frame up bs st)"
proof -
  have "sender_inv env ds records (st\<lparr>s_acked := nat nxt\<rparr>)" if "int (s_acked st) < nxt" "nxt \<le> int (s_sent st)" for nxt
    using assms that by (auto simp: sender_inv_def)
  moreover have "sender_inv env ds records (st\<lparr>s_kept := True\<rparr>)"
    using assms by (auto simp: sender_inv_def)
  ultimately show ?thesis
    using assms by (auto simp: sender_frame_def sender_fail_inv split: sum.splits frame.splits)
qed

lemma sender_record_inv:
  "sender_inv env ds (r # rs) st \<Longrightarrow> s_failure st = None \<Longrightarrow> s_sent st < s_total st \<Longrightarrow>
     s_position st = length (s_current st) \<Longrightarrow> sender_inv env ds rs (sender_record up (NextRecord r) st)"
  by (auto simp: sender_inv_def sender_record_def)

lemma sender_record_failed_inv:
  "sender_inv env ds rs st \<Longrightarrow> (\<forall>r. res \<noteq> NextRecord r) \<Longrightarrow> sender_inv env ds rs (sender_record up res st)"
  by (auto simp: sender_record_def sender_fail_inv split: next_record.splits)

lemma sender_quiet_inv:
  "sender_inv env ds rs st \<Longrightarrow> sender_inv env ds rs (sender_low st)"
  "sender_inv env ds rs st \<Longrightarrow> sender_inv env ds rs (sender_closed up st)"
  "sender_inv env ds rs st \<Longrightarrow> sender_inv env ds rs (sender_abort up st)"
  by (auto simp: sender_low_def sender_closed_def sender_abort_def sender_fail_inv) (auto simp: sender_inv_def)

text \<open>A turn sends nothing, or one more chunk of the envelope, and END after the last.\<close>

lemma sender_turn_cases:
  assumes "sender_inv env ds rs st" "st' = sender_turn up verdict buffered st"
  obtains (idle) "st' = st"
      "s_failure st \<noteq> None \<or> s_sent st \<ge> s_total st \<or> s_position st = length (s_current st) \<or> allowed_bytes verdict st \<le> 0"
  | (down) "\<not> up" "st' = sender_fail up TClosed None st"
  | (sent) f n st1 where "up" "s_failure st = None" "0 < n" "n \<le> wanted_bytes st" "int n \<le> allowed_bytes verdict st"
      "encodeData (int (s_sent st)) (take n (drop (s_position st) (s_current st))) = Inr f"
      "st1 = st\<lparr>s_out := s_out st @ [f], s_sent := s_sent st + n, s_position := s_position st + n,
          s_paused := (s_paused st \<or> buffered > highWaterBytes LIMITS)\<rparr>"
      "st' = (if s_sent st1 < s_total st1 then st1 else sender_finish up st1)"
proof -
  define n where "n = nat (min (int (wanted_bytes st)) (allowed_bytes verdict st))"
  consider (1) "st' = st"
      "s_failure st \<noteq> None \<or> s_sent st \<ge> s_total st \<or> s_position st = length (s_current st) \<or> allowed_bytes verdict st \<le> 0"
  | (2) "s_failure st = None" "s_sent st < s_total st" "s_position st < length (s_current st)"
      "0 < allowed_bytes verdict st"
    using assms by (auto simp: sender_turn_def sender_inv_def Let_def split: if_splits)
  then show thesis
  proof cases
    case 2
    have w: "0 < wanted_bytes st" "wanted_bytes st \<le> 65527" "wanted_bytes st \<le> length (s_current st) - s_position st"
      using 2 assms(1) by (auto simp: wanted_bytes_def sender_inv_def)
    then have n: "0 < n" "n \<le> wanted_bytes st" "int n \<le> allowed_bytes verdict st" using 2 by (auto simp: n_def)
    have "int (s_sent st) \<le> MAX_SAFE_INTEGER" using assms(1) by (auto simp: sender_inv_def)
    moreover have "length (take n (drop (s_position st) (s_current st))) = n" using n(2) w(3) by simp
    ultimately obtain f where f: "encodeData (int (s_sent st)) (take n (drop (s_position st) (s_current st))) = Inr f"
      using n w by (auto simp: encodeData_def DATA_HEADER_BYTES_def writeU64_def MAX_SAFE_INTEGER_def)
    show thesis
    proof (cases up)
      case True
      show thesis
        by (rule sent[OF True 2(1) n f refl]) (use 2 True f in \<open>simp add: assms(2) sender_turn_def n_def Let_def\<close>)
    next
      case False
      show thesis
        by (rule down[OF False]) (use 2 False f in \<open>simp add: assms(2) sender_turn_def n_def Let_def\<close>)
    qed
  qed (rule idle)
qed


lemma sender_finish_out:
  assumes "s_failure st = None" "length (fst (s_end st)) = 32" "int (snd (s_end st)) \<le> MAX_SAFE_INTEGER"
  obtains f where "decodeFrame Sender f = Inr (End (fst (s_end st)) (int (snd (s_end st))))"
    "sender_finish True st = st\<lparr>s_out := s_out st @ [f], s_ended := True\<rparr>"
proof -
  obtain f where f: "encodeEnd (fst (s_end st)) (int (snd (s_end st))) = Inr f"
    using assms by (auto simp: encodeEnd_def writeU64_def MAX_SAFE_INTEGER_def)
  show thesis by (rule that[OF decode_encodeEnd[OF f]]) (simp add: sender_finish_def f trySend_def)
qed

lemma sender_turn_inv:
  assumes "sender_inv env ds rs st"
  obtains ds' where "sender_inv env (ds @ ds') rs (sender_turn up verdict buffered st)" "s_ended st \<Longrightarrow> ds' = []"
proof (rule sender_turn_cases[OF assms refl, of up verdict buffered])
  assume "sender_turn up verdict buffered st = st"
  then show thesis using that[of "[]"] assms by simp
next
  assume "sender_turn up verdict buffered st = sender_fail up TClosed None st"
  then show thesis using that[of "[]"] sender_fail_inv[OF assms] by simp
next
  fix f n st1
  assume up: up and nofail: "s_failure st = None" and n: "0 < n" "n \<le> wanted_bytes st" "int n \<le> allowed_bytes verdict st"
    and f: "encodeData (int (s_sent st)) (take n (drop (s_position st) (s_current st))) = Inr f"
    and st1: "st1 = st\<lparr>s_out := s_out st @ [f], s_sent := s_sent st + n, s_position := s_position st + n,
          s_paused := (s_paused st \<or> buffered > highWaterBytes LIMITS)\<rparr>"
    and turn: "sender_turn up verdict buffered st = (if s_sent st1 < s_total st1 then st1 else sender_finish up st1)"
  let ?d = "take n (drop (s_position st) (s_current st))" and ?fin = "End (fst (s_end st)) (int (snd (s_end st)))"
  have bounds: "n \<le> length (s_current st) - s_position st" "n \<le> length env - s_sent st"
    "s_position st + n \<le> length (s_current st)" "s_sent st + n \<le> length env" "s_total st = length env"
    using n(1,2) assms by (auto simp: wanted_bytes_def sender_inv_def)
  have rest: "drop (s_position st) (s_current st) @ concat rs = drop (s_sent st) env"
    using assms nofail by (simp add: sender_inv_def)
  have d: "?d = take n (drop (s_sent st) env)" using bounds by (simp add: rest[symmetric])
  have rest': "drop (s_position st + n) (s_current st) @ concat rs = drop (s_sent st + n) env"
    using arg_cong[OF rest, of "drop n"] bounds by (simp add: add.commute)
  have "concat ds = take (s_sent st) env" using assms by (simp add: sender_inv_def)
  then have cat: "concat (ds @ [?d]) = take (s_sent st + n) env" by (simp add: d take_add)
  have ended: "\<not> s_ended st" using assms n bounds by (auto simp: sender_inv_def)
  have len: "length (concat ds) = s_sent st" using assms by (auto simp: sender_inv_def)
  have log: "slog st = data_log 0 ds" using assms nofail ended by (auto simp: sender_inv_def sent_shape_def)
  have log1: "slog st1 = data_log 0 (ds @ [?d])"
    by (simp add: st1 log decode_encodeData[OF f] data_log_append len)
  have window: "s_sent st + n \<le> s_acked st + unacknowledgedBytes LIMITS"
    using n(3) by (simp add: allowed_bytes_def)
  have same: "s_total st1 = s_total st" "s_end st1 = s_end st" "s_failure st1 = None" "s_ended st1 = s_ended st"
    "s_sent st1 = s_sent st + n" "s_acked st1 = s_acked st" "s_position st1 = s_position st + n" "s_room st1 = s_room st"
    "s_current st1 = s_current st" using nofail by (simp_all add: st1)
  show thesis
  proof (cases "s_sent st1 < s_total st1")
    case True
    have "sender_inv env (ds @ [?d]) rs st1"
      using assms cat rest' window True bounds nofail ended unfolding sender_inv_def same log1
      by (auto simp: sent_shape_def simp del: concat_append)
    then show thesis using that[of "[?d]"] turn True ended by simp
  next
    case False
    then have all: "s_sent st + n = length env" using bounds same by simp
    obtain g where g: "decodeFrame Sender g = Inr (End (fst (s_end st1)) (int (snd (s_end st1))))"
      "sender_finish True st1 = st1\<lparr>s_out := s_out st1 @ [g], s_ended := True\<rparr>"
      by (rule sender_finish_out[of st1]) (use assms same in \<open>auto simp: sender_inv_def\<close>)
    have "sender_inv env (ds @ [?d]) rs (sender_finish up st1)"
      using assms cat rest' window all bounds nofail ended up g unfolding sender_inv_def
      by (simp add: same log1[unfolded same] sent_shape_def del: concat_append)
    then show thesis using that[of "[?d]"] turn False ended by simp
  qed
qed

lemma sender_start_inv:
  assumes "header @ concat rs = env" "env \<noteq> []" "int (length env) \<le> MAX_SAFE_INTEGER"
    "length (fst ending) = 32" "int (snd ending) \<le> MAX_SAFE_INTEGER"
  shows "sender_inv env [] rs (sender_start maxMessageSize up aborted (length env) header ending)"
proof -
  define st0 where "st0 = \<lparr>s_total = length env, s_room = min maxMessageSize (frameBytes LIMITS) - DATA_HEADER_BYTES,
    s_end = ending, s_sent = 0, s_acked = 0, s_ended = False, s_kept = False, s_paused = False, s_failure = None,
    s_current = header, s_position = 0, s_out = []\<rparr>"
  define st1 where "st1 = (if aborted then sender_abort up st0 else st0)"
  define st2 where "st2 = (if \<not> up then sender_fail up TClosed None st1 else st1)"
  have start: "sender_start maxMessageSize up aborted (length env) header ending =
      (if min maxMessageSize (frameBytes LIMITS) < minFrameBytes LIMITS then sender_fail up TFrameSize (Some StopFailed) st2 else st2)"
    by (simp add: sender_start_def st0_def st1_def st2_def Let_def)
  show ?thesis
  proof (cases "min maxMessageSize (frameBytes LIMITS) < minFrameBytes LIMITS")
    case False
    have "sender_inv env [] rs st0" using assms False
      by (simp add: sender_inv_def st0_def sent_shape_def DATA_HEADER_BYTES_def) linarith
    then have "sender_inv env [] rs st2" by (simp add: st1_def st2_def sender_fail_inv sender_quiet_inv)
    then show ?thesis using False by (simp add: start sender_fail_inv)
  next
    case True
    have "s_failure (sender_fail up TFrameSize (Some StopFailed) st2) \<noteq> None" by (simp add: sender_fail_def)
    have "sender_inv env [] rs (st2\<lparr>s_room := 1\<rparr>)" using assms
      by (auto simp: sender_inv_def st0_def st1_def st2_def sent_shape_def sender_fail_def sender_abort_def trySend_def)
    then have "sender_inv env [] rs (sender_fail up TFrameSize (Some StopFailed) (st2\<lparr>s_room := 1\<rparr>))"
      by (rule sender_fail_inv) simp
    moreover have "s_room st2 = s_room st0" by (simp add: st1_def st2_def sender_fail_def sender_abort_def)
    ultimately show ?thesis using True
      by (auto simp: start sender_inv_def sender_fail_def st0_def DATA_HEADER_BYTES_def split: if_splits)
  qed
qed

lemma sender_turn_sends:
  assumes "sender_inv env ds rs st" "s_failure st = None" "s_sent st < s_total st" "s_position st < length (s_current st)"
    "0 < allowed_bytes verdict st"
  shows "s_sent st < s_sent (sender_turn True verdict buffered st)"
proof -
  have fin: "s_sent (sender_finish up st1) = s_sent st1" for up st1
    by (simp add: sender_finish_def sender_fail_def split: sum.splits)
  show ?thesis by (rule sender_turn_cases[OF assms(1) refl, of True verdict buffered]) (use assms(2-) fin in auto)
qed

end
