(* ===== verification/Transfer_Receiver.thy ===== *)
theory Transfer_Receiver
  imports Transfer_Sender
begin

text \<open>
  What the receiving end has taken in, handed to its sink and answered, at any moment and
  whatever the sink does: counts that never overtake each other, acknowledgements that only
  move forward, KEPT at most after END, and a STOP that matches the failure. Each operation of
  the receiver keeps these invariants.
\<close>

abbreviation rlog :: "'s receiver \<Rightarrow> (frame_error + frame) list" where
  "rlog st \<equiv> map (decodeFrame Receiver) (r_out st)"

fun acks :: "(frame_error + frame) list \<Rightarrow> int list" where
  "acks [] = []"
| "acks (Inr (Ack n) # log) = n # acks log"
| "acks (_ # log) = acks log"

lemma acks_append [simp]: "acks (xs @ ys) = acks xs @ acks ys"
  by (induction xs rule: acks.induct) simp_all

lemma acks_take: "\<exists>zs. acks log = acks (take j log) @ zs"
  by (metis acks_append append_take_drop_id)

lemma set_acks: "n \<in> set (acks log) \<longleftrightarrow> Inr (Ack n) \<in> set log"
  by (induction log rule: acks.induct) auto

subsection \<open>The receiver's steps and counts\<close>

definition steps :: "'s receiver \<Rightarrow> sink_step list" where
  "steps st = (case r_busy st of None \<Rightarrow> [] | Some q \<Rightarrow> [q]) @ r_queue st"

fun step_bytes :: "sink_step \<Rightarrow> bytes" where
  "step_bytes (WriteStep bs) = bs"
| "step_bytes (EndStep _ _) = []"

abbreviation pending :: "'s receiver \<Rightarrow> bytes" where
  "pending st \<equiv> concat (map step_bytes (steps st))"

definition rcv_counts :: "bytes \<Rightarrow> bytes \<times> nat \<Rightarrow> 's receiver \<Rightarrow> bool" where
  "rcv_counts env fin st \<longleftrightarrow>
     r_total st = length env \<and> r_plain st = int (snd fin) \<and> int (length env) \<le> MAX_SAFE_INTEGER \<and>
     r_lastAck st \<le> r_written st \<and> r_written st + length (pending st) \<le> r_received st \<and>
     r_received st \<le> length env \<and> r_received st \<le> r_lastAck st + unacknowledgedBytes LIMITS \<and>
     r_written st < r_lastAck st + ackEveryBytes LIMITS \<and>
     (r_written st = length env \<longrightarrow> r_lastAck st = length env \<or> env = []) \<and>
     WriteStep [] \<notin> set (steps st) \<and> (r_done st \<longrightarrow> steps st = []) \<and>
     (\<forall>d n. EndStep d n \<notin> set (butlast (steps st))) \<and>
     (\<forall>d n. EndStep d n \<in> set (steps st) \<longrightarrow> r_endSeen st \<and> d = fst fin \<and> n = int (snd fin)) \<and>
     (r_endSeen st \<longrightarrow> r_received st = length env)"

text \<open>The answers sent so far, with the failure, whether the file is kept, and the last ACK's mark.\<close>

definition reply_log :: "bool \<Rightarrow> transfer_failure option \<Rightarrow> bool \<Rightarrow> nat \<Rightarrow> (frame_error + frame) list \<Rightarrow> bool" where
  "reply_log up failure fin la log \<longleftrightarrow>
     (\<forall>x\<in>set log. (\<exists>n. x = Inr (Ack n)) \<or> x = Inr Kept \<or> (\<exists>c. x = Inr (Stop c))) \<and>
     sorted_wrt (<) (0 # acks log) \<and> last (0 # acks log) \<le> int la \<and>
     (failure = None \<longrightarrow> last (0 # acks log) = int la) \<and>
     (Inr Kept \<in> set log \<longleftrightarrow> fin) \<and>
     (\<forall>c. Inr (Stop c) \<in> set log \<longrightarrow> (\<exists>e. failure = Some e \<and> stop_reason e = Some c)) \<and>
     (\<forall>e. failure = Some e \<longrightarrow> (\<exists>c. Inr (Stop c) \<in> set log) \<or> \<not> up \<or> e \<in> range failureForStop) \<and>
     (\<forall>e pre post. failure = Some e \<longrightarrow> log = pre @ Inr Kept # post \<longrightarrow>
        (\<exists>c. Inr (Stop c) \<in> set pre) \<or> e \<in> range failureForStop)"

definition rcv_log :: "bool \<Rightarrow> 's receiver \<Rightarrow> bool" where
  "rcv_log up st \<longleftrightarrow>
     reply_log up (r_failure st) (r_done st) (r_lastAck st) (rlog st) \<and> (r_done st \<longrightarrow> r_endSeen st)"

lemma reply_log_cases:
  assumes "reply_log up failure fin la log" "x \<in> set log"
  shows "(\<exists>n. x = Inr (Ack n)) \<or> x = Inr Kept \<and> fin \<or> (\<exists>c e. x = Inr (Stop c) \<and> failure = Some e \<and> stop_reason e = Some c)"
proof -
  have "(\<exists>n. x = Inr (Ack n)) \<or> x = Inr Kept \<or> (\<exists>c. x = Inr (Stop c))" "x = Inr Kept \<Longrightarrow> fin"
    "x = Inr (Stop c) \<Longrightarrow> \<exists>e. failure = Some e \<and> stop_reason e = Some c" for c
    using assms unfolding reply_log_def by simp_all
  then show ?thesis by blast
qed

lemma reply_log_silent:
  "reply_log up None False la log \<Longrightarrow> \<not> up \<or> e \<in> range failureForStop \<Longrightarrow> reply_log up (Some e) False la log"
  unfolding reply_log_def by auto

lemma reply_log_stop:
  "reply_log True None False la log \<Longrightarrow> stop_reason e = Some c \<Longrightarrow> reply_log True (Some e) False la (log @ [Inr (Stop c)])"
  unfolding reply_log_def by (auto simp: append_eq_append_conv2 append_eq_Cons_conv Cons_eq_append_conv)

lemma reply_log_down: "reply_log up f d la log \<Longrightarrow> reply_log False f d la log"
  unfolding reply_log_def by auto

lemma sorted_wrt_last: "sorted_wrt (<) (x # xs) \<Longrightarrow> last (x # xs) < (n :: int) \<Longrightarrow> sorted_wrt (<) (x # xs @ [n])"
  by (induction xs arbitrary: x) (fastforce split: if_splits)+

lemma snoc_split: "xs @ [x] = pre @ y # post \<longleftrightarrow> (post = [] \<and> xs = pre \<and> x = y) \<or> (\<exists>post'. post = post' @ [x] \<and> xs = pre @ y # post')"
  by (cases post rule: rev_cases) auto

lemma reply_log_ack:
  assumes "reply_log up f d la log" "la < n"
  shows "reply_log up f d n (log @ [Inr (Ack (int n))])"
proof -
  have "last (0 # acks log) < int n" "sorted_wrt (<) (0 # acks log)" using assms by (auto simp: reply_log_def)
  then have "sorted_wrt (<) (0 # acks log @ [int n])" by (rule sorted_wrt_last[rotated])
  then show ?thesis using assms(1) unfolding reply_log_def by (auto simp: snoc_split)
qed

lemma reply_log_ack_lost: "reply_log up (Some e) d la log \<Longrightarrow> la \<le> n \<Longrightarrow> reply_log up (Some e) d n log"
  unfolding reply_log_def by (auto split: if_splits)

lemma reply_log_kept: "reply_log True f False la log \<Longrightarrow> reply_log True f True la (log @ [Inr Kept])"
  unfolding reply_log_def by (auto simp: snoc_split)

text \<open>What a receiver may fail with on its own account, between honest ends.\<close>

definition own_failures_r :: "transfer_failure set" where
  "own_failures_r = {TCancelled, TClosed, TVerification, TStorage}"

subsection \<open>Failing\<close>

lemma receiver_fail_same [simp]:
  "r_total (receiver_fail up err code st) = r_total st" "r_plain (receiver_fail up err code st) = r_plain st"
  "r_received (receiver_fail up err code st) = r_received st" "r_written (receiver_fail up err code st) = r_written st"
  "r_lastAck (receiver_fail up err code st) = r_lastAck st" "r_endSeen (receiver_fail up err code st) = r_endSeen st"
  "r_done (receiver_fail up err code st) = r_done st" "r_queue (receiver_fail up err code st) = r_queue st"
  "r_busy (receiver_fail up err code st) = r_busy st" "r_sink (receiver_fail up err code st) = r_sink st"
  "r_over (receiver_fail up err code st) = r_over st" "steps (receiver_fail up err code st) = steps st"
  by (simp_all add: receiver_fail_def steps_def)

lemma rcv_counts_fail [simp]: "rcv_counts env fin (receiver_fail up err code st) = rcv_counts env fin st"
  by (simp add: rcv_counts_def)

lemma rcv_log_fail:
  assumes "rcv_log up st" "code = stop_reason err" "code = None \<Longrightarrow> \<not> up \<or> err \<in> range failureForStop"
  shows "rcv_log up (receiver_fail up err code st)"
proof (cases "r_failure st \<noteq> None \<or> r_done st")
  case False
  then have log: "reply_log up None False (r_lastAck st) (rlog st)" using assms(1) by (simp add: rcv_log_def)
  show ?thesis
  proof (cases "up \<and> code \<noteq> None")
    case True
    then show ?thesis using False assms(2) log reply_log_stop[of "r_lastAck st" "rlog st" err]
      by (auto simp: rcv_log_def receiver_fail_def trySend_def)
  next
    case down: False
    then have "reply_log up (Some err) False (r_lastAck st) (rlog st)" using assms(3) log reply_log_silent by blast
    then show ?thesis using False down by (auto simp: rcv_log_def receiver_fail_def trySend_def split: option.splits)
  qed
qed (use assms in \<open>simp add: receiver_fail_def\<close>)

lemma rcv_log_down: "rcv_log up st \<Longrightarrow> rcv_log False st"
  by (auto simp: rcv_log_def reply_log_down)

subsection \<open>Taking frames in\<close>

lemma steps_simps [simp]:
  "steps (st\<lparr>r_queue := r_queue st @ qs\<rparr>) = steps st @ qs" "steps (st\<lparr>r_received := a, r_queue := r_queue st @ qs\<rparr>) = steps st @ qs"
  "steps (st\<lparr>r_endSeen := b, r_queue := r_queue st @ qs\<rparr>) = steps st @ qs"
  "steps (st\<lparr>r_written := a\<rparr>) = steps st" "steps (st\<lparr>r_lastAck := a\<rparr>) = steps st" "steps (st\<lparr>r_out := x\<rparr>) = steps st"
  "steps (st\<lparr>r_done := b\<rparr>) = steps st" "steps (st\<lparr>r_over := b\<rparr>) = steps st" "steps (st\<lparr>r_sink := s\<rparr>) = steps st"
  by (simp_all add: steps_def split: option.splits)

lemma receiver_data_accept:
  assumes "rcv_counts env fin st" "\<not> r_endSeen st" "\<not> r_done st" "offset = int (r_received st)" "d \<noteq> []"
    "r_received st + length d \<le> length env" "r_received st + length d \<le> r_lastAck st + unacknowledgedBytes LIMITS"
  shows "receiver_data up offset d st = st\<lparr>r_received := r_received st + length d, r_queue := r_queue st @ [WriteStep d]\<rparr>"
    "rcv_counts env fin (receiver_data up offset d st)" "rcv_log up st \<Longrightarrow> rcv_log up (receiver_data up offset d st)"
proof -
  show eq: "receiver_data up offset d st = st\<lparr>r_received := r_received st + length d, r_queue := r_queue st @ [WriteStep d]\<rparr>"
    using assms by (auto simp: receiver_data_def rcv_counts_def)
  show "rcv_counts env fin (receiver_data up offset d st)" using assms unfolding eq rcv_counts_def by (auto simp: butlast_append dest: in_set_butlastD)
  show "rcv_log up (receiver_data up offset d st)" if "rcv_log up st" using that unfolding eq rcv_log_def by simp
qed

lemma receiver_end_accept:
  assumes "rcv_counts env fin st" "\<not> r_endSeen st" "\<not> r_done st" "r_received st = length env" "d = fst fin" "n = int (snd fin)"
  shows "receiver_end up d n st = st\<lparr>r_endSeen := True, r_queue := r_queue st @ [EndStep d n]\<rparr>"
    "rcv_counts env fin (receiver_end up d n st)" "rcv_log up st \<Longrightarrow> rcv_log up (receiver_end up d n st)"
proof -
  show eq: "receiver_end up d n st = st\<lparr>r_endSeen := True, r_queue := r_queue st @ [EndStep d n]\<rparr>"
    using assms by (auto simp: receiver_end_def rcv_counts_def)
  show "rcv_counts env fin (receiver_end up d n st)" using assms unfolding eq rcv_counts_def by (auto simp: butlast_append dest: in_set_butlastD)
  show "rcv_log up (receiver_end up d n st)" if "rcv_log up st" using that unfolding eq rcv_log_def by simp
qed

subsection \<open>The sink's queue\<close>

lemma receiver_begin_cases:
  obtains (same) "steps (receiver_begin st) = steps st" | (dropped) q where "r_failure st \<noteq> None" "steps st = q # steps (receiver_begin st)"
  by (cases "r_busy st"; cases "r_queue st"; cases "r_failure st") (auto simp: receiver_begin_def steps_def)

lemma receiver_begin_same [simp]:
  "r_total (receiver_begin st) = r_total st" "r_plain (receiver_begin st) = r_plain st"
  "r_received (receiver_begin st) = r_received st" "r_written (receiver_begin st) = r_written st"
  "r_lastAck (receiver_begin st) = r_lastAck st" "r_endSeen (receiver_begin st) = r_endSeen st"
  "r_done (receiver_begin st) = r_done st" "r_failure (receiver_begin st) = r_failure st"
  "r_out (receiver_begin st) = r_out st" "r_sink (receiver_begin st) = r_sink st" "r_over (receiver_begin st) = r_over st"
  by (simp_all add: receiver_begin_def split: option.splits list.splits)

lemma rcv_counts_tail:
  assumes "rcv_counts env fin st" "steps st = q # steps st'" "r_total st' = r_total st" "r_plain st' = r_plain st"
    "r_lastAck st' = r_lastAck st" "r_written st' = r_written st" "r_received st' = r_received st"
    "r_endSeen st' = r_endSeen st" "r_done st' = r_done st"
  shows "rcv_counts env fin st'"
  using assms unfolding rcv_counts_def by (auto split: if_splits)

lemma receiver_begin_inv:
  assumes "rcv_counts env fin st"
  shows "rcv_counts env fin (receiver_begin st)"
proof (cases rule: receiver_begin_cases[of st])
  case same
  then show ?thesis using assms by (simp add: rcv_counts_def)
next
  case (dropped q)
  show ?thesis by (rule rcv_counts_tail[OF assms dropped(2)]) simp_all
qed

lemma receiver_begin_log [simp]: "rcv_log up (receiver_begin st) = rcv_log up st"
  by (simp add: rcv_log_def)

lemma settle_write_inv:
  assumes "rcv_counts env fin st0" "rcv_log up st0" "n > 0" "\<not> r_done st0"
    "r_written st0 + n + length (pending st0) \<le> r_received st0"
  shows "rcv_counts env fin (settle_write up n st0)" "rcv_log up (settle_write up n st0)"
proof -
  define w where "w = r_written st0 + n"
  define st1 where "st1 = st0\<lparr>r_written := r_written st0 + n\<rparr>"
  define st2 where "st2 = st1\<lparr>r_lastAck := r_written st1\<rparr>"
  have bounds: "r_lastAck st0 < r_written st0 + n" "r_written st0 + n \<le> length env" "int (length env) \<le> MAX_SAFE_INTEGER"
    using assms by (auto simp: rcv_counts_def)
  then obtain f where f: "encodeAck (int (r_written st0 + n)) = Inr f"
    by (auto simp: encodeAck_def writeU64_def MAX_SAFE_INTEGER_def)
  have eq: "settle_write up n st0 =
      (if r_lastAck st0 + ackEveryBytes LIMITS \<le> r_written st0 + n \<or> r_written st0 + n = r_total st0
       then if up then st2\<lparr>r_out := r_out st2 @ [f]\<rparr> else receiver_fail up TClosed None st2 else st1)"
    using f unfolding settle_write_def Let_def st1_def st2_def w_def[symmetric]
    by (auto simp: w_def[symmetric])
  have same: "r_failure st2 = r_failure st0" "r_done st2 = r_done st0" "r_endSeen st2 = r_endSeen st0"
    "r_lastAck st2 = r_written st0 + n" "r_out st2 = r_out st0" by (simp_all add: st1_def st2_def)
  have log: "reply_log up (r_failure st0) False (r_lastAck st0) (rlog st0)" using assms(2,4) by (simp add: rcv_log_def)
  have "rcv_counts env fin st2" using assms bounds by (auto simp: rcv_counts_def st1_def st2_def)
  moreover from this have "rcv_counts env fin (st2\<lparr>r_out := r_out st2 @ [f]\<rparr>)" by (simp add: rcv_counts_def)
  moreover have "rcv_counts env fin st1"
    if "\<not> (r_lastAck st0 + ackEveryBytes LIMITS \<le> r_written st0 + n \<or> r_written st0 + n = r_total st0)"
    using assms bounds that by (auto simp: rcv_counts_def st1_def)
  ultimately show "rcv_counts env fin (settle_write up n st0)" unfolding eq by simp
  have "reply_log up (Some (case r_failure st0 of None \<Rightarrow> TClosed | Some e \<Rightarrow> e)) False (r_lastAck st0) (rlog st0)" if "\<not> up"
    using log that reply_log_silent[of up] by (cases "r_failure st0") auto
  then have "rcv_log up (receiver_fail up TClosed None st2)" if "\<not> up"
    using that assms(4) bounds(1) reply_log_ack_lost[of up _ False "r_lastAck st0" "rlog st0" "r_written st0 + n"]
    by (auto simp: rcv_log_def receiver_fail_def same split: option.splits)
  moreover have "rcv_log up (st2\<lparr>r_out := r_out st2 @ [f]\<rparr>)"
    using assms(2) reply_log_ack[OF _ bounds(1)] decode_encodeAck[OF f] by (auto simp: rcv_log_def same)
  moreover have "rcv_log up st1" using assms(2) by (simp add: rcv_log_def st1_def)
  ultimately show "rcv_log up (settle_write up n st0)" unfolding eq by (cases up) simp_all
qed

lemma receiver_settle_inv:
  assumes "rcv_counts env fin st" "rcv_log up st"
  shows "rcv_counts env fin (receiver_settle ops up st)" "rcv_log up (receiver_settle ops up st)"
proof -
  have "rcv_counts env fin (receiver_settle ops up st) \<and> rcv_log up (receiver_settle ops up st)"
  proof (cases "r_busy st")
    case None
    then show ?thesis using assms by (simp add: receiver_settle_def)
  next
    case (Some q)
    define st0 where "st0 s = st\<lparr>r_busy := None, r_sink := s\<rparr>" for s
    have q: "steps st = q # steps (st0 s)" for s using Some by (simp add: steps_def st0_def)
    have counts: "rcv_counts env fin (st0 s)" for s by (rule rcv_counts_tail[OF assms(1) q[of s]]) (simp_all add: st0_def)
    have log: "rcv_log up (st0 s)" for s using assms(2) by (simp add: rcv_log_def st0_def)
    have undone: "\<not> r_done (st0 s)" for s using assms(1) q[of s] by (auto simp: rcv_counts_def st0_def)
    have failed: "rcv_counts env fin (sink_failed up e (st0 s)) \<and> rcv_log up (sink_failed up e (st0 s))" for e s
      using counts rcv_log_fail[OF log, of "Some StopStorage" TStorage s] rcv_log_fail[OF log, of "Some StopFailed" TVerification s]
      by (cases e) (simp_all add: sink_failed_def)
    show ?thesis
    proof (cases q)
      case (WriteStep bs)
      have "bs \<noteq> []" "r_written st + length bs + length (pending (st0 s)) \<le> r_received st" for s
        using assms(1) q[of s] WriteStep by (auto simp: rcv_counts_def)
      then have "rcv_counts env fin (settle_write up (length bs) (st0 s)) \<and> rcv_log up (settle_write up (length bs) (st0 s))" for s
        using settle_write_inv[OF counts log, of "length bs" s] undone by (simp add: st0_def)
      then show ?thesis using failed Some WriteStep
        by (auto simp: receiver_settle_def simp flip: st0_def split: prod.splits option.splits)
    next
      case (EndStep d n)
      have seen: "r_endSeen st" and last: "steps (st0 s) = []" for s
        using assms(1) q[of s] EndStep by (auto simp: rcv_counts_def split: if_splits)
      have "rcv_counts env fin (st0 s\<lparr>r_out := r_out (st0 s) @ [encodeKept], r_done := True\<rparr>)" for s
        using counts[of s] last[of s] by (auto simp: rcv_counts_def st0_def steps_def)
      moreover have "rcv_log up (st0 s\<lparr>r_out := r_out (st0 s) @ [encodeKept], r_done := True\<rparr>)" if up for s
        using log[of s] undone[of s] seen that reply_log_kept by (auto simp: rcv_log_def st0_def)
      moreover have "rcv_log up (receiver_fail up TClosed None (st0 s))" if "\<not> up" for s
        using log that by (intro rcv_log_fail) auto
      ultimately show ?thesis using failed counts Some EndStep
        by (auto simp: receiver_settle_def Let_def simp flip: st0_def split: prod.splits option.splits)
    qed
  qed
  then show "rcv_counts env fin (receiver_settle ops up st)" "rcv_log up (receiver_settle ops up st)" by auto
qed

lemma receiver_exit_inv [simp]:
  "rcv_counts env fin (receiver_exit ops st) = rcv_counts env fin st" "rcv_log up (receiver_exit ops st) = rcv_log up st"
  by (simp_all add: receiver_exit_def rcv_counts_def rcv_log_def)

subsection \<open>What is on its way to the sink\<close>

definition rcv_stream :: "bytes \<Rightarrow> 's receiver \<Rightarrow> bool" where
  "rcv_stream env st \<longleftrightarrow>
     (r_failure st = None \<longrightarrow> pending st = drop (r_written st) (take (r_received st) env) \<and>
        (r_endSeen st \<and> \<not> r_done st \<longrightarrow> (\<exists>d n. EndStep d n \<in> set (steps st))))"

lemma rcv_stream_fail: "rcv_stream env st \<Longrightarrow> rcv_stream env (receiver_fail up e code st)"
  by (cases "r_failure st \<noteq> None \<or> r_done st") (auto simp: rcv_stream_def receiver_fail_def)

lemma rcv_stream_begin: "rcv_stream env st \<Longrightarrow> rcv_stream env (receiver_begin st)"
  by (cases rule: receiver_begin_cases[of st]) (auto simp: rcv_stream_def)

lemma rcv_stream_data:
  assumes "rcv_stream env st" "rcv_counts env fin st" "d = take (length d) (drop (r_received st) env)"
  shows "rcv_stream env (st\<lparr>r_received := r_received st + length d, r_queue := r_queue st @ [WriteStep d]\<rparr>)"
proof -
  have "r_written st \<le> r_received st" "r_received st \<le> length env" using assms(2) by (auto simp: rcv_counts_def)
  moreover have "take (r_received st + length d) env = take (r_received st) env @ d" using assms(3) by (simp add: take_add)
  ultimately show ?thesis using assms(1) by (simp add: rcv_stream_def)
qed

lemma rcv_stream_exit [simp]: "rcv_stream env (receiver_exit ops st) = rcv_stream env st"
  by (simp add: rcv_stream_def receiver_exit_def)

lemma settle_write_simps [simp]:
  "steps (settle_write up n st) = steps st" "r_written (settle_write up n st) = r_written st + n"
  "r_received (settle_write up n st) = r_received st" "r_sink (settle_write up n st) = r_sink st"
  "r_done (settle_write up n st) = r_done st" "r_endSeen (settle_write up n st) = r_endSeen st"
  by (simp_all add: settle_write_def Let_def split: sum.splits)

lemma settle_write_failure: "r_failure (settle_write up n st) = None \<Longrightarrow> r_failure st = None"
  by (auto simp: settle_write_def Let_def receiver_fail_def split: sum.splits if_splits)

text \<open>What settling the step in flight does while the receiver has not failed.\<close>

lemma receiver_settle_cases:
  assumes "r_failure (receiver_settle ops up st) = None" "r_busy st \<noteq> None \<longrightarrow> \<not> r_done st"
  obtains (idle) "r_busy st = None" "receiver_settle ops up st = st"
  | (wrote) bs s where "r_busy st = Some (WriteStep bs)" "sink_write ops (r_sink st) bs = (s, None)"
      "receiver_settle ops up st = settle_write up (length bs) (st\<lparr>r_busy := None, r_sink := s\<rparr>)"
  | (ended) d n s where "r_busy st = Some (EndStep d n)" "sink_end ops (r_sink st) d n = (s, None)"
      "receiver_settle ops up st = st\<lparr>r_busy := None, r_sink := s, r_out := r_out st @ [encodeKept], r_done := True\<rparr>"
proof (cases "r_busy st")
  case (Some q)
  then have undone: "\<not> r_done st" using assms(2) by simp
  have no: "r_failure (receiver_fail up e code (st\<lparr>r_busy := None, r_sink := s\<rparr>)) \<noteq> None"
    "r_failure (sink_failed up er (st\<lparr>r_busy := None, r_sink := s\<rparr>)) \<noteq> None" for e code s er
    using undone by (auto simp: sink_failed_def receiver_fail_def split: sink_error.splits)
  show thesis
  proof (cases q)
    case (WriteStep bs)
    obtain s r where w: "sink_write ops (r_sink st) bs = (s, r)" by force
    have "r = None" using assms(1) no w Some WriteStep by (cases r) (simp_all add: receiver_settle_def)
    then show thesis using wrote[of bs s] w Some WriteStep by (simp add: receiver_settle_def)
  next
    case (EndStep d n)
    obtain s r where w: "sink_end ops (r_sink st) d n = (s, r)" by force
    have "r = None \<and> up" using assms(1) no(1)[of TClosed None s] no(2) w Some EndStep
      by (cases r) (simp_all add: receiver_settle_def Let_def split: if_splits)
    then show thesis using ended[of d n s] w Some EndStep by (simp add: receiver_settle_def)
  qed
qed (use idle in \<open>simp add: receiver_settle_def\<close>)

lemma rcv_stream_settle:
  assumes "rcv_stream env st" "rcv_counts env fin st"
  shows "rcv_stream env (receiver_settle ops up st)"
proof -
  have undone: "r_busy st \<noteq> None \<longrightarrow> \<not> r_done st" using assms(2) by (auto simp: rcv_counts_def steps_def)
  show ?thesis
  proof (cases "r_failure (receiver_settle ops up st) = None")
    case True
    from True undone show ?thesis
    proof (cases rule: receiver_settle_cases)
      case (wrote bs s)
      let ?st0 = "st\<lparr>r_busy := None, r_sink := s\<rparr>"
      have "r_failure st = None" using True settle_write_failure[of up "length bs" ?st0] wrote(3) by simp
      then have "bs @ pending ?st0 = drop (r_written st) (take (r_received st) env)"
        using assms(1) wrote(1) by (simp add: rcv_stream_def steps_def)
      from arg_cong[OF this, of "drop (length bs)"] have "pending ?st0 = drop (r_written st + length bs) (take (r_received st) env)"
        by (simp add: add.commute)
      moreover have "r_endSeen st \<longrightarrow> (\<exists>d n. EndStep d n \<in> set (steps ?st0))"
        using assms(1) wrote(1) undone \<open>r_failure st = None\<close> by (auto simp: rcv_stream_def steps_def)
      ultimately show ?thesis unfolding wrote(3) rcv_stream_def by simp
    next
      case (ended d n s)
      then show ?thesis using assms(1) by (auto simp: rcv_stream_def steps_def)
    qed (use assms(1) in simp)
  qed (auto simp: rcv_stream_def)
qed

end
