(* ===== verification/Transfer_System.thy ===== *)
theory Transfer_System
  imports Transfer_Receiver "HOL-Library.Code_Target_Nat"
begin

text \<open>
  The two ends joined by an ordered, reliable channel, as the data channel of
  \<open>src/direct/peer.ts\<close> is: every frame an end has put on the channel reaches the other end
  once, in order, or not at all. An event of the system is one uninterrupted stretch of either
  end's code, and a run is any list of events: any interleaving, any pacing verdict, any file
  source, and the channel or a person ending things at any moment.

  The invariant says what each end has sent and what the other has made of it; from it
  follow the main results, that two ends running this code never see each other break
  the protocol, and that a sender told KEPT has an envelope the receiver's sink has verified.
\<close>

record 's system =
  y_snd :: sender
  y_rcv :: "'s receiver"
  y_records :: "bytes list"
  y_at_r :: nat
  y_at_s :: nat
  y_s_up :: bool
  y_r_up :: bool

datatype sys_event =
    Turn int nat | MakeRecord | RecordFails bool | BufferLow | CancelS | CloseS | DropS | DeliverS
  | CancelR | CloseR | DropR | DeliverR | BeginStep | SettleStep | ExitR

definition awaits_record :: "sender \<Rightarrow> bool" where
  "awaits_record st \<longleftrightarrow> s_failure st = None \<and> s_sent st < s_total st \<and> s_position st = length (s_current st)"

text \<open>\<open>DropS\<close> and \<open>DropR\<close>: the channel stops taking frames before it says it is closed.\<close>

fun sys_step :: "'s sink_ops \<Rightarrow> 's system \<Rightarrow> sys_event \<Rightarrow> 's system" where
  "sys_step ops y (Turn verdict buffered) = y\<lparr>y_snd := sender_turn (y_s_up y) verdict buffered (y_snd y)\<rparr>"
| "sys_step ops y MakeRecord =
     (if awaits_record (y_snd y) then
        (case y_records y of
           [] \<Rightarrow> y\<lparr>y_snd := sender_record (y_s_up y) NoRecord (y_snd y)\<rparr>
         | r # rs \<Rightarrow> y\<lparr>y_snd := sender_record (y_s_up y) (NextRecord r) (y_snd y), y_records := rs\<rparr>)
      else y)"
| "sys_step ops y (RecordFails aborted) = y\<lparr>y_snd := sender_record (y_s_up y) (RecordThrew aborted) (y_snd y)\<rparr>"
| "sys_step ops y BufferLow = y\<lparr>y_snd := sender_low (y_snd y)\<rparr>"
| "sys_step ops y CancelS = y\<lparr>y_snd := sender_abort (y_s_up y) (y_snd y)\<rparr>"
| "sys_step ops y CloseS = y\<lparr>y_snd := sender_closed False (y_snd y), y_s_up := False\<rparr>"
| "sys_step ops y DropS = y\<lparr>y_s_up := False\<rparr>"
| "sys_step ops y DeliverS =
     (if y_at_s y < length (r_out (y_rcv y))
      then y\<lparr>y_snd := sender_frame (y_s_up y) (r_out (y_rcv y) ! y_at_s y) (y_snd y), y_at_s := Suc (y_at_s y)\<rparr> else y)"
| "sys_step ops y CancelR = y\<lparr>y_rcv := receiver_abort (y_r_up y) (y_rcv y)\<rparr>"
| "sys_step ops y CloseR = y\<lparr>y_rcv := receiver_closed False (y_rcv y), y_r_up := False\<rparr>"
| "sys_step ops y DropR = y\<lparr>y_r_up := False\<rparr>"
| "sys_step ops y DeliverR =
     (if y_at_r y < length (s_out (y_snd y))
      then y\<lparr>y_rcv := receiver_frame (y_r_up y) (s_out (y_snd y) ! y_at_r y) (y_rcv y), y_at_r := Suc (y_at_r y)\<rparr> else y)"
| "sys_step ops y BeginStep = y\<lparr>y_rcv := receiver_begin (y_rcv y)\<rparr>"
| "sys_step ops y SettleStep = y\<lparr>y_rcv := receiver_settle ops (y_r_up y) (y_rcv y)\<rparr>"
| "sys_step ops y ExitR = y\<lparr>y_rcv := receiver_exit ops (y_rcv y)\<rparr>"

definition sys_start :: "nat \<Rightarrow> bool \<Rightarrow> bool \<Rightarrow> bool \<Rightarrow> bool \<Rightarrow> bytes \<Rightarrow> bytes list \<Rightarrow> bytes \<times> nat \<Rightarrow> 's \<Rightarrow> 's system" where
  "sys_start maxMessageSize s_up s_ab r_up r_ab header rs fin sink =
     (let tot = length (header @ concat rs) in
      \<lparr>y_snd = sender_start maxMessageSize s_up s_ab tot header fin,
       y_rcv = receiver_start r_up r_ab tot (int (snd fin)) sink,
       y_records = rs, y_at_r = 0, y_at_s = 0, y_s_up = s_up, y_r_up = r_up\<rparr>)"

definition sys_run :: "'s sink_ops \<Rightarrow> sys_event list \<Rightarrow> 's system \<Rightarrow> 's system" where
  "sys_run ops evs y = foldl (sys_step ops) y evs"

subsection \<open>The invariant\<close>

definition link_r :: "bytes list \<Rightarrow> sender \<Rightarrow> nat \<Rightarrow> 's receiver \<Rightarrow> bool" where
  "link_r ds sn k rc \<longleftrightarrow>
     k \<le> length (s_out sn) \<and> r_received rc \<le> s_sent sn \<and> (r_endSeen rc \<longrightarrow> s_ended sn) \<and>
     (r_failure rc = None \<longrightarrow>
        (if r_endSeen rc then length ds < k else k \<le> length ds \<and> r_received rc = length (concat (take k ds))))"

definition link_s :: "sender \<Rightarrow> nat \<Rightarrow> 's receiver \<Rightarrow> bool" where
  "link_s sn j rc \<longleftrightarrow>
     j \<le> length (r_out rc) \<and> s_acked sn \<le> r_lastAck rc \<and>
     (s_failure sn = None \<and> \<not> s_kept sn \<longrightarrow>
        int (s_acked sn) = last (0 # acks (take j (rlog rc))) \<and>
        Inr Kept \<notin> set (take j (rlog rc)) \<and> (\<forall>c. Inr (Stop c) \<notin> set (take j (rlog rc)))) \<and>
     (s_failure sn = None \<and> s_kept sn \<longrightarrow>
        (\<exists>pre post. rlog rc = pre @ Inr Kept # post \<and> (\<forall>c. Inr (Stop c) \<notin> set pre)))"

text \<open>What each end may fail with on its own account; every other failure is the other end's.\<close>

definition own_failures_s :: "transfer_failure set" where
  "own_failures_s = {TCancelled, TClosed, TFrameSize, TSource}"

definition blamed :: "transfer_failure set \<Rightarrow> transfer_failure option \<Rightarrow> transfer_failure option \<Rightarrow> bool" where
  "blamed own f other \<longleftrightarrow>
     (\<forall>e. f = Some e \<longrightarrow> e \<in> own \<or> (\<exists>c e'. e = failureForStop c \<and> other = Some e' \<and> stop_reason e' = Some c))"

definition sys_inv :: "bytes \<Rightarrow> bytes \<times> nat \<Rightarrow> bytes list \<Rightarrow> 's system \<Rightarrow> bool" where
  "sys_inv env fin ds y \<longleftrightarrow>
     sender_inv env ds (y_records y) (y_snd y) \<and> s_end (y_snd y) = fin \<and>
     rcv_counts env fin (y_rcv y) \<and> rcv_stream env (y_rcv y) \<and> rcv_log (y_r_up y) (y_rcv y) \<and>
     link_r ds (y_snd y) (y_at_r y) (y_rcv y) \<and> link_s (y_snd y) (y_at_s y) (y_rcv y) \<and>
     blamed own_failures_s (s_failure (y_snd y)) (r_failure (y_rcv y)) \<and>
     blamed own_failures_r (r_failure (y_rcv y)) (s_failure (y_snd y))"

subsection \<open>Steps of one end\<close>

definition failed_by :: "transfer_failure set \<Rightarrow> transfer_failure option \<Rightarrow> transfer_failure option \<Rightarrow> bool" where
  "failed_by own f f' \<longleftrightarrow> f' = f \<or> f = None \<and> (\<exists>e\<in>own. f' = Some e)"

lemma blamed_own: "blamed own f other \<Longrightarrow> failed_by own f f' \<Longrightarrow> blamed own f' other"
  by (auto simp: blamed_def failed_by_def)

lemma blamed_other: "blamed own f other \<Longrightarrow> failed_by own' other other' \<Longrightarrow> blamed own f other'"
  by (fastforce simp: blamed_def failed_by_def)

definition sender_progress :: "sender \<Rightarrow> sender \<Rightarrow> bool" where
  "sender_progress st st' \<longleftrightarrow>
     (\<exists>x. s_out st' = s_out st @ x) \<and> s_sent st \<le> s_sent st' \<and> (s_ended st \<longrightarrow> s_ended st') \<and>
     s_acked st' = s_acked st \<and> s_kept st' = s_kept st \<and> s_end st' = s_end st \<and>
     failed_by own_failures_s (s_failure st) (s_failure st')"

definition receiver_progress :: "'s receiver \<Rightarrow> 's receiver \<Rightarrow> bool" where
  "receiver_progress st st' \<longleftrightarrow>
     (\<exists>x. r_out st' = r_out st @ x) \<and> r_received st' = r_received st \<and> r_endSeen st' = r_endSeen st \<and>
     r_lastAck st \<le> r_lastAck st' \<and> failed_by own_failures_r (r_failure st) (r_failure st')"

lemma sys_inv_sender:
  assumes "sys_inv env fin ds y" "sender_inv env (ds @ ds') rs st'" "sender_progress (y_snd y) st'"
    "s_ended (y_snd y) \<Longrightarrow> ds' = []"
  shows "sys_inv env fin (ds @ ds') (y\<lparr>y_snd := st', y_records := rs\<rparr>)"
proof -
  have "link_r (ds @ ds') st' (y_at_r y) (y_rcv y)"
    using assms by (auto simp: sys_inv_def link_r_def sender_progress_def)
  moreover have "link_s st' (y_at_s y) (y_rcv y)"
    using assms(1,3) by (auto simp: sys_inv_def link_s_def sender_progress_def failed_by_def)
  moreover have "blamed own_failures_s (s_failure st') (r_failure (y_rcv y))" "blamed own_failures_r (r_failure (y_rcv y)) (s_failure st')"
    using assms(1,3) by (auto simp: sys_inv_def sender_progress_def intro: blamed_own blamed_other)
  ultimately show ?thesis using assms by (simp add: sys_inv_def sender_progress_def)
qed

lemma link_s_receiver:
  assumes "link_s sn j rc" "r_out rc' = r_out rc @ x" "r_lastAck rc \<le> r_lastAck rc'"
  shows "link_s sn j rc'"
proof -
  have "take j (rlog rc') = take j (rlog rc)" using assms(1,2) by (simp add: link_s_def)
  moreover have "rlog rc = pre @ Inr Kept # post \<Longrightarrow> rlog rc' = pre @ Inr Kept # (post @ map (decodeFrame Receiver) x)" for pre post
    using assms(2) by simp
  ultimately show ?thesis using assms unfolding link_s_def by (auto 0 3)
qed

lemma sys_inv_receiver:
  assumes "sys_inv env fin ds y" "rcv_counts env fin st'" "rcv_stream env st'" "rcv_log up st'" "receiver_progress (y_rcv y) st'"
  shows "sys_inv env fin ds (y\<lparr>y_rcv := st', y_r_up := up\<rparr>)"
proof -
  have "link_r ds (y_snd y) (y_at_r y) st'"
    using assms by (auto simp: sys_inv_def link_r_def receiver_progress_def failed_by_def)
  moreover have "link_s (y_snd y) (y_at_s y) st'"
    using assms(1,5) by (auto simp: sys_inv_def receiver_progress_def intro: link_s_receiver)
  moreover have "blamed own_failures_s (s_failure (y_snd y)) (r_failure st')" "blamed own_failures_r (r_failure st') (s_failure (y_snd y))"
    using assms(1,5) by (auto simp: sys_inv_def receiver_progress_def intro: blamed_own blamed_other)
  ultimately show ?thesis using assms by (simp add: sys_inv_def)
qed

lemma sender_fail_progress: "e \<in> own_failures_s \<Longrightarrow> sender_progress st (sender_fail up e code st)"
  by (auto simp: sender_progress_def sender_fail_def failed_by_def trySend_def split: option.splits)

lemma sender_progress_refl [simp]: "sender_progress st st"
  by (simp add: sender_progress_def failed_by_def)

lemma sender_turn_progress:
  assumes "sender_inv env ds rs st"
  shows "sender_progress st (sender_turn up verdict buffered st)"
proof (rule sender_turn_cases[OF assms refl, of up verdict buffered])
  assume "sender_turn up verdict buffered st = sender_fail up TClosed None st"
  then show ?thesis by (simp add: sender_fail_progress own_failures_s_def)
next
  fix f n st1
  assume up: up and nofail: "s_failure st = None"
    and st1: "st1 = st\<lparr>s_out := s_out st @ [f], s_sent := s_sent st + n, s_position := s_position st + n,
          s_paused := (s_paused st \<or> buffered > highWaterBytes LIMITS)\<rparr>"
    and turn: "sender_turn up verdict buffered st = (if s_sent st1 < s_total st1 then st1 else sender_finish up st1)"
  have "length (fst (s_end st1)) = 32" "int (snd (s_end st1)) \<le> MAX_SAFE_INTEGER" "s_failure st1 = None"
    using assms nofail by (simp_all add: sender_inv_def st1)
  then obtain g where "sender_finish True st1 = st1\<lparr>s_out := s_out st1 @ [g], s_ended := True\<rparr>"
    by (metis sender_finish_out)
  then show ?thesis using up turn nofail by (simp add: sender_progress_def st1 failed_by_def)
qed simp

lemma sender_record_progress: "sender_progress st (sender_record up res st)"
proof -
  have "sender_progress st (st\<lparr>s_current := bs, s_position := 0\<rparr>)" for bs by (simp add: sender_progress_def failed_by_def)
  then show ?thesis by (auto simp: sender_record_def sender_fail_progress own_failures_s_def split: next_record.splits)
qed

lemma sender_quiet_progress:
  "sender_progress st (sender_low st)" "sender_progress st (sender_closed up st)" "sender_progress st (sender_abort up st)"
  by (auto simp: sender_closed_def sender_abort_def sender_fail_progress own_failures_s_def)
    (simp add: sender_progress_def sender_low_def failed_by_def)

lemma receiver_fail_progress: "e \<in> own_failures_r \<Longrightarrow> receiver_progress st (receiver_fail up e code st)"
  by (auto simp: receiver_progress_def receiver_fail_def failed_by_def trySend_def split: option.splits)

lemma receiver_progress_refl [simp]: "receiver_progress st st"
  by (simp add: receiver_progress_def failed_by_def)

lemma receiver_progress_after:
  "receiver_progress st0 st' \<Longrightarrow> r_out st0 = r_out st @ x \<Longrightarrow> r_received st0 = r_received st \<Longrightarrow> r_endSeen st0 = r_endSeen st \<Longrightarrow>
     r_lastAck st \<le> r_lastAck st0 \<Longrightarrow> r_failure st0 = r_failure st \<Longrightarrow> receiver_progress st st'"
  by (auto simp: receiver_progress_def)

lemma settle_write_progress:
  assumes "r_lastAck st \<le> r_written st"
  shows "receiver_progress st (settle_write up n st)"
proof -
  define st1 where "st1 = st\<lparr>r_written := r_written st + n, r_lastAck := r_written st + n\<rparr>"
  have "receiver_progress st (receiver_fail up e code st1)" if "e \<in> own_failures_r" for e code
    by (rule receiver_progress_after[OF receiver_fail_progress[OF that], where x = "[]"]) (use assms in \<open>simp_all add: st1_def\<close>)
  moreover have "receiver_progress st (st1\<lparr>r_out := r_out st1 @ [f]\<rparr>)" for f
    using assms by (simp add: receiver_progress_def failed_by_def st1_def)
  moreover have "receiver_progress st (st\<lparr>r_written := r_written st + n\<rparr>)" by (simp add: receiver_progress_def failed_by_def)
  ultimately show ?thesis unfolding settle_write_def Let_def st1_def own_failures_r_def by (auto split: sum.splits)
qed

lemma receiver_settle_progress:
  assumes "r_lastAck st \<le> r_written st"
  shows "receiver_progress st (receiver_settle ops up st)"
proof -
  define st0 where "st0 s = st\<lparr>r_busy := None, r_sink := s\<rparr>" for s
  have lift: "receiver_progress st st'" if "receiver_progress (st0 s) st'" for s st'
    by (rule receiver_progress_after[OF that, where x = "[]"]) (simp_all add: st0_def)
  have "receiver_progress st (settle_write up n (st0 s))" for n s
    by (rule lift, rule settle_write_progress) (use assms in \<open>simp add: st0_def\<close>)
  moreover have "receiver_progress st (sink_failed up e (st0 s))" "receiver_progress st (receiver_fail up TClosed None (st0 s))" for e s
    by (cases e; rule lift[of s]; simp add: sink_failed_def receiver_fail_progress own_failures_r_def)
      (rule lift[of s], simp add: receiver_fail_progress own_failures_r_def)
  moreover have "receiver_progress st (st0 s\<lparr>r_out := r_out (st0 s) @ [encodeKept], r_done := True\<rparr>)" for s
    by (simp add: receiver_progress_def failed_by_def st0_def)
  ultimately show ?thesis
    by (auto simp: receiver_settle_def Let_def simp flip: st0_def split: option.splits sink_step.splits prod.splits)
qed

lemma receiver_quiet_progress:
  "receiver_progress st (receiver_begin st)" "receiver_progress st (receiver_exit ops st)"
  "receiver_progress st (receiver_closed up st)" "receiver_progress st (receiver_abort up st)"
  by (simp_all add: receiver_closed_def receiver_abort_def receiver_fail_progress own_failures_r_def)
    (simp_all add: receiver_progress_def receiver_exit_def failed_by_def)

subsection \<open>Deliveries\<close>

lemma sent_shape_nth:
  assumes "sent_shape ds ended fin failure log" "k < length log"
  obtains (data) "k < length ds" "log ! k = Inr (Data (int (length (concat (take k ds)))) (ds ! k))"
  | (fin) "k = length ds" "ended" "log ! k = Inr fin"
  | (stop) e c where "length ds \<le> k" "ended \<longrightarrow> length ds < k" "failure = Some e" "stop_reason e = Some c" "log ! k = Inr (Stop c)"
proof -
  obtain stops where log: "log = data_log 0 ds @ (if ended then [Inr fin] else []) @ stops"
    and stops: "stops = [] \<or> (\<exists>e c. failure = Some e \<and> stop_reason e = Some c \<and> stops = [Inr (Stop c)])"
    using assms(1) by (auto simp: sent_shape_def)
  show thesis
  proof (cases "k < length ds")
    case True
    then show thesis using data by (simp add: log nth_append nth_data_log)
  next
    case False
    show thesis
    proof (cases "ended \<and> k = length ds")
      case True
      then show thesis using fin by (simp add: log nth_append)
    next
      case no: False
      obtain e c where s: "failure = Some e" "stop_reason e = Some c" "stops = [Inr (Stop c)]"
        using stops assms(2) no False by (auto simp: log split: if_splits)
      show thesis by (rule stop[OF _ _ s(1,2)]) (use no False assms(2) s(3) in \<open>auto simp: log nth_append split: if_splits\<close>)
    qed
  qed
qed

lemma decoded_data_nonempty: "decodeFrame Sender bs = Inr (Data n d) \<Longrightarrow> d \<noteq> []"
  by (cases bs) (auto simp: decodeFrame_def DATA_HEADER_BYTES_def bindR_def split: if_splits sum.splits)

lemma deliver_r_inv:
  assumes inv: "sys_inv env fin ds y" and k: "y_at_r y < length (s_out (y_snd y))"
  shows "sys_inv env fin ds (sys_step ops y DeliverR) \<and>
    (r_failure (y_rcv y) = None \<and> s_failure (y_snd y) = None \<longrightarrow> r_failure (y_rcv (sys_step ops y DeliverR)) = None)"
    (is "?goal")
proof -
  define st k bs where "st = y_rcv y" and "k = y_at_r y" and "bs = s_out (y_snd y) ! y_at_r y"
  have link: "link_r ds (y_snd y) k st" and counts: "rcv_counts env fin st" and log: "rcv_log (y_r_up y) st"
    and stream: "rcv_stream env st" and snd: "sender_inv env ds (y_records y) (y_snd y)" and link_s: "link_s (y_snd y) (y_at_s y) st"
    and blame: "blamed own_failures_s (s_failure (y_snd y)) (r_failure st)" "blamed own_failures_r (r_failure st) (s_failure (y_snd y))"
    and fin: "s_end (y_snd y) = fin"
    using inv by (auto simp: sys_inv_def st_def k_def)
  have step: "sys_step ops y DeliverR = y\<lparr>y_rcv := receiver_frame (y_r_up y) bs st, y_at_r := Suc k\<rparr>"
    using k by (simp add: st_def k_def bs_def)
  have finish: ?goal
    if "receiver_frame (y_r_up y) bs st = st'" "rcv_counts env fin st'" "rcv_stream env st'" "rcv_log (y_r_up y) st'" "link_r ds (y_snd y) (Suc k) st'"
      "r_out st' = r_out st" "r_lastAck st' = r_lastAck st" "blamed own_failures_s (s_failure (y_snd y)) (r_failure st')"
      "blamed own_failures_r (r_failure st') (s_failure (y_snd y))"
      "r_failure st = None \<and> s_failure (y_snd y) = None \<longrightarrow> r_failure st' = None" for st'
    using that snd fin link_s_receiver[OF link_s, of st' "[]"] unfolding step sys_inv_def st_def[symmetric] by simp
  show ?thesis
  proof (cases "r_failure st \<noteq> None \<or> r_done st")
    case True
    have "r_done st \<longrightarrow> r_endSeen st" using log by (simp add: rcv_log_def)
    then have "link_r ds (y_snd y) (Suc k) st" using link k True by (auto simp: link_r_def k_def)
    then show ?thesis using True counts stream log blame by (intro finish[of st]) (simp_all add: receiver_frame_def)
  next
    case False
    then have undone: "\<not> r_done st" by simp
    have kk: "k < length (s_out (y_snd y))" using k by (simp add: k_def)
    have shape: "sent_shape ds (s_ended (y_snd y)) (End (fst fin) (int (snd fin))) (s_failure (y_snd y)) (slog (y_snd y))"
      using snd fin by (simp add: sender_inv_def)
    have "k < length (slog (y_snd y))" using k by (simp add: k_def)
    from shape this consider (1) "k < length ds" "slog (y_snd y) ! k = Inr (Data (int (length (concat (take k ds)))) (ds ! k))"
      | (2) "k = length ds" "s_ended (y_snd y)" "slog (y_snd y) ! k = Inr (End (fst fin) (int (snd fin)))"
      | (3) e c where "s_failure (y_snd y) = Some e" "stop_reason e = Some c" "slog (y_snd y) ! k = Inr (Stop c)"
      by (cases rule: sent_shape_nth)
    then show ?thesis
    proof cases
      case 1
      then have d: "decodeFrame Sender bs = Inr (Data (int (length (concat (take k ds)))) (ds ! k))"
        using k by (simp add: bs_def k_def)
      have seen: "\<not> r_endSeen st" "r_received st = length (concat (take k ds))"
        using link 1 False by (auto simp: link_r_def split: if_splits)
      have cat: "r_received st + length (ds ! k) = length (concat (take (Suc k) ds))"
        using 1 seen by (simp add: take_Suc_conv_app_nth)
      have "length (concat (take (Suc k) ds)) \<le> length (concat ds)"
        by (metis append_take_drop_id concat_append length_append le_add1)
      moreover have cat_ds: "concat ds = take (s_sent (y_snd y)) env" and "s_sent (y_snd y) \<le> length env"
        "s_sent (y_snd y) \<le> s_acked (y_snd y) + unacknowledgedBytes LIMITS" "s_acked (y_snd y) \<le> r_lastAck st"
        using snd link_s by (auto simp: sender_inv_def link_s_def)
      ultimately have le: "r_received st + length (ds ! k) \<le> s_sent (y_snd y)" "r_received st + length (ds ! k) \<le> length env"
        "r_received st + length (ds ! k) \<le> r_lastAck st + unacknowledgedBytes LIMITS" by (auto simp: cat)
      note acc = receiver_data_accept[OF counts seen(1) undone _ decoded_data_nonempty[OF d] le(2,3), of "int (length (concat (take k ds)))" "y_r_up y"]
      have acc: "receiver_data (y_r_up y) (int (length (concat (take k ds)))) (ds ! k) st =
          st\<lparr>r_received := r_received st + length (ds ! k), r_queue := r_queue st @ [WriteStep (ds ! k)]\<rparr>"
        "rcv_counts env fin (receiver_data (y_r_up y) (int (length (concat (take k ds)))) (ds ! k) st)"
        "rcv_log (y_r_up y) (receiver_data (y_r_up y) (int (length (concat (take k ds)))) (ds ! k) st)"
        using acc seen(2) log by simp_all
      have "ds ! k = take (length (ds ! k)) (drop (length (concat (take k ds))) (concat ds))"
        using 1(1) by (subst (2) id_take_nth_drop[OF 1(1)]) simp
      moreover have "length (concat (take k ds)) + length (ds ! k) \<le> s_sent (y_snd y)" using le(1) seen(2) by simp
      ultimately have chunk: "ds ! k = take (length (ds ! k)) (drop (length (concat (take k ds))) env)"
        using cat_ds by (simp add: drop_take min_absorb1 le_diff_conv2)
      show ?thesis
      proof (rule finish)
        show "receiver_frame (y_r_up y) bs st = receiver_data (y_r_up y) (int (length (concat (take k ds)))) (ds ! k) st"
          using False d by (simp add: receiver_frame_def)
        show "rcv_stream env (receiver_data (y_r_up y) (int (length (concat (take k ds)))) (ds ! k) st)"
          using rcv_stream_data[OF stream counts, of "ds ! k"] chunk seen(2) by (simp add: acc(1))
        show "link_r ds (y_snd y) (Suc k) (receiver_data (y_r_up y) (int (length (concat (take k ds)))) (ds ! k) st)"
          unfolding acc(1) link_r_def using link le(1) 1(1) kk seen cat False by (simp add: link_r_def)
      qed (use acc(2,3) blame in \<open>simp_all add: acc(1)\<close>)
    next
      case 2
      then have d: "decodeFrame Sender bs = Inr (End (fst fin) (int (snd fin)))" using k by (simp add: bs_def k_def)
      have seen: "\<not> r_endSeen st" "r_received st = length (concat ds)"
        using link 2 False by (auto simp: link_r_def split: if_splits)
      then have "r_received st = length env" using snd 2 by (auto simp: sender_inv_def)
      note acc = receiver_end_accept[OF counts seen(1) _ this refl refl, of "y_r_up y"]
      show ?thesis
      proof (rule finish)
        show "receiver_frame (y_r_up y) bs st = receiver_end (y_r_up y) (fst fin) (int (snd fin)) st"
          using False d by (simp add: receiver_frame_def)
        show "rcv_stream env (receiver_end (y_r_up y) (fst fin) (int (snd fin)) st)"
          using stream by (auto simp: acc(1)[OF undone] rcv_stream_def)
        show "link_r ds (y_snd y) (Suc k) (receiver_end (y_r_up y) (fst fin) (int (snd fin)) st)"
          unfolding acc(1)[OF undone] link_r_def using link 2(1,2) kk False by (simp add: link_r_def)
      qed (use acc(2,3) log blame undone in \<open>simp_all add: acc(1)\<close>)
    next
      case (3 e c)
      then have d: "decodeFrame Sender bs = Inr (Stop c)" using k by (simp add: bs_def k_def)
      show ?thesis
      proof (rule finish)
        show "receiver_frame (y_r_up y) bs st = receiver_fail (y_r_up y) (failureForStop c) None st"
          using False d by (simp add: receiver_frame_def)
        show "rcv_log (y_r_up y) (receiver_fail (y_r_up y) (failureForStop c) None st)"
          by (rule rcv_log_fail[OF log]) simp_all
        show "link_r ds (y_snd y) (Suc k) (receiver_fail (y_r_up y) (failureForStop c) None st)"
          using link kk False by (auto simp: link_r_def receiver_fail_def)
      qed (use counts blame 3 False stream in \<open>auto simp: receiver_fail_def blamed_def rcv_counts_def rcv_stream_def steps_def\<close>)
    qed
  qed
qed

lemma sorted_acks_split:
  assumes "sorted_wrt (<) (0 # xs @ n # ys)"
  shows "last (0 # xs) < (n :: int)" "n \<le> last (0 # xs @ n # ys)"
proof -
  have "n \<le> last (n # ys)" using assms by (cases ys rule: rev_cases) (auto simp: sorted_wrt_append)
  then show "n \<le> last (0 # xs @ n # ys)" by simp
  show "last (0 # xs) < n" using assms by (cases xs rule: rev_cases) (auto simp: sorted_wrt_append)
qed

lemma deliver_s_inv:
  assumes inv: "sys_inv env fin ds y" and j: "y_at_s y < length (r_out (y_rcv y))"
  shows "sys_inv env fin ds (sys_step ops y DeliverS)"
proof -
  define st j bs where "st = y_snd y" and "j = y_at_s y" and "bs = r_out (y_rcv y) ! y_at_s y"
  let ?rc = "y_rcv y" and ?log = "rlog (y_rcv y)"
  have jj: "j < length (r_out ?rc)" and bs: "bs = r_out ?rc ! j" using j by (simp_all add: j_def bs_def)
  have link: "link_s st j ?rc" and counts: "rcv_counts env fin ?rc" and log: "rcv_log (y_r_up y) ?rc"
    and stream: "rcv_stream env ?rc" and snd: "sender_inv env ds (y_records y) st" and link_r: "link_r ds st (y_at_r y) ?rc" and fin: "s_end st = fin"
    and blame: "blamed own_failures_s (s_failure st) (r_failure ?rc)" "blamed own_failures_r (r_failure ?rc) (s_failure st)"
    using inv by (auto simp: sys_inv_def st_def j_def)
  have step: "sys_step ops y DeliverS = y\<lparr>y_snd := sender_frame (y_s_up y) bs st, y_at_s := Suc j\<rparr>"
    using j by (simp add: st_def j_def bs_def)
  have finish: "sys_inv env fin ds (sys_step ops y DeliverS)"
    if "sender_frame (y_s_up y) bs st = st'" "link_s st' (Suc j) ?rc" "s_out st' = s_out st" "s_sent st' = s_sent st"
      "s_ended st' = s_ended st" "s_end st' = s_end st" "blamed own_failures_s (s_failure st') (r_failure ?rc)"
      "blamed own_failures_r (r_failure ?rc) (s_failure st')" for st'
    using that counts stream log fin sender_frame_inv[OF snd, of "y_s_up y" bs] link_r unfolding step sys_inv_def link_r_def by simp
  show ?thesis
  proof (cases "s_failure st \<noteq> None \<or> s_kept st")
    case True
    then show ?thesis using link jj blame by (intro finish[of st]) (auto simp: sender_frame_def link_s_def)
  next
    case False
    have take: "take (Suc j) ?log = take j ?log @ [decodeFrame Receiver bs]"
      using jj by (simp add: bs take_Suc_conv_app_nth take_map)
    have split: "?log = take j ?log @ decodeFrame Receiver bs # drop (Suc j) ?log"
      using id_take_nth_drop[of j ?log] jj unfolding bs by simp
    have acked: "int (s_acked st) = last (0 # acks (take j ?log))" and clean: "Inr Kept \<notin> set (take j ?log)"
      "Inr (Stop c) \<notin> set (take j ?log)" for c using link False by (auto simp: link_s_def)
    have "decodeFrame Receiver bs \<in> set ?log" using jj by (auto simp: bs)
    then consider n where "decodeFrame Receiver bs = Inr (Ack n)" | "decodeFrame Receiver bs = Inr Kept" "r_done ?rc"
      | c e where "decodeFrame Receiver bs = Inr (Stop c)" "r_failure ?rc = Some e" "stop_reason e = Some c"
      using log reply_log_cases unfolding rcv_log_def by blast
    then show ?thesis
    proof cases
      case (1 n)
      have "acks ?log = acks (take j ?log) @ n # acks (drop (Suc j) ?log)" using arg_cong[OF split, of acks] 1 by simp
      then have "sorted_wrt (<) (0 # acks (take j ?log) @ n # acks (drop (Suc j) ?log))"
        "last (0 # acks (take j ?log) @ n # acks (drop (Suc j) ?log)) \<le> int (r_lastAck ?rc)"
        using log unfolding rcv_log_def reply_log_def by simp_all
      then have n: "int (s_acked st) < n" "n \<le> int (r_lastAck ?rc)" using sorted_acks_split acked by fastforce+
      moreover have "r_lastAck ?rc \<le> s_sent st" using counts link_r by (simp add: rcv_counts_def link_r_def)
      ultimately have fr: "sender_frame (y_s_up y) bs st = st\<lparr>s_acked := nat n\<rparr>" using False 1 by (simp add: sender_frame_def)
      have "link_s (st\<lparr>s_acked := nat n\<rparr>) (Suc j) ?rc"
        unfolding link_s_def take using n jj False clean by (simp add: 1)
      then show ?thesis using blame fr by (intro finish[OF fr]) simp_all
    next
      case 2
      then have "s_ended st" using log link_r by (simp add: rcv_log_def link_r_def)
      then have fr: "sender_frame (y_s_up y) bs st = st\<lparr>s_kept := True\<rparr>" using False 2 by (simp add: sender_frame_def)
      have "\<exists>pre post. ?log = pre @ Inr Kept # post \<and> (\<forall>c. Inr (Stop c) \<notin> set pre)"
        using split 2(1) clean(2) by metis
      then have "link_s (st\<lparr>s_kept := True\<rparr>) (Suc j) ?rc" using link jj unfolding link_s_def by simp
      then show ?thesis using blame fr by (intro finish[OF fr]) simp_all
    next
      case (3 c e)
      then have fr: "sender_frame (y_s_up y) bs st = sender_fail (y_s_up y) (failureForStop c) None st"
        using False by (simp add: sender_frame_def)
      show ?thesis using link jj blame 3 False
        by (intro finish[OF fr]) (auto simp: sender_fail_def link_s_def blamed_def)
    qed
  qed
qed

subsection \<open>Every run keeps the invariant\<close>

lemma sys_step_inv:
  assumes inv: "sys_inv env fin ds y"
  obtains ds' where "sys_inv env fin ds' (sys_step ops y ev)"
proof -
  have snd: "sender_inv env ds (y_records y) (y_snd y)" and counts: "rcv_counts env fin (y_rcv y)"
    and stream: "rcv_stream env (y_rcv y)" and log: "rcv_log (y_r_up y) (y_rcv y)" using inv by (auto simp: sys_inv_def)
  have le: "r_lastAck (y_rcv y) \<le> r_written (y_rcv y)" using counts by (simp add: rcv_counts_def)
  note snd_step = sys_inv_sender[OF inv, where ds' = "[]", simplified]
  note rcv_step = sys_inv_receiver[OF inv]
  have snd_ok: "sys_inv env fin ds (y\<lparr>y_snd := st'\<rparr>)"
    if "sender_inv env ds (y_records y) st'" "sender_progress (y_snd y) st'" for st'
    using snd_step[OF that] by simp
  have rcv_ok: "sys_inv env fin ds (y\<lparr>y_rcv := st'\<rparr>)"
    if "rcv_counts env fin st'" "rcv_stream env st'" "rcv_log (y_r_up y) st'" "receiver_progress (y_rcv y) st'" for st'
    using rcv_step[OF that] by simp
  have flags: "sys_inv env fin ds (y'\<lparr>y_s_up := b\<rparr>) = sys_inv env fin ds y'" for y' :: "'a system" and b
    by (simp add: sys_inv_def)
  show thesis
  proof (cases ev)
    case (Turn verdict buffered)
    obtain ds' where "sender_inv env (ds @ ds') (y_records y) (sender_turn (y_s_up y) verdict buffered (y_snd y))"
      "s_ended (y_snd y) \<longrightarrow> ds' = []" by (rule sender_turn_inv[OF snd, of "y_s_up y" verdict buffered]) auto
    then show thesis using sys_inv_sender[OF inv _ sender_turn_progress[OF snd]] that Turn by fastforce
  next
    case MakeRecord
    show thesis
    proof (cases "awaits_record (y_snd y)")
      case True
      show thesis
      proof (cases "y_records y")
        case Nil
        have "sys_inv env fin ds (y\<lparr>y_snd := sender_record (y_s_up y) NoRecord (y_snd y)\<rparr>)"
          by (rule snd_ok[OF sender_record_failed_inv[OF snd] sender_record_progress]) simp
        then show thesis using True that[of ds] MakeRecord Nil by simp
      next
        case (Cons r rs)
        have "sender_inv env ds rs (sender_record (y_s_up y) (NextRecord r) (y_snd y))"
          by (rule sender_record_inv) (use snd Cons True in \<open>simp_all add: awaits_record_def\<close>)
        then show thesis using True that[of ds] MakeRecord Cons snd_step[OF _ sender_record_progress] by simp
      qed
    qed (use that[of ds] inv MakeRecord in simp)
  next
    case DeliverS
    then show thesis using that[of ds] deliver_s_inv[OF inv, of ops] inv by (cases "y_at_s y < length (r_out (y_rcv y))") simp_all
  next
    case DeliverR
    then show thesis using that[of ds] deliver_r_inv[OF inv, where ops = ops] inv by (cases "y_at_r y < length (s_out (y_snd y))") simp_all
  next
    case DropR
    then show thesis using that[of ds] rcv_step[OF counts stream rcv_log_down[OF log]] by simp
  next
    case CloseR
    have "rcv_log False (receiver_closed False (y_rcv y))"
      using rcv_log_down[OF log] by (auto simp: receiver_closed_def intro!: rcv_log_fail)
    then show thesis using that[of ds] rcv_step[OF _ _ _ receiver_quiet_progress(3)] counts stream CloseR
      by (simp add: receiver_closed_def rcv_stream_fail)
  next
    case CancelR
    have "rcv_log (y_r_up y) (receiver_abort (y_r_up y) (y_rcv y))"
      using log by (auto simp: receiver_abort_def intro!: rcv_log_fail)
    then show thesis using that[of ds] rcv_ok[OF _ _ _ receiver_quiet_progress(4)] counts stream CancelR
      by (simp add: receiver_abort_def rcv_stream_fail)
  next
    case SettleStep
    then show thesis using that[of ds] rcv_ok[OF receiver_settle_inv(1)[OF counts log] rcv_stream_settle[OF stream counts] receiver_settle_inv(2)[OF counts log] receiver_settle_progress[OF le]] by simp
  next
    case BeginStep
    then show thesis using that[of ds] rcv_ok[OF receiver_begin_inv[OF counts] rcv_stream_begin[OF stream] _ receiver_quiet_progress(1)] log by simp
  next
    case ExitR
    then show thesis using that[of ds] rcv_ok[OF _ _ _ receiver_quiet_progress(2)] log counts stream by simp
  next
    case CloseS
    then show thesis using that[of ds] flags snd_ok[OF sender_quiet_inv(2)[OF snd] sender_quiet_progress(2)] by simp
  qed (use that[of ds] inv flags snd_ok sender_quiet_inv[OF snd] sender_quiet_progress sender_record_progress
      sender_record_failed_inv[OF snd] in auto)
qed


lemma sys_start_inv:
  assumes "env = header @ concat rs" "header \<noteq> []" "int (length env) \<le> MAX_SAFE_INTEGER"
    "length (fst fin) = 32" "int (snd fin) \<le> MAX_SAFE_INTEGER"
  shows "sys_inv env fin [] (sys_start maxMessageSize s_up s_ab r_up r_ab header rs fin sink)"
proof -
  have env: "length env = length (header @ concat rs)" using assms(1) by simp
  define sn where "sn = sender_start maxMessageSize s_up s_ab (length env) header fin"
  define rc where "rc = receiver_start r_up r_ab (length env) (int (snd fin)) sink"
  have "sender_inv env [] rs sn" unfolding sn_def by (rule sender_start_inv) (use assms in auto)
  moreover have "s_end sn = fin" "s_sent sn = 0" "s_acked sn = 0" "\<not> s_kept sn" "blamed own_failures_s (s_failure sn) f" for f
    by (auto simp: sn_def sender_start_def sender_fail_def sender_abort_def Let_def blamed_def own_failures_s_def)
  moreover define rc0 where "rc0 = \<lparr>r_total = length env, r_plain = int (snd fin), r_received = 0, r_written = 0, r_lastAck = 0,
    r_endSeen = False, r_done = False, r_failure = None, r_queue = [], r_busy = None, r_out = [], r_sink = sink, r_over = False\<rparr>"
  have rc: "rc = (let st1 = if r_ab then receiver_abort r_up rc0 else rc0 in if \<not> r_up then receiver_fail r_up TClosed None st1 else st1)"
    by (simp add: rc_def rc0_def receiver_start_def Let_def)
  have rc0: "rcv_counts env fin rc0" "rcv_stream env rc0" "rcv_log r_up rc0"
    using assms(2,3) by (auto simp: rcv_counts_def rcv_stream_def rcv_log_def reply_log_def rc0_def steps_def)
  have "rcv_counts env fin rc" "rcv_stream env rc" using rc0 by (auto simp: rc Let_def receiver_abort_def rcv_stream_fail)
  moreover have "rcv_log r_up (receiver_abort r_up rc0)" using rc0(3) by (auto simp: receiver_abort_def intro!: rcv_log_fail)
  then have "rcv_log r_up rc" using rc0(3) by (auto simp: rc Let_def intro!: rcv_log_fail)
  moreover have "blamed own_failures_r (r_failure rc) f" "r_received rc = 0" "\<not> r_endSeen rc" for f
    by (auto simp: rc rc0_def receiver_fail_def receiver_abort_def Let_def blamed_def own_failures_r_def)
  moreover have "sys_start maxMessageSize s_up s_ab r_up r_ab header rs fin sink =
      \<lparr>y_snd = sn, y_rcv = rc, y_records = rs, y_at_r = 0, y_at_s = 0, y_s_up = s_up, y_r_up = r_up\<rparr>"
    by (simp add: sys_start_def sn_def rc_def env Let_def)
  ultimately show ?thesis by (simp add: sys_inv_def link_r_def link_s_def)
qed

lemma sys_run_inv:
  assumes "sys_inv env fin ds y"
  obtains ds' where "sys_inv env fin ds' (sys_run ops evs y)"
  using assms
proof (induction evs arbitrary: ds y thesis)
  case (Cons ev evs)
  obtain ds' where "sys_inv env fin ds' (sys_step ops y ev)" by (rule sys_step_inv[OF Cons.prems(2)])
  then obtain ds'' where "sys_inv env fin ds'' (sys_run ops evs (sys_step ops y ev))" by (rule Cons.IH[rotated])
  then show ?case by (intro Cons.prems(1)[of ds'']) (simp add: sys_run_def)
qed (simp add: sys_run_def)


subsection \<open>Two honest ends\<close>

definition honest_file :: "bytes \<Rightarrow> bytes list \<Rightarrow> bytes \<times> nat \<Rightarrow> bool" where
  "honest_file header rs fin \<longleftrightarrow>
     header \<noteq> [] \<and> int (length (header @ concat rs)) \<le> MAX_SAFE_INTEGER \<and> length (fst fin) = 32 \<and>
     int (snd fin) \<le> MAX_SAFE_INTEGER"

lemma honest_run_inv:
  assumes "honest_file header rs fin"
  obtains ds where "sys_inv (header @ concat rs) fin ds (sys_run ops evs (sys_start m su sa ru ra header rs fin sink))"
  using assms sys_run_inv[OF sys_start_inv[OF refl], of header rs fin] unfolding honest_file_def by metis

lemma blamed_peer:
  assumes "blamed own f other" "blamed own' other f" "f = Some e"
  shows "e \<in> own \<or> (\<exists>c e'. e = failureForStop c \<and> other = Some e' \<and> e' \<in> own' \<and> stop_reason e' = Some c)"
  using assms unfolding blamed_def by (metis stop_reason_failureForStop option.distinct(1))

text \<open>
  Property C5: a sending and a receiving end that run this code never see each other break the
  protocol, whatever the interleaving, the pacing, the sink, the file source and the channel do:
  neither ends with a protocol failure. Each end's failure is its own (a cancellation, a lost
  channel, too small a frame or an unreadable file at the sender; a cancellation, a lost
  channel, a refusal or a full store at the receiver), or is the other's, and then it reports
  exactly what happened at the other end.
\<close>

theorem honest_ends_agree:
  assumes "honest_file header rs fin" and "y = sys_run ops evs (sys_start m su sa ru ra header rs fin sink)"
  shows "(\<forall>e. s_failure (y_snd y) = Some e \<longrightarrow> e \<in> {TCancelled, TClosed, TFrameSize, TSource} \<or>
        (e, r_failure (y_rcv y)) \<in> {(TPeerCancelled, Some TCancelled), (TPeerStorage, Some TStorage), (TPeerFailed, Some TVerification)}) \<and>
      (\<forall>e. r_failure (y_rcv y) = Some e \<longrightarrow> e \<in> {TCancelled, TClosed, TVerification, TStorage} \<or>
        (e, s_failure (y_snd y)) \<in> {(TPeerCancelled, Some TCancelled), (TPeerFailed, Some TFrameSize), (TPeerFailed, Some TSource)})"
proof -
  obtain ds where "sys_inv (header @ concat rs) fin ds y" unfolding assms(2) by (rule honest_run_inv[OF assms(1)])
  then have b: "blamed own_failures_s (s_failure (y_snd y)) (r_failure (y_rcv y))"
    "blamed own_failures_r (r_failure (y_rcv y)) (s_failure (y_snd y))" by (simp_all add: sys_inv_def)
  show ?thesis
  proof (intro conjI allI impI)
    fix e assume "s_failure (y_snd y) = Some e"
    from blamed_peer[OF b this] show "e \<in> {TCancelled, TClosed, TFrameSize, TSource} \<or>
        (e, r_failure (y_rcv y)) \<in> {(TPeerCancelled, Some TCancelled), (TPeerStorage, Some TStorage), (TPeerFailed, Some TVerification)}"
      by (auto simp: own_failures_s_def own_failures_r_def)
  next
    fix e assume "r_failure (y_rcv y) = Some e"
    from blamed_peer[OF b(2,1) this] show "e \<in> {TCancelled, TClosed, TVerification, TStorage} \<or>
        (e, s_failure (y_snd y)) \<in> {(TPeerCancelled, Some TCancelled), (TPeerFailed, Some TFrameSize), (TPeerFailed, Some TSource)}"
      by (auto simp: own_failures_s_def own_failures_r_def)
  qed
qed

lemma sys_inv_window:
  assumes "sys_inv env fin ds y"
  shows "s_acked (y_snd y) \<le> r_written (y_rcv y) \<and> r_written (y_rcv y) \<le> r_received (y_rcv y) \<and>
    r_received (y_rcv y) \<le> s_sent (y_snd y) \<and> s_sent (y_snd y) \<le> length env \<and>
    s_sent (y_snd y) - s_acked (y_snd y) \<le> 8388608 \<and> length (pending (y_rcv y)) \<le> 8388608"
proof -
  have c: "rcv_counts env fin (y_rcv y)" using assms by (simp add: sys_inv_def)
  have "s_acked (y_snd y) \<le> r_lastAck (y_rcv y)" "r_received (y_rcv y) \<le> s_sent (y_snd y)"
    "s_sent (y_snd y) \<le> length env" "s_sent (y_snd y) \<le> s_acked (y_snd y) + 8388608"
    using assms by (simp_all add: sys_inv_def sender_inv_def link_s_def link_r_def)
  moreover have "r_lastAck (y_rcv y) \<le> r_written (y_rcv y)" "r_written (y_rcv y) + length (pending (y_rcv y)) \<le> r_received (y_rcv y)"
    "r_received (y_rcv y) \<le> r_lastAck (y_rcv y) + 8388608" using c by (simp_all add: rcv_counts_def)
  ultimately show ?thesis by linarith
qed

text \<open>
  Property C10: at every moment of every run the counts of the two ends are ordered, acknowledged
  at most written at most received at most sent at most the envelope, and what is beyond the last
  acknowledgement, which is all that either end has to hold, is at most 8 MiB.
\<close>

theorem transfer_window:
  assumes "honest_file header rs fin" and "y = sys_run ops evs (sys_start m su sa ru ra header rs fin sink)"
  shows "s_acked (y_snd y) \<le> r_written (y_rcv y) \<and> r_written (y_rcv y) \<le> r_received (y_rcv y) \<and>
    r_received (y_rcv y) \<le> s_sent (y_snd y) \<and> s_sent (y_snd y) \<le> length (header @ concat rs) \<and>
    s_sent (y_snd y) - s_acked (y_snd y) \<le> 8 * 1024 * 1024 \<and>
    length (concat (map step_bytes (steps (y_rcv y)))) \<le> 8 * 1024 * 1024"
proof -
  obtain ds where "sys_inv (header @ concat rs) fin ds y" unfolding assms(2) by (rule honest_run_inv[OF assms(1)])
  from sys_inv_window[OF this] show ?thesis by simp
qed

lemma sys_inv_no_stall:
  assumes "sys_inv env fin ds y" "env \<noteq> []"
    and "s_failure (y_snd y) = None" "r_failure (y_rcv y) = None" "y_s_up y"
    and "y_at_r y = length (s_out (y_snd y))" "y_at_s y = length (r_out (y_rcv y))" "steps (y_rcv y) = []"
  shows "s_kept (y_snd y) \<or> awaits_record (y_snd y) \<or> s_paused (y_snd y) \<or>
    s_sent (y_snd y) < s_sent (sender_turn (y_s_up y) (protocolPacing (s_sent (y_snd y) - s_acked (y_snd y)) (s_paused (y_snd y))) buffered (y_snd y))"
proof -
  let ?sn = "y_snd y" and ?rc = "y_rcv y"
  have snd: "sender_inv env ds (y_records y) ?sn" and counts: "rcv_counts env fin ?rc" and stream: "rcv_stream env ?rc"
    and log: "rcv_log (y_r_up y) ?rc" and link: "link_r ds ?sn (y_at_r y) ?rc" "link_s ?sn (y_at_s y) ?rc"
    using assms(1) by (auto simp: sys_inv_def)
  have shape: "slog ?sn = data_log 0 ds @ (if s_ended ?sn then [Inr (End (fst (s_end ?sn)) (int (snd (s_end ?sn))))] else [])"
    using snd assms(3) by (auto simp: sender_inv_def sent_shape_def)
  have n: "length (s_out ?sn) = length ds + (if s_ended ?sn then 1 else 0)" using arg_cong[OF shape, of length] by simp
  show ?thesis
  proof (cases "s_ended ?sn")
    case True
    then have "r_endSeen ?rc" using link(1) n assms(4,6) by (auto simp: link_r_def split: if_splits)
    then have "r_done ?rc" using stream assms(4,8) by (auto simp: rcv_stream_def)
    then have "Inr Kept \<in> set (rlog ?rc)" using log by (simp add: rcv_log_def reply_log_def)
    then show ?thesis using link(2) assms(3,7) by (auto simp: link_s_def)
  next
    case False
    then have unseen: "\<not> r_endSeen ?rc" using link(1) by (auto simp: link_r_def)
    then have "r_received ?rc = length (concat ds)" using link(1) n assms(4,6) False by (simp add: link_r_def)
    then have rec: "r_received ?rc = s_sent ?sn" using snd by (simp add: sender_inv_def)
    have "drop (r_written ?rc) (take (r_received ?rc) env) = []" using stream assms(4,8) by (simp add: rcv_stream_def)
    then have wr: "r_written ?rc = s_sent ?sn" using counts rec by (simp add: rcv_counts_def)
    have "last (0 # acks (rlog ?rc)) = int (r_lastAck ?rc)" using log assms(4) by (simp add: rcv_log_def reply_log_def)
    then have ack: "\<not> s_kept ?sn \<Longrightarrow> s_acked ?sn = r_lastAck ?rc" using link(2) assms(3,7) by (simp add: link_s_def)
    have less: "s_sent ?sn < s_total ?sn" using snd assms(2,3) False by (auto simp: sender_inv_def)
    show ?thesis
    proof (rule ccontr)
      assume neg: "\<not> ?thesis"
      then have pos: "s_position ?sn < length (s_current ?sn)" using less assms(3) snd by (auto simp: awaits_record_def sender_inv_def)
      define v where "v = protocolPacing (s_sent ?sn - s_acked ?sn) (s_paused ?sn)"
      have "s_sent ?sn < s_acked ?sn + ackEveryBytes LIMITS" using ack neg counts wr by (simp add: rcv_counts_def)
      then have allowed: "0 < allowed_bytes v ?sn" using neg by (auto simp: v_def allowed_bytes_def protocolPacing_def)
      from sender_turn_sends[OF snd assms(3) less pos this] show False using neg assms(5) by (simp add: v_def)
    qed
  qed
qed

text \<open>
  Property C11: a transfer never stalls on its own. Whenever neither end has failed, every frame
  sent has been delivered and the receiver's queue is empty, then the sender has been told KEPT,
  or is waiting for its next record, or its send buffer is over the high-water mark, or its next
  turn under the protocol's pacing rule puts more of the envelope on the channel.
\<close>

theorem transfer_never_stalls:
  assumes "honest_file header rs fin" and "y = sys_run ops evs (sys_start m su sa ru ra header rs fin sink)"
    and "s_failure (y_snd y) = None" "r_failure (y_rcv y) = None" "y_s_up y"
    and "y_at_r y = length (s_out (y_snd y))" "y_at_s y = length (r_out (y_rcv y))" "steps (y_rcv y) = []"
  shows "s_kept (y_snd y) \<or> awaits_record (y_snd y) \<or> s_paused (y_snd y) \<or>
    s_sent (y_snd y) < s_sent (sender_turn (y_s_up y) (protocolPacing (s_sent (y_snd y) - s_acked (y_snd y)) (s_paused (y_snd y))) buffered (y_snd y))"
proof -
  obtain ds where inv: "sys_inv (header @ concat rs) fin ds y" unfolding assms(2) by (rule honest_run_inv[OF assms(1)])
  have "header @ concat rs \<noteq> []" using assms(1) by (simp add: honest_file_def)
  from sys_inv_no_stall[OF inv this assms(3-)] show ?thesis .
qed

text \<open>A three-byte envelope and a sink that takes everything, for the witnesses.\<close>

definition sample_ops :: "bytes sink_ops" where
  "sample_ops = \<lparr>sink_write = (\<lambda>s bs. (s @ bs, None)), sink_end = (\<lambda>s d n. (s, None)), sink_abort = (\<lambda>s. [])\<rparr>"

definition sample_start :: "bytes system" where
  "sample_start = sys_start 16384 True False True False [1, 2] [[3]] (replicate 32 0, 1) []"

lemma sample_honest: "honest_file [1, 2] [[3]] (replicate 32 0, 1)"
  by (simp add: honest_file_def MAX_SAFE_INTEGER_def)

lemma sample_cancelled:
  "s_failure (y_snd (sys_run sample_ops [Turn 9 0, DeliverR, CancelR, BeginStep, DeliverS] sample_start)) = Some TPeerCancelled"
  by code_simp

theorem honest_ends_agree_witness:
  "\<exists>y :: bytes system. y = sys_run sample_ops [Turn 9 0, DeliverR, CancelR, BeginStep, DeliverS] sample_start \<and>
     s_failure (y_snd y) = Some TPeerCancelled \<and> r_failure (y_rcv y) = Some TCancelled"
  using honest_ends_agree[OF sample_honest, of _ sample_ops "[Turn 9 0, DeliverR, CancelR, BeginStep, DeliverS]" 16384 True False True False "[]"]
    sample_cancelled by (auto simp: sample_start_def)

lemma sample_midway:
  "let y = sys_run sample_ops [Turn 9 0, DeliverR, BeginStep, SettleStep, MakeRecord] sample_start in
     s_failure (y_snd y) = None \<and> r_failure (y_rcv y) = None \<and> y_s_up y \<and> y_at_r y = length (s_out (y_snd y)) \<and>
     y_at_s y = length (r_out (y_rcv y)) \<and> steps (y_rcv y) = [] \<and> \<not> s_kept (y_snd y) \<and> \<not> awaits_record (y_snd y) \<and>
     \<not> s_paused (y_snd y) \<and> s_sent (y_snd y) = 2 \<and> s_acked (y_snd y) = 0"
  by code_simp

theorem transfer_window_witness:
  "let y = sys_run sample_ops [Turn 9 0, DeliverR, BeginStep, SettleStep, MakeRecord] sample_start in
     r_received (y_rcv y) \<le> s_sent (y_snd y) \<and> s_sent (y_snd y) = 2"
  using transfer_window[OF sample_honest refl, of sample_ops "[Turn 9 0, DeliverR, BeginStep, SettleStep, MakeRecord]" 16384 True False True False "[]"]
    sample_midway unfolding sample_start_def[symmetric] Let_def by blast

theorem transfer_never_stalls_witness:
  "let y = sys_run sample_ops [Turn 9 0, DeliverR, BeginStep, SettleStep, MakeRecord] sample_start in
     s_sent (y_snd y) = 2 \<and> 2 < s_sent (sender_turn True 8388606 0 (y_snd y))"
proof -
  define y where "y = sys_run sample_ops [Turn 9 0, DeliverR, BeginStep, SettleStep, MakeRecord] sample_start"
  note s = sample_midway[folded y_def, unfolded Let_def]
  have "2 < s_sent (sender_turn True (protocolPacing 2 False) 0 (y_snd y))"
    using transfer_never_stalls[OF sample_honest y_def[unfolded sample_start_def], of 0] s by simp
  moreover have "protocolPacing 2 False = 8388606" by (simp add: protocolPacing_def)
  ultimately show ?thesis using s by (simp add: y_def[symmetric] Let_def)
qed

end
