(* ===== verification/Transfer_Sink.thy ===== *)
theory Transfer_Sink
  imports Transfer_System Envelope_Open
begin

text \<open>
  The sink of a receiver (\<open>DirectSink\<close> in \<open>src/direct/transfer.ts\<close>) as a contract, what the
  transfer gives any sink that keeps it, and the memory sink of \<open>src/direct/sink.ts\<close>, which
  keeps it. Put together with the envelope: a sender that is told KEPT has a receiver holding
  the very file it sent.
\<close>

subsection \<open>The contract of a sink\<close>

locale direct_sink =
  fixes ops :: "'s sink_ops" and held :: "'s \<Rightarrow> bytes option" and kept :: "'s \<Rightarrow> bytes \<Rightarrow> bytes \<Rightarrow> int \<Rightarrow> bool"
  assumes write_held: "sink_write ops s bs = (s', None) \<Longrightarrow> held s = Some b \<Longrightarrow> held s' = Some (b @ bs)"
    and end_kept: "sink_end ops s d n = (s', None) \<Longrightarrow> held s = Some b \<Longrightarrow> kept s' b d n"
    and abort_drops: "\<not> kept (sink_abort ops s) b d n"
begin

definition sink_holds :: "bytes \<Rightarrow> bytes \<times> nat \<Rightarrow> 's receiver \<Rightarrow> bool" where
  "sink_holds env fin st \<longleftrightarrow>
     (r_failure st = None \<longrightarrow>
        (if r_done st then kept (r_sink st) env (fst fin) (int (snd fin)) else held (r_sink st) = Some (take (r_written st) env))) \<and>
     (r_over st \<longrightarrow> r_failure st \<noteq> None \<and> steps st = [] \<and> (\<exists>s. r_sink st = sink_abort ops s))"

lemma sink_holds_same:
  assumes "sink_holds env fin st" "r_sink st' = r_sink st" "r_done st' = r_done st" "r_written st' = r_written st"
    "r_over st' = r_over st" "r_failure st' = None \<longrightarrow> r_failure st = None" "r_over st \<longrightarrow> steps st' = []"
  shows "sink_holds env fin st'"
  using assms by (auto simp: sink_holds_def)

lemma sink_holds_fail: "sink_holds env fin st \<Longrightarrow> sink_holds env fin (receiver_fail up e code st)"
  by (rule sink_holds_same) (auto simp: sink_holds_def receiver_fail_def split: if_splits)

lemma sink_holds_frame:
  assumes "sink_holds env fin st"
  shows "sink_holds env fin (receiver_frame up bs st)"
proof (cases "r_failure st \<noteq> None \<or> r_done st")
  case False
  then have "\<not> r_over st" using assms by (auto simp: sink_holds_def)
  then have "sink_holds env fin (receiver_data up off d st)" "sink_holds env fin (receiver_end up d n st)" for off d n
    using sink_holds_fail[OF assms] assms False
    by (auto simp: receiver_data_def receiver_end_def intro!: sink_holds_same[OF assms])
  then show ?thesis using sink_holds_fail[OF assms] assms
    by (auto simp: receiver_frame_def split: sum.splits frame.splits)
qed (use assms in \<open>simp add: receiver_frame_def\<close>)

lemma sink_holds_begin:
  assumes "sink_holds env fin st"
  shows "sink_holds env fin (receiver_begin st)"
proof (rule sink_holds_same[OF assms])
  show "r_over st \<longrightarrow> steps (receiver_begin st) = []"
    using assms by (cases rule: receiver_begin_cases[of st]) (auto simp: sink_holds_def)
qed simp_all

lemma sink_holds_exit: "sink_holds env fin st \<Longrightarrow> sink_holds env fin (receiver_exit ops st)"
  by (auto simp: receiver_exit_def sink_holds_def steps_def)

lemma settle_over: "r_over (receiver_settle ops up st) = r_over st"
proof -
  have "r_over (settle_write up n st0) = r_over st0" for n and st0 :: "'s receiver"
    by (simp add: settle_write_def Let_def split: sum.splits)
  then show ?thesis
    by (auto simp: receiver_settle_def sink_failed_def Let_def split: option.splits sink_step.splits prod.splits sink_error.splits)
qed

lemma sink_holds_settle:
  assumes "sink_holds env fin st" "rcv_counts env fin st" "rcv_stream env st"
  shows "sink_holds env fin (receiver_settle ops up st)"
proof (cases "r_busy st")
  case None
  then show ?thesis using assms(1) by (simp add: receiver_settle_def)
next
  case (Some q)
  then have busy: "steps st \<noteq> []" by (simp add: steps_def)
  then have over: "\<not> r_over (receiver_settle ops up st)" using assms(1) by (auto simp: sink_holds_def settle_over)
  have undone: "r_busy st \<noteq> None \<longrightarrow> \<not> r_done st" using assms(2) busy by (auto simp: rcv_counts_def)
  show ?thesis
  proof (cases "r_failure (receiver_settle ops up st) = None")
    case True
    from True undone show ?thesis
    proof (cases rule: receiver_settle_cases)
      case (wrote bs s)
      let ?st0 = "st\<lparr>r_busy := None, r_sink := s\<rparr>"
      have ok: "r_failure st = None" using True settle_write_failure[of up "length bs" ?st0] wrote(3) by simp
      then have "held (r_sink st) = Some (take (r_written st) env)"
        using assms(1) undone wrote(1) by (auto simp: sink_holds_def)
      then have "held s = Some (take (r_written st) env @ bs)" by (rule write_held[OF wrote(2)])
      moreover have "bs @ pending ?st0 = drop (r_written st) (take (r_received st) env)" "r_written st + length bs \<le> r_received st"
        using assms(2,3) ok wrote(1) by (auto simp: rcv_stream_def rcv_counts_def steps_def)
      then have "take (r_written st) env @ bs = take (r_written st + length bs) env"
        by (metis (no_types, lifting) append_eq_conv_conj drop_take take_add take_take min_absorb1 add_le_imp_le_diff le_add_diff_inverse add.commute append_take_drop_id)
      ultimately show ?thesis using wrote over undone by (simp add: sink_holds_def)
    next
      case (ended d n s)
      have ok: "r_failure st = None" using True ended by simp
      have only: "steps st = [EndStep d n]" "d = fst fin" "n = int (snd fin)" "r_endSeen st"
        using assms(2) ended(1) by (auto simp: rcv_counts_def steps_def split: if_splits)
      then have "drop (r_written st) (take (r_received st) env) = []" using assms(3) ok by (simp add: rcv_stream_def)
      then have "r_written st = length env" using assms(2) only(4) by (simp add: rcv_counts_def)
      then have "held (r_sink st) = Some env" using assms(1) ok undone ended(1) by (auto simp: sink_holds_def)
      from end_kept[OF ended(2) this] show ?thesis using ended only over by (simp add: sink_holds_def)
    qed (use assms(1) in simp)
  qed (use over in \<open>auto simp: sink_holds_def\<close>)
qed

lemma sink_holds_step:
  assumes "sys_inv env fin ds y" "sink_holds env fin (y_rcv y)"
  shows "sink_holds env fin (y_rcv (sys_step ops y ev))"
proof -
  have "rcv_counts env fin (y_rcv y)" "rcv_stream env (y_rcv y)" using assms(1) by (simp_all add: sys_inv_def)
  then show ?thesis using assms(2) sink_holds_fail[OF assms(2)] sink_holds_frame[OF assms(2)] sink_holds_begin[OF assms(2)]
      sink_holds_exit[OF assms(2)] sink_holds_settle[OF assms(2)]
    by (cases ev) (auto simp: receiver_closed_def receiver_abort_def split: list.splits)
qed

lemma sink_holds_run:
  assumes "sys_inv env fin ds y" "sink_holds env fin (y_rcv y)"
  shows "\<exists>ds'. sys_inv env fin ds' (sys_run ops evs y) \<and> sink_holds env fin (y_rcv (sys_run ops evs y))"
  using assms
proof (induction evs arbitrary: ds y)
  case (Cons ev evs)
  obtain ds' where "sys_inv env fin ds' (sys_step ops y ev)" by (rule sys_step_inv[OF Cons.prems(1)])
  from Cons.IH[OF this sink_holds_step[OF Cons.prems]] show ?case by (simp add: sys_run_def)
qed (auto simp: sys_run_def)

lemma sink_holds_start:
  "held sink = Some [] \<Longrightarrow> sink_holds env fin (y_rcv (sys_start m su sa ru ra header rs fin sink))"
  by (auto simp: sys_start_def receiver_start_def sink_holds_def receiver_fail_def receiver_abort_def Let_def)

text \<open>What KEPT at the sender says of the receiver.\<close>

lemma told_kept:
  assumes "sys_inv env fin ds y" "sink_holds env fin (y_rcv y)" "s_kept (y_snd y)" "s_failure (y_snd y) = None"
  shows "r_done (y_rcv y) \<and> r_failure (y_rcv y) = None \<and> kept (r_sink (y_rcv y)) env (fst fin) (int (snd fin))"
proof -
  let ?rc = "y_rcv y"
  obtain pre post where k: "rlog ?rc = pre @ Inr Kept # post" and clean: "Inr (Stop c) \<notin> set pre" for c
    using assms(1,3,4) by (auto simp: sys_inv_def link_s_def)
  have log: "reply_log (y_r_up y) (r_failure ?rc) (r_done ?rc) (r_lastAck ?rc) (rlog ?rc)"
    using assms(1) by (simp add: sys_inv_def rcv_log_def)
  have d: "r_done ?rc" using log k unfolding reply_log_def by simp
  have "r_failure ?rc = None"
  proof (rule ccontr)
    assume "r_failure ?rc \<noteq> None"
    then obtain e where e: "r_failure ?rc = Some e" by auto
    have "(\<exists>c. Inr (Stop c) \<in> set pre) \<or> e \<in> range failureForStop"
      using log k e unfolding reply_log_def by blast
    moreover have "blamed own_failures_r (r_failure ?rc) (s_failure (y_snd y))" using assms(1) by (simp add: sys_inv_def)
    then have "e \<in> own_failures_r" using e assms(4) by (auto simp: blamed_def)
    then have "e \<notin> range failureForStop" by (auto simp: own_failures_r_def range_failureForStop)
    ultimately show False using clean by blast
  qed
  then show ?thesis using d assms(2) by (simp add: sink_holds_def)
qed

end

subsection \<open>The memory sink\<close>

record sink_manifest =
  mf_name :: jsstr
  mf_size :: int
  mf_type :: jsstr

record sink_options =
  so_key :: jsstr
  so_manifest :: sink_manifest
  so_envelopeBytes :: nat

record memory_sink =
  ms_parts :: "bytes list option"
  ms_held :: nat
  ms_file :: "recovered_file option"

definition createMemorySink :: memory_sink where
  "createMemorySink = \<lparr>ms_parts = Some [], ms_held = 0, ms_file = None\<rparr>"

definition memory_write :: "sink_options \<Rightarrow> memory_sink \<Rightarrow> bytes \<Rightarrow> memory_sink \<times> sink_error option" where
  "memory_write opts s bs =
     (case ms_parts s of
        None \<Rightarrow> (s, Some SinkRefused)
      | Some parts \<Rightarrow>
          if ms_held s + length bs > so_envelopeBytes opts then (s, Some SinkRefused)
          else (s\<lparr>ms_parts := Some (parts @ [bs]), ms_held := ms_held s + length bs\<rparr>, None))"

text \<open>\<open>toHex\<close> of \<open>sink.ts\<close> writes the same digits as \<open>sha256Hex\<close>'s.\<close>

definition memory_end :: "cryptography \<Rightarrow> unicode \<Rightarrow> sink_options \<Rightarrow> memory_sink \<Rightarrow> bytes \<Rightarrow> int \<Rightarrow> memory_sink \<times> sink_error option" where
  "memory_end cr uc opts s digest sz =
     (case ms_parts s of
        None \<Rightarrow> (s, Some SinkRefused)
      | Some parts \<Rightarrow>
          if ms_held s \<noteq> so_envelopeBytes opts then (s, Some SinkRefused)
          else
            let s1 = s\<lparr>ms_parts := None\<rparr> in
            (case decryptPrivacyEnvelope cr uc (\<lambda>_ _. False) (concat parts) (so_key opts) of
               Inl _ \<Rightarrow> (s1, Some SinkRefused)
             | Inr opened \<Rightarrow>
                 let mf = so_manifest opts in
                 if r_name opened \<noteq> mf_name mf \<or> r_type opened \<noteq> mf_type mf \<or> int (length (r_bytes opened)) \<noteq> mf_size mf
                 then (s1, Some SinkRefused)
                 else if int (length (r_bytes opened)) \<noteq> sz then (s1, Some SinkRefused)
                 else if toHex (sha256 cr (r_bytes opened)) \<noteq> toHex digest then (s1, Some SinkRefused)
                 else (s1\<lparr>ms_file := Some opened\<rparr>, None)))"

definition memory_abort :: "memory_sink \<Rightarrow> memory_sink" where
  "memory_abort s = s\<lparr>ms_parts := None, ms_file := None\<rparr>"

definition memory_ops :: "cryptography \<Rightarrow> unicode \<Rightarrow> sink_options \<Rightarrow> memory_sink sink_ops" where
  "memory_ops cr uc opts = \<lparr>sink_write = memory_write opts, sink_end = memory_end cr uc opts, sink_abort = memory_abort\<rparr>"

definition held_in_memory :: "memory_sink \<Rightarrow> bytes option" where
  "held_in_memory s =
     (case ms_parts s of None \<Rightarrow> None
      | Some parts \<Rightarrow> if ms_held s = length (concat parts) then Some (concat parts) else None)"

definition verified_file :: "cryptography \<Rightarrow> unicode \<Rightarrow> sink_options \<Rightarrow> memory_sink \<Rightarrow> bytes \<Rightarrow> bytes \<Rightarrow> int \<Rightarrow> bool" where
  "verified_file cr uc opts s env digest sz \<longleftrightarrow>
     (\<exists>f. ms_file s = Some f \<and> decryptPrivacyEnvelope cr uc (\<lambda>_ _. False) env (so_key opts) = Inr f \<and>
        r_name f = mf_name (so_manifest opts) \<and> r_type f = mf_type (so_manifest opts) \<and>
        int (length (r_bytes f)) = mf_size (so_manifest opts) \<and> int (length (r_bytes f)) = sz \<and> sha256 cr (r_bytes f) = digest)"

lemma memory_write_ok:
  assumes "memory_write opts s bs = (s', None)" "held_in_memory s = Some b"
  shows "held_in_memory s' = Some (b @ bs)"
proof -
  obtain parts where parts: "ms_parts s = Some parts" "ms_held s = length (concat parts)" "b = concat parts"
    using assms(2) by (auto simp: held_in_memory_def split: option.splits if_splits)
  then have "s' = s\<lparr>ms_parts := Some (parts @ [bs]), ms_held := ms_held s + length bs\<rparr>"
    using assms(1) by (simp add: memory_write_def split: if_splits)
  then show ?thesis using parts by (simp add: held_in_memory_def)
qed

lemma memory_end_ok:
  assumes "memory_end cr uc opts s d n = (s', None)"
  shows "\<exists>parts. ms_parts s = Some parts \<and> verified_file cr uc opts s' (concat parts) d n"
  using assms
  by (auto simp: memory_end_def verified_file_def Let_def dest: toHex_inj split: option.splits sum.splits if_splits)

interpretation memory: direct_sink "memory_ops cr uc opts" held_in_memory "verified_file cr uc opts" for cr uc opts
proof
  show "held_in_memory s = Some b \<Longrightarrow> held_in_memory s' = Some (b @ bs)" if "sink_write (memory_ops cr uc opts) s bs = (s', None)"
    for s s' bs b
    using that memory_write_ok by (simp add: memory_ops_def)
  show "held_in_memory s = Some b \<Longrightarrow> verified_file cr uc opts s' b d n" if "sink_end (memory_ops cr uc opts) s d n = (s', None)"
    for s s' d n b
    using that memory_end_ok[of cr uc opts s d n s'] by (auto simp: memory_ops_def held_in_memory_def split: if_splits)
  show "\<not> verified_file cr uc opts (sink_abort (memory_ops cr uc opts) s) b d n" for s b d n
    by (simp add: memory_ops_def memory_abort_def verified_file_def)
qed

lemma memory_run:
  assumes "honest_file header rs fin"
    and "y = sys_run (memory_ops cr uc opts) evs (sys_start m su sa ru ra header rs fin createMemorySink)"
  shows "\<exists>ds. sys_inv (header @ concat rs) fin ds y \<and> memory.sink_holds cr uc opts (header @ concat rs) fin (y_rcv y)"
  using memory.sink_holds_run[OF sys_start_inv[OF refl], of header rs fin cr uc opts m su sa ru ra createMemorySink evs] assms
    memory.sink_holds_start[of createMemorySink cr uc opts "header @ concat rs" fin m su sa ru ra header rs]
  by (simp add: honest_file_def createMemorySink_def held_in_memory_def)

text \<open>
  Property C3: a sender that is told KEPT and has not failed has a receiver that is done, has not
  failed, and whose memory sink holds a file: one the page's reader opened, authenticated, from
  the envelope sent, with the name, type and size of the manifest and the size and SHA-256 of
  END. And a receive that ended in failure has left no file behind.
\<close>

theorem kept_means_verified:
  assumes "honest_file header rs fin"
    and "y = sys_run (memory_ops cr uc opts) evs (sys_start m su sa ru ra header rs fin createMemorySink)"
  shows "(s_kept (y_snd y) \<and> s_failure (y_snd y) = None \<longrightarrow>
      r_done (y_rcv y) \<and> r_failure (y_rcv y) = None \<and>
      (\<exists>f. ms_file (r_sink (y_rcv y)) = Some f \<and>
        decryptPrivacyEnvelope cr uc (\<lambda>_ _. False) (header @ concat rs) (so_key opts) = Inr f \<and>
        r_name f = mf_name (so_manifest opts) \<and> r_type f = mf_type (so_manifest opts) \<and>
        int (length (r_bytes f)) = mf_size (so_manifest opts) \<and> length (r_bytes f) = snd fin \<and> sha256 cr (r_bytes f) = fst fin)) \<and>
    (r_over (y_rcv y) \<longrightarrow> ms_file (r_sink (y_rcv y)) = None)"
proof -
  obtain ds where inv: "sys_inv (header @ concat rs) fin ds y" and
    sink: "memory.sink_holds cr uc opts (header @ concat rs) fin (y_rcv y)"
    using memory_run[OF assms] by blast
  have "ms_file (r_sink (y_rcv y)) = None" if "r_over (y_rcv y)"
    using sink[unfolded memory.sink_holds_def] that by (auto simp: memory_ops_def memory_abort_def)
  then show ?thesis using memory.told_kept[OF inv sink] by (auto simp: verified_file_def)
qed

end
