(* ===== verification/Transfer_Liveness.thy ===== *)
theory Transfer_Liveness
  imports Transfer_Sink
begin

text \<open>
  A transfer can always be completed: while neither end has failed and the sink takes what it
  is given, from every reachable state some continuation of the run ends with the sender told
  KEPT. The continuation delivers and settles what is outstanding, which a measure shows to end,
  and then sends more of the envelope, which is finite.
\<close>

locale willing_sink = direct_sink ops held kept
  for ops :: "'s sink_ops" and held :: "'s \<Rightarrow> bytes option" and kept :: "'s \<Rightarrow> bytes \<Rightarrow> bytes \<Rightarrow> int \<Rightarrow> bool" +
  fixes agrees :: "bytes \<Rightarrow> bytes \<times> nat \<Rightarrow> bool"
  assumes write_ok: "agrees env fin \<Longrightarrow> held s = Some (take n env) \<Longrightarrow> n + length bs \<le> length env \<Longrightarrow> \<exists>s'. sink_write ops s bs = (s', None)"
    and end_ok: "agrees env fin \<Longrightarrow> held s = Some env \<Longrightarrow> \<exists>s'. sink_end ops s (fst fin) (int (snd fin)) = (s', None)"
begin

definition smooth :: "bytes \<Rightarrow> bytes \<times> nat \<Rightarrow> 's system \<Rightarrow> bool" where
  "smooth env fin y \<longleftrightarrow> agrees env fin \<and> (\<exists>ds. sys_inv env fin ds y) \<and> sink_holds env fin (y_rcv y) \<and> s_failure (y_snd y) = None \<and>
     r_failure (y_rcv y) = None \<and> y_s_up y \<and> y_r_up y \<and> \<not> s_paused (y_snd y) \<and> [] \<notin> set (y_records y)"

definition outstanding :: "'s system \<Rightarrow> nat" where
  "outstanding y = 5 * (length (s_out (y_snd y)) - y_at_r y) + 3 * length (r_queue (y_rcv y)) +
     (if r_busy (y_rcv y) = None then 0 else 2) + (length (r_out (y_rcv y)) - y_at_s y)"

lemma smooth_step:
  assumes "smooth env fin y" "s_failure (y_snd (sys_step ops y ev)) = None" "r_failure (y_rcv (sys_step ops y ev)) = None"
    "y_s_up (sys_step ops y ev)" "y_r_up (sys_step ops y ev)" "\<not> s_paused (y_snd (sys_step ops y ev))"
    "set (y_records (sys_step ops y ev)) \<subseteq> set (y_records y)"
  shows "smooth env fin (sys_step ops y ev)"
proof -
  obtain ds where inv: "sys_inv env fin ds y" and s: "sink_holds env fin (y_rcv y)" using assms(1) by (auto simp: smooth_def)
  obtain ds' where "sys_inv env fin ds' (sys_step ops y ev)" by (rule sys_step_inv[OF inv])
  then show ?thesis using assms sink_holds_step[OF inv s, of ev] unfolding smooth_def by auto
qed

lemma deliver_s_smooth:
  assumes "smooth env fin y" "y_at_s y < length (r_out (y_rcv y))"
  shows "s_failure (y_snd (sys_step ops y DeliverS)) = None"
proof (rule ccontr)
  obtain ds where inv: "sys_inv env fin ds y" using assms(1) by (auto simp: smooth_def)
  have ok: "s_failure (y_snd y) = None" "r_failure (y_rcv y) = None" using assms(1) by (simp_all add: smooth_def)
  assume "s_failure (y_snd (sys_step ops y DeliverS)) \<noteq> None"
  then obtain e where e: "s_failure (y_snd (sys_step ops y DeliverS)) = Some e" by auto
  have "blamed own_failures_s (Some e) (r_failure (y_rcv (sys_step ops y DeliverS)))"
    using deliver_s_inv[OF inv assms(2), of ops] e by (simp add: sys_inv_def)
  then have "e \<in> own_failures_s" using ok assms(2) by (auto simp: blamed_def)
  moreover have "e = TProtocol \<or> e \<in> range failureForStop"
    using e ok assms(2) by (auto simp: sender_frame_def sender_fail_def split: sum.splits frame.splits if_splits)
  ultimately show False by (auto simp: own_failures_s_def range_failureForStop)
qed

lemma settle_smooth:
  assumes "smooth env fin y" "r_busy (y_rcv y) = Some q"
  shows "r_failure (receiver_settle ops (y_r_up y) (y_rcv y)) = None"
    "length (r_out (receiver_settle ops (y_r_up y) (y_rcv y))) \<le> Suc (length (r_out (y_rcv y)))"
    "r_busy (receiver_settle ops (y_r_up y) (y_rcv y)) = None" "r_queue (receiver_settle ops (y_r_up y) (y_rcv y)) = r_queue (y_rcv y)"
proof -
  let ?rc = "y_rcv y"
  obtain ds where inv: "sys_inv env fin ds y" and s: "sink_holds env fin ?rc" and ok: "r_failure ?rc = None" "y_r_up y"
    and ag: "agrees env fin" using assms(1) by (auto simp: smooth_def)
  have counts: "rcv_counts env fin ?rc" and stream: "rcv_stream env ?rc" using inv by (simp_all add: sys_inv_def)
  have undone: "\<not> r_done ?rc" using counts assms(2) by (auto simp: rcv_counts_def steps_def)
  then have held: "held (r_sink ?rc) = Some (take (r_written ?rc) env)" using s ok by (simp add: sink_holds_def)
  have "r_failure (receiver_settle ops (y_r_up y) ?rc) = None \<and> length (r_out (receiver_settle ops (y_r_up y) ?rc)) \<le> Suc (length (r_out ?rc)) \<and>
    r_busy (receiver_settle ops (y_r_up y) ?rc) = None \<and> r_queue (receiver_settle ops (y_r_up y) ?rc) = r_queue ?rc"
  proof (cases q)
    case (WriteStep bs)
    have len: "r_written ?rc + length bs \<le> length env" "int (length env) \<le> MAX_SAFE_INTEGER"
      using counts assms(2) WriteStep by (auto simp: rcv_counts_def steps_def)
    then obtain s' where w: "sink_write ops (r_sink ?rc) bs = (s', None)" using write_ok[OF ag held] by blast
    obtain f where "encodeAck (int (r_written ?rc + length bs)) = Inr f"
      using len by (auto simp: encodeAck_def writeU64_def MAX_SAFE_INTEGER_def)
    then show ?thesis using w assms(2) WriteStep ok
      by (auto simp: receiver_settle_def settle_write_def Let_def add.assoc)
  next
    case (EndStep d n)
    have only: "steps ?rc = [EndStep d n]" "d = fst fin" "n = int (snd fin)" "r_endSeen ?rc"
      using counts assms(2) EndStep by (auto simp: rcv_counts_def steps_def split: if_splits)
    then have "drop (r_written ?rc) (take (r_received ?rc) env) = []" using stream ok by (simp add: rcv_stream_def)
    then have "r_written ?rc = length env" using counts only(4) by (simp add: rcv_counts_def)
    then obtain s' where "sink_end ops (r_sink ?rc) d n = (s', None)" using held end_ok[OF ag] only by auto
    then show ?thesis using assms(2) EndStep ok by (simp add: receiver_settle_def)
  qed
  then show "r_failure (receiver_settle ops (y_r_up y) ?rc) = None"
    "length (r_out (receiver_settle ops (y_r_up y) ?rc)) \<le> Suc (length (r_out ?rc))"
    "r_busy (receiver_settle ops (y_r_up y) ?rc) = None" "r_queue (receiver_settle ops (y_r_up y) ?rc) = r_queue ?rc" by auto
qed

definition idle :: "'s system \<Rightarrow> bool" where
  "idle y \<longleftrightarrow> y_at_r y = length (s_out (y_snd y)) \<and> y_at_s y = length (r_out (y_rcv y)) \<and> steps (y_rcv y) = []"

lemma outstanding_step:
  assumes "smooth env fin y" "\<not> idle y"
  obtains ev where "smooth env fin (sys_step ops y ev)" "outstanding (sys_step ops y ev) < outstanding y"
    "s_sent (y_snd (sys_step ops y ev)) = s_sent (y_snd y)"
proof -
  let ?rc = "y_rcv y"
  obtain ds where inv: "sys_inv env fin ds y" using assms(1) by (auto simp: smooth_def)
  have bounds: "y_at_r y \<le> length (s_out (y_snd y))" "y_at_s y \<le> length (r_out ?rc)"
    using inv by (simp_all add: sys_inv_def link_r_def link_s_def)
  consider (r) "y_at_r y < length (s_out (y_snd y))" | (b) q where "r_busy ?rc = Some q"
    | (q) q qs where "r_busy ?rc = None" "r_queue ?rc = q # qs" | (s) "y_at_s y < length (r_out ?rc)"
    using assms(2) bounds by (auto simp: idle_def steps_def neq_Nil_conv split: option.splits)
  then show thesis
  proof cases
    case r
    let ?rc' = "receiver_frame (y_r_up y) (s_out (y_snd y) ! y_at_r y) ?rc"
    have f: "r_failure ?rc' = None" using deliver_r_inv[OF inv r, where ops = ops] r assms(1) by (simp add: smooth_def)
    then have "length (r_queue ?rc') \<le> Suc (length (r_queue ?rc))" "r_busy ?rc' = r_busy ?rc" "r_out ?rc' = r_out ?rc"
      by (auto simp: receiver_frame_def receiver_data_def receiver_end_def receiver_fail_def split: sum.splits frame.splits if_splits)
    then show thesis using r f assms(1)
      by (intro that[of DeliverR] smooth_step[OF assms(1)]) (auto simp: outstanding_def smooth_def)
  next
    case (b q)
    note st = settle_smooth[OF assms(1) b]
    show thesis
      by (intro that[of SettleStep] smooth_step[OF assms(1)]) (use assms(1) st b in \<open>auto simp: outstanding_def smooth_def\<close>)
  next
    case (q q qs)
    show thesis
      by (intro that[of BeginStep] smooth_step[OF assms(1)])
        (use assms(1) q in \<open>auto simp: outstanding_def smooth_def receiver_begin_def\<close>)
  next
    case s
    let ?sn' = "sender_frame (y_s_up y) (r_out ?rc ! y_at_s y) (y_snd y)"
    have f: "s_failure ?sn' = None" using deliver_s_smooth[OF assms(1) s] s by simp
    then have "s_out ?sn' = s_out (y_snd y)" "s_sent ?sn' = s_sent (y_snd y)" "s_paused ?sn' = s_paused (y_snd y)"
      by (auto simp: sender_frame_def sender_fail_def split: sum.splits frame.splits if_splits)
    then show thesis using s f assms(1)
      by (intro that[of DeliverS] smooth_step[OF assms(1)]) (auto simp: outstanding_def smooth_def)
  qed
qed

lemma sys_run_Cons: "sys_run ops (ev # evs) y = sys_run ops evs (sys_step ops y ev)"
  and sys_run_append: "sys_run ops (evs @ evs') y = sys_run ops evs' (sys_run ops evs y)"
  by (simp_all add: sys_run_def)

lemma settles:
  assumes "smooth env fin y"
  obtains evs where "smooth env fin (sys_run ops evs y)" "idle (sys_run ops evs y)" "s_sent (y_snd (sys_run ops evs y)) = s_sent (y_snd y)"
  using assms
proof (induction "outstanding y" arbitrary: y thesis rule: less_induct)
  case less
  show ?case
  proof (cases "idle y")
    case True
    then show ?thesis using less.prems(1)[of "[]"] less.prems(2) by (simp add: sys_run_def)
  next
    case False
    obtain ev where ev: "smooth env fin (sys_step ops y ev)" "outstanding (sys_step ops y ev) < outstanding y"
      "s_sent (y_snd (sys_step ops y ev)) = s_sent (y_snd y)" by (rule outstanding_step[OF less.prems(2) False])
    show ?thesis
    proof (rule less.hyps[OF ev(2) _ ev(1)])
      fix evs
      assume "smooth env fin (sys_run ops evs (sys_step ops y ev))" "idle (sys_run ops evs (sys_step ops y ev))"
        "s_sent (y_snd (sys_run ops evs (sys_step ops y ev))) = s_sent (y_snd (sys_step ops y ev))"
      then show ?thesis using less.prems(1)[of "ev # evs"] ev(3) by (simp add: sys_run_Cons)
    qed
  qed
qed

lemma sends_more:
  assumes "smooth env fin y" "idle y" "\<not> s_kept (y_snd y)" "\<not> awaits_record (y_snd y)" "env \<noteq> []"
  shows "smooth env fin (sys_step ops y (Turn 8388608 0))" "s_sent (y_snd y) < s_sent (y_snd (sys_step ops y (Turn 8388608 0)))"
proof -
  obtain ds where inv: "sys_inv env fin ds y" using assms(1) by (auto simp: smooth_def)
  have sn: "sender_inv env ds (y_records y) (y_snd y)" using inv by (simp add: sys_inv_def)
  have ok: "s_failure (y_snd y) = None" "r_failure (y_rcv y) = None" "y_s_up y" "\<not> s_paused (y_snd y)"
    using assms(1) by (simp_all add: smooth_def)
  let ?v = "protocolPacing (s_sent (y_snd y) - s_acked (y_snd y)) (s_paused (y_snd y))"
  have "s_sent (y_snd y) < s_sent (sender_turn (y_s_up y) ?v 0 (y_snd y))"
    using sys_inv_no_stall[OF inv assms(5) ok(1-3), of 0] assms(2-4) ok(4) by (simp add: idle_def)
  moreover have "allowed_bytes ?v (y_snd y) = allowed_bytes 8388608 (y_snd y)"
    using ok(4) sn by (auto simp: allowed_bytes_def protocolPacing_def sender_inv_def)
  then have "sender_turn (y_s_up y) ?v 0 (y_snd y) = sender_turn (y_s_up y) 8388608 0 (y_snd y)" by (simp add: sender_turn_def)
  ultimately show more: "s_sent (y_snd y) < s_sent (y_snd (sys_step ops y (Turn 8388608 0)))" by simp
  have "s_failure (sender_turn True 8388608 0 (y_snd y)) = None \<and> \<not> s_paused (sender_turn True 8388608 0 (y_snd y))"
  proof (rule sender_turn_cases[OF sn refl, of True 8388608 0])
    fix f n st1
    assume st1: "st1 = y_snd y\<lparr>s_out := s_out (y_snd y) @ [f], s_sent := s_sent (y_snd y) + n, s_position := s_position (y_snd y) + n,
          s_paused := (s_paused (y_snd y) \<or> 0 > highWaterBytes LIMITS)\<rparr>"
      and turn: "sender_turn True 8388608 0 (y_snd y) = (if s_sent st1 < s_total st1 then st1 else sender_finish True st1)"
    have "s_failure st1 = None" "length (fst (s_end st1)) = 32" "int (snd (s_end st1)) \<le> MAX_SAFE_INTEGER"
      using sn ok by (simp_all add: st1 sender_inv_def)
    then obtain g where "sender_finish True st1 = st1\<lparr>s_out := s_out st1 @ [g], s_ended := True\<rparr>" by (rule sender_finish_out)
    then show ?thesis using ok turn by (simp add: st1)
  qed (use ok in auto)
  then show "smooth env fin (sys_step ops y (Turn 8388608 0))"
    using ok assms(1) by (intro smooth_step[OF assms(1)]) (auto simp: smooth_def)
qed

lemma makes_record:
  assumes "smooth env fin y" "idle y" "\<not> s_kept (y_snd y)" "awaits_record (y_snd y)"
  defines "y' \<equiv> sys_step ops y MakeRecord"
  shows "smooth env fin y'" "idle y'" "\<not> s_kept (y_snd y')" "\<not> awaits_record (y_snd y')" "s_sent (y_snd y') = s_sent (y_snd y)"
proof -
  obtain ds where inv: "sys_inv env fin ds y" using assms(1) by (auto simp: smooth_def)
  have sn: "sender_inv env ds (y_records y) (y_snd y)" using inv by (simp add: sys_inv_def)
  have "concat (y_records y) = drop (s_sent (y_snd y)) env" "s_sent (y_snd y) < length env"
    using sn assms(4) by (auto simp: sender_inv_def awaits_record_def)
  then obtain r rs where rs: "y_records y = r # rs" by (cases "y_records y") auto
  then have "r \<noteq> []" using assms(1) by (auto simp: smooth_def)
  then have y': "y' = y\<lparr>y_snd := (y_snd y)\<lparr>s_current := r, s_position := 0\<rparr>, y_records := rs\<rparr>"
    using assms(4) rs by (simp add: y'_def sender_record_def awaits_record_def)
  show "smooth env fin y'" unfolding y'_def using assms(1,4) rs
    by (intro smooth_step[OF assms(1)]) (auto simp: smooth_def sender_record_def awaits_record_def)
  show "idle y'" "\<not> s_kept (y_snd y')" "\<not> awaits_record (y_snd y')" "s_sent (y_snd y') = s_sent (y_snd y)"
    using assms(2-4) \<open>r \<noteq> []\<close> by (auto simp: y' idle_def awaits_record_def)
qed

lemma completes:
  assumes "smooth env fin y" "env \<noteq> []"
  obtains evs where "smooth env fin (sys_run ops evs y)" "s_kept (y_snd (sys_run ops evs y))"
  using assms(1)
proof (induction "length env - s_sent (y_snd y)" arbitrary: y thesis rule: less_induct)
  case less
  obtain evs where run: "smooth env fin (sys_run ops evs y)" "idle (sys_run ops evs y)" "s_sent (y_snd (sys_run ops evs y)) = s_sent (y_snd y)"
    by (rule settles[OF less.prems(2)])
  define y1 where "y1 = sys_run ops evs y"
  show ?case
  proof (cases "s_kept (y_snd y1)")
    case True
    then show ?thesis using less.prems(1)[of evs] run by (simp add: y1_def)
  next
    case False
    define evs2 where "evs2 = (if awaits_record (y_snd y1) then [MakeRecord, Turn 8388608 0] else [Turn 8388608 0])"
    have two: "smooth env fin (sys_run ops evs2 y1) \<and> s_sent (y_snd y1) < s_sent (y_snd (sys_run ops evs2 y1))"
    proof (cases "awaits_record (y_snd y1)")
      case True
      note m = makes_record[OF run(1,2)[folded y1_def] False True]
      from sends_more[OF m(1-4) assms(2)] m(5) True show ?thesis by (simp add: evs2_def sys_run_def)
    next
      case no: False
      from sends_more[OF run(1,2)[folded y1_def] False no assms(2)] no show ?thesis by (simp add: evs2_def sys_run_def)
    qed
    then have "s_sent (y_snd (sys_run ops evs2 y1)) \<le> length env"
      by (auto simp: smooth_def sys_inv_def sender_inv_def)
    then have dec: "length env - s_sent (y_snd (sys_run ops evs2 y1)) < length env - s_sent (y_snd y)"
      using two run(3) unfolding y1_def by linarith
    show ?thesis
    proof (rule less.hyps[OF dec])
      show "smooth env fin (sys_run ops evs2 y1)" using two by simp
      fix evs3 assume "smooth env fin (sys_run ops evs3 (sys_run ops evs2 y1))" "s_kept (y_snd (sys_run ops evs3 (sys_run ops evs2 y1)))"
      then show ?thesis using less.prems(1)[of "evs @ evs2 @ evs3"] by (simp add: sys_run_append y1_def)
    qed
  qed
qed

end

subsection \<open>The memory sink is willing\<close>

definition manifest_agrees :: "cryptography \<Rightarrow> unicode \<Rightarrow> sink_options \<Rightarrow> bytes \<Rightarrow> bytes \<times> nat \<Rightarrow> bool" where
  "manifest_agrees cr uc opts env fin \<longleftrightarrow>
     so_envelopeBytes opts = length env \<and>
     (\<exists>f. decryptPrivacyEnvelope cr uc (\<lambda>_ _. False) env (so_key opts) = Inr f \<and> r_name f = mf_name (so_manifest opts) \<and>
        r_type f = mf_type (so_manifest opts) \<and> int (length (r_bytes f)) = mf_size (so_manifest opts) \<and>
        length (r_bytes f) = snd fin \<and> sha256 cr (r_bytes f) = fst fin)"

interpretation memory: willing_sink "memory_ops cr uc opts" held_in_memory "verified_file cr uc opts" "manifest_agrees cr uc opts"
  for cr uc opts
proof
  fix env fin s n and bs :: bytes
  assume a: "manifest_agrees cr uc opts env fin" and h: "held_in_memory s = Some (take n env)" and n: "n + length bs \<le> length env"
  obtain parts where "ms_parts s = Some parts" "ms_held s = length (take n env)"
    using h by (auto simp: held_in_memory_def split: option.splits if_splits)
  then show "\<exists>s'. sink_write (memory_ops cr uc opts) s bs = (s', None)"
    using a n by (simp add: manifest_agrees_def memory_ops_def memory_write_def)
next
  fix env fin s
  assume a: "manifest_agrees cr uc opts env fin" and h: "held_in_memory s = Some env"
  obtain parts where "ms_parts s = Some parts" "concat parts = env" "ms_held s = length env"
    using h by (auto simp: held_in_memory_def split: option.splits if_splits)
  then show "\<exists>s'. sink_end (memory_ops cr uc opts) s (fst fin) (int (snd fin)) = (s', None)"
    using a by (auto simp: manifest_agrees_def memory_ops_def memory_end_def Let_def)
qed

lemma sys_step_records: "set (y_records (sys_step ops y ev)) \<subseteq> set (y_records y)"
  by (cases ev) (auto split: list.splits)

lemma sys_run_records: "set (y_records (sys_run ops evs y)) \<subseteq> set (y_records y)"
proof (induction evs arbitrary: y)
  case (Cons ev evs)
  then show ?case using sys_step_records[of ops y ev] by (fastforce simp: sys_run_def)
qed (simp add: sys_run_def)

lemma memory_completes:
  assumes "honest_file header rs fin" "[] \<notin> set rs" "manifest_agrees cr uc opts (header @ concat rs) fin"
    and "y = sys_run (memory_ops cr uc opts) evs (sys_start m su sa ru ra header rs fin createMemorySink)"
    and "s_failure (y_snd y) = None" "r_failure (y_rcv y) = None" "y_s_up y" "y_r_up y"
  obtains evs' where "s_kept (y_snd (sys_run (memory_ops cr uc opts) evs' y))"
    "s_failure (y_snd (sys_run (memory_ops cr uc opts) evs' y)) = None"
proof -
  let ?ops = "memory_ops cr uc opts" and ?env = "header @ concat rs"
  define y1 where "y1 = sys_step ?ops y BufferLow"
  obtain ds where inv: "sys_inv ?env fin ds y" and sink: "memory.sink_holds cr uc opts ?env fin (y_rcv y)"
    using memory_run[OF assms(1,4)] by blast
  obtain ds' where "sys_inv ?env fin ds' y1" unfolding y1_def by (rule sys_step_inv[OF inv])
  moreover have "memory.sink_holds cr uc opts ?env fin (y_rcv y1)" unfolding y1_def by (rule memory.sink_holds_step[OF inv sink])
  moreover have "set (y_records y) \<subseteq> set rs"
    unfolding assms(4) using sys_run_records by (fastforce simp: sys_start_def Let_def)
  ultimately have "memory.smooth cr uc opts ?env fin y1"
    using assms(2,3,5-8) by (auto simp: memory.smooth_def y1_def sender_low_def)
  moreover have "?env \<noteq> []" using assms(1) by (simp add: honest_file_def)
  ultimately obtain evs' where "memory.smooth cr uc opts ?env fin (sys_run ?ops evs' y1)" "s_kept (y_snd (sys_run ?ops evs' y1))"
    by (rule memory.completes)
  then show thesis using that[of "BufferLow # evs'"] by (simp add: memory.smooth_def sys_run_def y1_def)
qed

text \<open>
  Property C9: a transfer can always be completed, for an envelope without an empty record and a
  sink whose key, announced sizes and digest agree with it. From every state that a run of the two
  ends can reach, in whatever way it was reached, as long as neither end has failed and the channel
  is up at both, some continuation ends with the sender told KEPT and not failed.
\<close>

theorem transfer_completes:
  assumes "honest_file header rs fin" "[] \<notin> set rs" "manifest_agrees cr uc opts (header @ concat rs) fin"
    and "y = sys_run (memory_ops cr uc opts) evs (sys_start m su sa ru ra header rs fin createMemorySink)"
    and "s_failure (y_snd y) = None" "r_failure (y_rcv y) = None" "y_s_up y" "y_r_up y"
  shows "\<exists>evs'. s_kept (y_snd (sys_run (memory_ops cr uc opts) evs' y)) \<and>
    s_failure (y_snd (sys_run (memory_ops cr uc opts) evs' y)) = None"
  using memory_completes[OF assms] by metis

end
