(* ===== verification/Transfer_File.thy ===== *)
theory Transfer_File
  imports Transfer_Liveness
begin

text \<open>
  Direct send from end to end: the encoder's envelope, sent by \<open>sendEnvelope\<close>, received by
  \<open>receiveEnvelope\<close> into the memory sink. What is kept is the source file, and such a transfer
  can always be completed.
\<close>

lemma framed_fields:
  "frameMetadata uc name n type = Inr (p, m) \<Longrightarrow> m_name m = sanitiseFileName uc name \<and> m_size m = n"
  by (auto simp: frameMetadata_def result_split Let_def split: if_splits)

lemma encoded_envelope:
  assumes "aead_laws cr" "entropy_ok e" "nfc_laws (nfc uc)" "lower_laws (lower uc)" "stable source bs" "0 < length bs"
    and create: "createEnvelopeEncoder cr uc (\<lambda>_ _. False) e source name type None = Inr enc"
    and seal: "seal_records cr (\<lambda>_ _. False) e source enc [] = Inr (parts, enc')"
  shows "encoder_digest enc' = Inr (sha256 cr bs)"
    and "decryptPrivacyEnvelope cr uc (\<lambda>_ _. False) (env_header enc @ concat parts) (env_inputKey enc) =
      Inr \<lparr>r_bytes = bs, r_name = sanitiseFileName uc name, r_type = m_type (env_metadata enc)\<rparr>"
    and "m_size (env_metadata enc) = length bs"
    and "(\<And>x. length (sha256 cr x) = 32) \<Longrightarrow> honest_file (env_header enc) parts (sha256 cr bs, length bs)"
proof -
  note c = created_encoder[OF create assms(5)]
  have sig: "\<not> (\<lambda>_ _. False) i p" for i p :: nat by simp
  have s: "env_header enc @ concat parts = sealed_file cr (env_key enc) e (whole_plaintext e (env_prefix enc) bs)
      (record_count (length (env_prefix enc) + length bs))" "env_digest enc' = Some (sha256 cr bs)"
    using sealed_encoder[OF assms(2,5) sig create] seal by auto
  show "encoder_digest enc' = Inr (sha256 cr bs)" using s(2) by (simp add: encoder_digest_def)
  have k: "env_inputKey enc = key_text (freshKey e)" "env_key enc = hkdf cr (freshKey e) (salt e) HKDF_INFO_V2"
    and f: "frameMetadata uc name (length bs) type = Inr (env_prefix enc, env_metadata enc)"
    and sz: "length bs \<le> MAX_PROTOTYPE_FILE_BYTES" using c by auto
  have nm: "m_name (env_metadata enc) = sanitiseFileName uc name" and ms: "m_size (env_metadata enc) = length bs"
    using framed_fields[OF f] by auto
  have fx: "sanitiseFileName uc (m_name (env_metadata enc)) = m_name (env_metadata enc)"
    unfolding nm using sanitiseFileName_good[OF assms(3)] good_name_fixed by blast
  have raw: "length (freshKey e) = 32" using assms(2) by (simp add: entropy_ok_def)
  show d: "decryptPrivacyEnvelope cr uc (\<lambda>_ _. False) (env_header enc @ concat parts) (env_inputKey enc) =
      Inr \<lparr>r_bytes = bs, r_name = sanitiseFileName uc name, r_type = m_type (env_metadata enc)\<rparr>"
    using decrypt_sealed[OF assms(1,2) sig raw f fx assms(4,6) sz] unfolding s(1) k nm .
  show "m_size (env_metadata enc) = length bs" by (fact ms)
  have "size_check (assertPrototypeTransferSize (Whole (int (length (env_header enc @ concat parts))))) = Inr ()"
    using d by (auto simp: decryptPrivacyEnvelope_def result_split simp del: length_append length_concat)
  then have "int (length (env_header enc @ concat parts)) \<le> int MAX_PROTOTYPE_TRANSFER_BYTES"
    by (simp add: size_check_def assertPrototypeTransferSize_def split: if_splits del: length_append length_concat)
  then have "int (length (env_header enc @ concat parts)) \<le> MAX_SAFE_INTEGER"
    by (simp add: MAX_PROTOTYPE_TRANSFER_BYTES_def MAX_PROTOTYPE_FILE_BYTES_def MAX_SAFE_INTEGER_def del: length_append length_concat)
  moreover have "env_header enc \<noteq> []" using c v2_header_length[OF assms(2)] by (metis list.size(3) zero_neq_numeral)
  ultimately show "honest_file (env_header enc) parts (sha256 cr bs, length bs)" if "\<And>x. length (sha256 cr x) = 32"
    using that sz by (simp add: honest_file_def MAX_PROTOTYPE_FILE_BYTES_def MAX_SAFE_INTEGER_def)
qed

text \<open>
  Property C1: when the sender of a file is told KEPT and has not failed, the receiver holds that
  very file: the source's bytes, under its sanitised name and its normalised media type. The
  envelope is the one the encoder makes, the sink has the encoder's key, and nothing is assumed of
  the run, of the channel or of the manifest.
\<close>

theorem kept_file_is_source:
  assumes "aead_laws cr" "\<forall>x. length (sha256 cr x) = 32" "entropy_ok e" "nfc_laws (nfc uc)" "lower_laws (lower uc)"
    and "stable source bs" "0 < length bs"
    and "createEnvelopeEncoder cr uc (\<lambda>_ _. False) e source name type None = Inr enc"
    and "seal_records cr (\<lambda>_ _. False) e source enc [] = Inr (parts, enc')" "encoder_digest enc' = Inr digest"
    and "so_key opts = env_inputKey enc"
    and "y = sys_run (memory_ops cr uc opts) evs
           (sys_start m su sa ru ra (env_header enc) parts (digest, m_size (env_metadata enc)) createMemorySink)"
    and "s_kept (y_snd y)" "s_failure (y_snd y) = None"
  shows "ms_file (r_sink (y_rcv y)) =
    Some \<lparr>r_bytes = bs, r_name = sanitiseFileName uc name, r_type = m_type (env_metadata enc)\<rparr>"
proof -
  note E = encoded_envelope[OF assms(1,3-9)]
  have fin: "digest = sha256 cr bs" "m_size (env_metadata enc) = length bs" using E(1,3) assms(10) by simp_all
  have honest: "honest_file (env_header enc) parts (digest, m_size (env_metadata enc))" using E(4) assms(2) fin by simp
  obtain ds where "sys_inv (env_header enc @ concat parts) (digest, m_size (env_metadata enc)) ds y"
    "memory.sink_holds cr uc opts (env_header enc @ concat parts) (digest, m_size (env_metadata enc)) (y_rcv y)"
    using memory_run[OF honest assms(12)] by blast
  from memory.told_kept[OF this assms(13,14)] show ?thesis using E(2) assms(11) by (auto simp: verified_file_def)
qed

subsection \<open>A transfer that completes, for the witnesses\<close>

abbreviation sample_opts :: "envelope_encoder \<Rightarrow> bytes list \<Rightarrow> sink_options" where
  "sample_opts enc parts \<equiv> \<lparr>so_key = env_inputKey enc,
     so_manifest = \<lparr>mf_name = sanitiseFileName sample_unicode (js ''a.txt''), mf_size = 3, mf_type = m_type (env_metadata enc)\<rparr>,
     so_envelopeBytes = length (env_header enc @ concat parts)\<rparr>"

abbreviation sample_transfer :: "envelope_encoder \<Rightarrow> bytes list \<Rightarrow> memory_sink system" where
  "sample_transfer enc parts \<equiv>
     sys_start 16384 True False True False (env_header enc) parts (replicate 32 3, 3) createMemorySink"

lemma sample_sent:
  obtains enc parts enc' where
    "createEnvelopeEncoder sample_crypto sample_unicode (\<lambda>_ _. False) sample_entropy (sample_blob [7, 8, 9])
      (js ''a.txt'') (js ''text/plain'') None = Inr enc"
    "seal_records sample_crypto (\<lambda>_ _. False) sample_entropy (sample_blob [7, 8, 9]) enc [] = Inr (parts, enc')"
    "encoder_digest enc' = Inr (replicate 32 3)" "m_size (env_metadata enc) = 3"
    "honest_file (env_header enc) parts (replicate 32 3, 3)" "[] \<notin> set parts"
    "manifest_agrees sample_crypto sample_unicode (sample_opts enc parts) (env_header enc @ concat parts) (replicate 32 3, 3)"
proof -
  obtain enc where enc: "createEnvelopeEncoder sample_crypto sample_unicode (\<lambda>_ _. False) sample_entropy (sample_blob [7, 8, 9])
      (js ''a.txt'') (js ''text/plain'') None = Inr enc" using sample_encoder by blast
  note c = created_encoder[OF enc sample_platform_laws(4)]
  obtain enc' where parts: "seal_records sample_crypto (\<lambda>_ _. False) sample_entropy (sample_blob [7, 8, 9]) enc [] =
      Inr (map (sealed_by sample_crypto sample_entropy [7, 8, 9] enc) [0..<env_recordCount enc], enc')"
    using seal_records_eq[of sample_entropy "sample_blob [7, 8, 9]" "[7, 8, 9]" enc "\<lambda>_ _. False" sample_crypto "[]"]
      sample_platform_laws(1,4) c by auto
  note E = encoded_envelope[OF sample_crypto_laws sample_platform_laws(1-3) sample_platform_laws(4)[of "[7, 8, 9]"] _ enc parts]
  have sha: "length (sha256 sample_crypto x) = 32" "sha256 sample_crypto [7, 8, 9] = replicate 32 3" for x
    by (simp_all add: sample_crypto_def)
  have "[] \<notin> set (map (sealed_by sample_crypto sample_entropy [7, 8, 9] enc) [0..<env_recordCount enc])"
    using length_seal[OF sample_crypto_laws] by (auto dest: arg_cong[of _ _ length])
  moreover have "encoder_digest enc' = Inr (replicate 32 3)" "m_size (env_metadata enc) = 3" using E(1,3) sha by simp_all
  moreover have "honest_file (env_header enc) (map (sealed_by sample_crypto sample_entropy [7, 8, 9] enc) [0..<env_recordCount enc]) (replicate 32 3, 3)"
    using E(4)[OF _ sha(1)] sha(2) by (simp add: numeral_3_eq_3)
  moreover have "manifest_agrees sample_crypto sample_unicode
      (sample_opts enc (map (sealed_by sample_crypto sample_entropy [7, 8, 9] enc) [0..<env_recordCount enc]))
      (env_header enc @ concat (map (sealed_by sample_crypto sample_entropy [7, 8, 9] enc) [0..<env_recordCount enc])) (replicate 32 3, 3)"
    using E(2) sha(2) by (simp add: manifest_agrees_def)
  ultimately show thesis by (intro that[OF enc parts])
qed

lemma sample_start_ok:
  "s_failure (y_snd (sample_transfer enc parts)) = None" "r_failure (y_rcv (sample_transfer enc parts)) = None"
  "y_s_up (sample_transfer enc parts)" "y_r_up (sample_transfer enc parts)"
  by (simp_all add: sys_start_def sender_start_def receiver_start_def Let_def)

theorem transfer_completes_witness:
  "\<exists>enc parts evs. [] \<notin> set parts \<and>
     s_kept (y_snd (sys_run (memory_ops sample_crypto sample_unicode (sample_opts enc parts)) evs (sample_transfer enc parts)))"
proof (rule sample_sent)
  fix enc parts
  assume h: "honest_file (env_header enc) parts (replicate 32 3, 3)" "[] \<notin> set parts"
    "manifest_agrees sample_crypto sample_unicode (sample_opts enc parts) (env_header enc @ concat parts) (replicate 32 3, 3)"
  have start: "sample_transfer enc parts =
      sys_run (memory_ops sample_crypto sample_unicode (sample_opts enc parts)) [] (sample_transfer enc parts)"
    by (simp add: sys_run_def)
  show ?thesis using transfer_completes[OF h start sample_start_ok] h(2) by blast
qed

theorem kept_means_verified_witness:
  "\<exists>enc parts evs f. let y = sys_run (memory_ops sample_crypto sample_unicode (sample_opts enc parts)) evs (sample_transfer enc parts) in
     s_kept (y_snd y) \<and> s_failure (y_snd y) = None \<and> ms_file (r_sink (y_rcv y)) = Some f \<and>
     length (r_bytes f) = 3 \<and> sha256 sample_crypto (r_bytes f) = replicate 32 3"
proof (rule sample_sent)
  fix enc parts
  assume h: "honest_file (env_header enc) parts (replicate 32 3, 3)" "[] \<notin> set parts"
    "manifest_agrees sample_crypto sample_unicode (sample_opts enc parts) (env_header enc @ concat parts) (replicate 32 3, 3)"
  let ?ops = "memory_ops sample_crypto sample_unicode (sample_opts enc parts)"
  obtain evs where k: "s_kept (y_snd (sys_run ?ops evs (sample_transfer enc parts)))"
    "s_failure (y_snd (sys_run ?ops evs (sample_transfer enc parts))) = None"
    using memory_completes[OF h, of "sample_transfer enc parts" "[]" 16384 True False True False]
    by (auto simp: sys_run_def sample_start_ok)
  obtain f where "ms_file (r_sink (y_rcv (sys_run ?ops evs (sample_transfer enc parts)))) = Some f"
    "length (r_bytes f) = 3" "sha256 sample_crypto (r_bytes f) = replicate 32 3"
    using kept_means_verified[OF h(1) refl] k by fastforce
  with k show ?thesis unfolding Let_def by blast
qed

theorem kept_file_is_source_witness:
  "\<exists>enc parts evs. ms_file (r_sink (y_rcv (sys_run (memory_ops sample_crypto sample_unicode (sample_opts enc parts)) evs
       (sample_transfer enc parts)))) =
     Some \<lparr>r_bytes = [7, 8, 9], r_name = sanitiseFileName sample_unicode (js ''a.txt''), r_type = m_type (env_metadata enc)\<rparr>"
proof (rule sample_sent)
  fix enc parts enc'
  assume e: "createEnvelopeEncoder sample_crypto sample_unicode (\<lambda>_ _. False) sample_entropy (sample_blob [7, 8, 9])
      (js ''a.txt'') (js ''text/plain'') None = Inr enc"
    "seal_records sample_crypto (\<lambda>_ _. False) sample_entropy (sample_blob [7, 8, 9]) enc [] = Inr (parts, enc')"
    "encoder_digest enc' = Inr (replicate 32 3)" and sz: "m_size (env_metadata enc) = 3"
    and h: "honest_file (env_header enc) parts (replicate 32 3, 3)" "[] \<notin> set parts"
    "manifest_agrees sample_crypto sample_unicode (sample_opts enc parts) (env_header enc @ concat parts) (replicate 32 3, 3)"
  let ?ops = "memory_ops sample_crypto sample_unicode (sample_opts enc parts)"
  obtain evs where k: "s_kept (y_snd (sys_run ?ops evs (sample_transfer enc parts)))"
    "s_failure (y_snd (sys_run ?ops evs (sample_transfer enc parts))) = None"
    using memory_completes[OF h, of "sample_transfer enc parts" "[]" 16384 True False True False]
    by (auto simp: sys_run_def sample_start_ok)
  have "\<forall>x. length (sha256 sample_crypto x) = 32" by (simp add: sample_crypto_def)
  moreover have "sys_run ?ops evs (sample_transfer enc parts) = sys_run ?ops evs
      (sys_start 16384 True False True False (env_header enc) parts (replicate 32 3, m_size (env_metadata enc)) createMemorySink)"
    by (simp add: sz)
  moreover have "so_key (sample_opts enc parts) = env_inputKey enc" "0 < length [7, 8, 9 :: byte]" by simp_all
  ultimately show ?thesis
    using kept_file_is_source[OF sample_crypto_laws _ sample_platform_laws(1-3) sample_platform_laws(4) _ e _ _ k] by blast
qed

end
