(* ===== verification/Pacing.thy ===== *)
theory Pacing
  imports Transfer_Ends Complex_Main
begin

text \<open>
  Pacing of a relayed send (\<open>src/direct/pacing.ts\<close>): the stricter of several rules, the token
  bucket, the rule that follows the path, and the watch that keeps it told. Bytes are integers;
  milliseconds and tokens are rationals, so the bucket's arithmetic is exact where the code's is
  in floating point. Each reading of the clock is an argument.
\<close>

record pacing_state =
  ps_inFlight :: nat
  ps_buffered :: nat
  ps_paused :: bool
  ps_sent :: nat
  ps_wanted :: nat

record verdict =
  v_bytes :: int
  v_retryMs :: "int option"

definition protocol_rule :: "pacing_state \<Rightarrow> verdict" where
  "protocol_rule st = \<lparr>v_bytes = protocolPacing (ps_inFlight st) (ps_paused st), v_retryMs = None\<rparr>"

text \<open>The verdicts of the rules in order; \<open>None\<close> for the bytes is the initial infinity.\<close>

definition sooner :: "int option \<Rightarrow> int \<Rightarrow> int option" where
  "sooner r ms = Some (case r of None \<Rightarrow> ms | Some old \<Rightarrow> min old ms)"

fun stricter_loop :: "int option \<Rightarrow> int option \<Rightarrow> verdict list \<Rightarrow> int option \<times> int option" where
  "stricter_loop b r [] = (b, r)"
| "stricter_loop b r (v # vs) =
     stricter_loop (Some (case b of None \<Rightarrow> v_bytes v | Some x \<Rightarrow> min x (v_bytes v)))
       (case v_retryMs v of Some ms \<Rightarrow> if v_bytes v \<le> 0 then sooner r ms else r | None \<Rightarrow> r) vs"

text \<open>No verdict, \<open>None\<close>, is the unlimited one of no rules at all.\<close>

definition stricter :: "verdict list \<Rightarrow> verdict option" where
  "stricter vs =
     (case stricter_loop None None vs of
        (None, _) \<Rightarrow> None
      | (Some b, r) \<Rightarrow> Some (if 0 < b then \<lparr>v_bytes = b, v_retryMs = None\<rparr> else \<lparr>v_bytes = 0, v_retryMs = r\<rparr>))"

subsection \<open>The token bucket\<close>

record rate_pacer =
  rp_rate :: rat
  rp_burst :: rat
  rp_tokens :: rat
  rp_lastSent :: "nat option"
  rp_lastTime :: rat

definition createRatePacer :: "rat option \<Rightarrow> rat option \<Rightarrow> rate_pacer" where
  "createRatePacer bytesPerSecond burstBytes =
     (let rate = (case bytesPerSecond of Some r \<Rightarrow> r | None \<Rightarrow> of_nat (relayBytesPerSecond LIMITS));
          burst = (case burstBytes of Some b \<Rightarrow> b | None \<Rightarrow> of_nat (relayBurstBytes LIMITS))
      in \<lparr>rp_rate = rate, rp_burst = burst, rp_tokens = burst, rp_lastSent = None, rp_lastTime = 0\<rparr>)"

definition rate_tokens :: "rate_pacer \<Rightarrow> rat \<Rightarrow> nat \<Rightarrow> rat" where
  "rate_tokens rp time sent =
     (case rp_lastSent rp of
        None \<Rightarrow> rp_burst rp
      | Some before \<Rightarrow>
          min (rp_burst rp) (rp_tokens rp - (of_nat sent - of_nat before) + (time - rp_lastTime rp) / 1000 * rp_rate rp))"

definition rate_pacing :: "rate_pacer \<Rightarrow> rat \<Rightarrow> pacing_state \<Rightarrow> verdict \<times> rate_pacer" where
  "rate_pacing rp time st =
     (let tokens = rate_tokens rp time (ps_sent st);
          need = min (of_nat (ps_wanted st)) (rp_burst rp);
          rp' = rp\<lparr>rp_tokens := tokens, rp_lastSent := Some (ps_sent st), rp_lastTime := time\<rparr>
      in (if need \<le> tokens then \<lparr>v_bytes = max 1 \<lfloor>tokens\<rfloor>, v_retryMs = None\<rparr>
          else \<lparr>v_bytes = 0, v_retryMs = Some (max 1 \<lceil>(need - tokens) / rp_rate rp * 1000\<rceil>)\<rparr>, rp'))"

definition rate_reset :: "rate_pacer \<Rightarrow> rate_pacer" where
  "rate_reset rp = rp\<lparr>rp_lastSent := None\<rparr>"

subsection \<open>Pacing that follows the path\<close>

definition UNKNOWN_RETRY_MS :: int where "UNKNOWN_RETRY_MS = 250"

record path_pacing =
  pp_rate :: rate_pacer
  pp_relayed :: "bool option"

definition createPathPacing :: "rat option \<Rightarrow> rat option \<Rightarrow> path_pacing" where
  "createPathPacing bytesPerSecond burstBytes = \<lparr>pp_rate = createRatePacer bytesPerSecond burstBytes, pp_relayed = None\<rparr>"

definition setRelayed :: "bool option \<Rightarrow> path_pacing \<Rightarrow> path_pacing" where
  "setRelayed relayed pp =
     pp\<lparr>pp_rate := (if relayed = Some False \<and> pp_relayed pp \<noteq> Some False then rate_reset (pp_rate pp) else pp_rate pp),
        pp_relayed := relayed\<rparr>"

definition relayedRule :: "rate_pacer \<Rightarrow> rat \<Rightarrow> pacing_state \<Rightarrow> verdict option \<times> rate_pacer" where
  "relayedRule rp time st = (let (v, rp') = rate_pacing rp time st in (stricter [protocol_rule st, v], rp'))"

definition path_rule :: "path_pacing \<Rightarrow> rat \<Rightarrow> pacing_state \<Rightarrow> verdict \<times> path_pacing" where
  "path_rule pp time st =
     (if pp_relayed pp = Some False then (protocol_rule st, pp)
      else case relayedRule (pp_rate pp) time st of
          (None, rp) \<Rightarrow> (\<lparr>v_bytes = 0, v_retryMs = None\<rparr>, pp)
        | (Some v, rp) \<Rightarrow>
            (if pp_relayed pp = None \<and> v_bytes v = 0
             then v\<lparr>v_retryMs := Some (min (case v_retryMs v of Some ms \<Rightarrow> ms | None \<Rightarrow> UNKNOWN_RETRY_MS) UNKNOWN_RETRY_MS)\<rparr>
             else v, pp\<lparr>pp_rate := rp\<rparr>))"

subsection \<open>What a pacing rule promises the sender\<close>

text \<open>
  The sender consults its rule with whatever state the rule keeps. A rule never allows more than
  the protocol's own, never a negative number, and one that holds back what the protocol would
  allow says when to ask again, since no acknowledgement or drain may come to wake the sender.
\<close>

locale pacing_contract =
  fixes rule :: "'s \<Rightarrow> rat \<Rightarrow> pacing_state \<Rightarrow> verdict \<times> 's"
    and ok :: "'s \<Rightarrow> bool"
  assumes rule_ok: "ok s \<Longrightarrow> ok (snd (rule s time st))"
    and rule_nonneg: "ok s \<Longrightarrow> 0 \<le> v_bytes (fst (rule s time st))"
    and rule_strict: "ok s \<Longrightarrow> v_bytes (fst (rule s time st)) \<le> protocolPacing (ps_inFlight st) (ps_paused st)"
    and rule_retry: "ok s \<Longrightarrow> v_bytes (fst (rule s time st)) = 0 \<Longrightarrow> 0 < protocolPacing (ps_inFlight st) (ps_paused st) \<Longrightarrow>
      \<exists>ms. v_retryMs (fst (rule s time st)) = Some ms \<and> 1 \<le> ms"
begin

text \<open>What the sender asks of the rule, and a turn under the rule's answer.\<close>

definition asked :: "sender \<Rightarrow> nat \<Rightarrow> pacing_state" where
  "asked sn buffered = \<lparr>ps_inFlight = s_sent sn - s_acked sn, ps_buffered = buffered, ps_paused = s_paused sn,
     ps_sent = s_sent sn, ps_wanted = wanted_bytes sn\<rparr>"

lemma ceiling_slack:
  assumes "ok s" "s_acked sn \<le> s_sent sn" "s_sent sn - s_acked sn \<le> unacknowledgedBytes LIMITS"
  shows "allowed_bytes (v_bytes (fst (rule s time (asked sn b)))) sn = v_bytes (fst (rule s time (asked sn b)))"
  using rule_strict[OF assms(1), of time "asked sn b"] assms(2,3)
  by (auto simp: allowed_bytes_def asked_def protocolPacing_def of_nat_diff split: if_splits)

lemma held_back_is_woken:
  assumes "ok s" "v_bytes (fst (rule s time (asked sn b))) = 0"
  shows "s_paused sn \<or> unacknowledgedBytes LIMITS \<le> s_sent sn - s_acked sn \<or>
    (\<exists>ms. v_retryMs (fst (rule s time (asked sn b))) = Some ms \<and> 1 \<le> ms)"
proof (cases "0 < protocolPacing (s_sent sn - s_acked sn) (s_paused sn)")
  case True
  then show ?thesis using rule_retry[OF assms] by (simp add: asked_def)
next
  case False
  then show ?thesis by (auto simp: protocolPacing_def split: if_splits)
qed

end

interpretation plain: pacing_contract "\<lambda>u _ st. (protocol_rule st, u)" "\<lambda>_ :: unit. True"
  by unfold_locales (auto simp: protocol_rule_def protocolPacing_def)

subsection \<open>The bucket's laws\<close>

definition rate_ok :: "rate_pacer \<Rightarrow> bool" where
  "rate_ok rp \<longleftrightarrow> 0 < rp_rate rp \<and> 1 \<le> rp_burst rp"

lemma rate_pacing_keeps [simp]:
  "rp_rate (snd (rate_pacing rp t st)) = rp_rate rp" "rp_burst (snd (rate_pacing rp t st)) = rp_burst rp"
  "rp_tokens (snd (rate_pacing rp t st)) = rate_tokens rp t (ps_sent st)"
  "rp_lastSent (snd (rate_pacing rp t st)) = Some (ps_sent st)" "rp_lastTime (snd (rate_pacing rp t st)) = t"
  by (simp_all add: rate_pacing_def Let_def)

lemma rate_ok_pacing [simp]: "rate_ok (snd (rate_pacing rp t st)) = rate_ok rp"
  by (simp add: rate_ok_def)

lemma rate_verdict:
  "0 \<le> v_bytes (fst (rate_pacing rp t st))"
  "v_bytes (fst (rate_pacing rp t st)) = 0 \<Longrightarrow> \<exists>ms. v_retryMs (fst (rate_pacing rp t st)) = Some ms \<and> 1 \<le> ms"
  by (auto simp: rate_pacing_def Let_def)

lemma stricter_two:
  "stricter [v, w] = Some (if 0 < min (v_bytes v) (v_bytes w) then \<lparr>v_bytes = min (v_bytes v) (v_bytes w), v_retryMs = None\<rparr>
     else \<lparr>v_bytes = 0, v_retryMs = snd (stricter_loop None None [v, w])\<rparr>)"
  by (simp add: stricter_def Let_def split: option.splits)

lemma path_rule_eq:
  "path_rule pp t st =
     (if pp_relayed pp = Some False then (protocol_rule st, pp)
      else let w = fst (rate_pacing (pp_rate pp) t st); b = min (v_bytes (protocol_rule st)) (v_bytes w);
               r = (if v_bytes w \<le> 0 then v_retryMs w else None)
           in (if 0 < b then \<lparr>v_bytes = b, v_retryMs = None\<rparr>
               else \<lparr>v_bytes = 0, v_retryMs = (if pp_relayed pp = None
                 then Some (min (case r of Some ms \<Rightarrow> ms | None \<Rightarrow> UNKNOWN_RETRY_MS) UNKNOWN_RETRY_MS) else r)\<rparr>,
               pp\<lparr>pp_rate := snd (rate_pacing (pp_rate pp) t st)\<rparr>))"
  by (auto simp: path_rule_def relayedRule_def stricter_two sooner_def protocol_rule_def Let_def split: option.splits prod.splits)

interpretation path: pacing_contract path_rule "\<lambda>pp. rate_ok (pp_rate pp)"
proof
  fix pp :: path_pacing and t st
  assume ok: "rate_ok (pp_rate pp)"
  show "rate_ok (pp_rate (snd (path_rule pp t st)))" using ok by (simp add: path_rule_eq Let_def)
  show "0 \<le> v_bytes (fst (path_rule pp t st))" by (simp add: path_rule_eq Let_def protocol_rule_def protocolPacing_def)
  show "v_bytes (fst (path_rule pp t st)) \<le> protocolPacing (ps_inFlight st) (ps_paused st)"
    by (simp add: path_rule_eq Let_def protocol_rule_def protocolPacing_def)
  assume "v_bytes (fst (path_rule pp t st)) = 0" "0 < protocolPacing (ps_inFlight st) (ps_paused st)"
  then have "v_bytes (fst (rate_pacing (pp_rate pp) t st)) = 0" "pp_relayed pp \<noteq> Some False"
    using rate_verdict(1)[of "pp_rate pp" t st] by (auto simp: path_rule_eq Let_def protocol_rule_def split: if_splits)
  moreover from this(1) obtain ms where "v_retryMs (fst (rate_pacing (pp_rate pp) t st)) = Some ms" "1 \<le> ms"
    using rate_verdict(2) by blast
  ultimately show "\<exists>ms. v_retryMs (fst (path_rule pp t st)) = Some ms \<and> 1 \<le> ms"
    by (auto simp: path_rule_eq Let_def protocol_rule_def UNKNOWN_RETRY_MS_def)
qed

text \<open>
  A sender that consults the bucket: each consultation has its time and the sender's state, and
  between one and the next at most the bytes it was allowed, and wanted, are sent.
\<close>

fun paced :: "rate_pacer \<Rightarrow> (rat \<times> pacing_state) list \<Rightarrow> bool" where
  "paced rp [] = True"
| "paced rp [(t, st)] = (0 < ps_wanted st)"
| "paced rp ((t, st) # (t', st') # rest) =
     (0 < ps_wanted st \<and> t \<le> t' \<and> ps_sent st \<le> ps_sent st' \<and>
      int (ps_sent st') \<le> int (ps_sent st) + min (int (ps_wanted st)) (v_bytes (fst (rate_pacing rp t st))) \<and>
      paced (snd (rate_pacing rp t st)) ((t', st') # rest))"

lemma spent_within:
  assumes "rate_ok rp" "0 < ps_wanted st" "0 \<le> rate_tokens rp t (ps_sent st)"
  shows "of_int (min (int (ps_wanted st)) (v_bytes (fst (rate_pacing rp t st)))) \<le> rate_tokens rp t (ps_sent st)"
proof (cases "min (of_nat (ps_wanted st)) (rp_burst rp) \<le> rate_tokens rp t (ps_sent st)")
  case True
  moreover have "(1 :: rat) \<le> min (of_nat (ps_wanted st)) (rp_burst rp)" using assms(1,2) by (simp add: rate_ok_def)
  ultimately have one: "1 \<le> rate_tokens rp t (ps_sent st)" by (rule order_trans[rotated])
  then have "v_bytes (fst (rate_pacing rp t st)) = \<lfloor>rate_tokens rp t (ps_sent st)\<rfloor>"
    using True by (simp add: rate_pacing_def Let_def max_def le_floor_iff)
  moreover have "min (int (ps_wanted st)) \<lfloor>rate_tokens rp t (ps_sent st)\<rfloor> \<le> \<lfloor>rate_tokens rp t (ps_sent st)\<rfloor>" by simp
  ultimately show ?thesis by (simp only: le_floor_iff)
next
  case False
  then show ?thesis using assms(3) by (simp add: rate_pacing_def Let_def)
qed

lemma tokens_advance:
  assumes "rp_lastSent rp = Some n" "n \<le> sent"
  shows "rate_tokens rp t sent \<le> rp_tokens rp - (of_nat sent - of_nat n) + (t - rp_lastTime rp) / 1000 * rp_rate rp"
    "rate_tokens rp t sent \<le> rp_burst rp"
  using assms by (simp_all add: rate_tokens_def)

lemma paced_step:
  assumes "rate_ok rp" "paced rp ((t, st) # (t', st') # cs)" "0 \<le> rate_tokens rp t (ps_sent st)"
  shows "0 \<le> rate_tokens (snd (rate_pacing rp t st)) t' (ps_sent st')"
    and "rate_tokens (snd (rate_pacing rp t st)) t' (ps_sent st') \<le>
      rate_tokens rp t (ps_sent st) - (of_nat (ps_sent st') - of_nat (ps_sent st)) + (t' - t) / 1000 * rp_rate rp"
proof -
  have p: "0 < ps_wanted st" "t \<le> t'" "ps_sent st \<le> ps_sent st'"
    "int (ps_sent st') \<le> int (ps_sent st) + min (int (ps_wanted st)) (v_bytes (fst (rate_pacing rp t st)))"
    using assms(2) by simp_all
  have rate: "0 < rp_rate rp" "1 \<le> rp_burst rp" using assms(1) by (simp_all add: rate_ok_def)
  have "of_int (int (ps_sent st')) \<le> (of_int (int (ps_sent st) + min (int (ps_wanted st)) (v_bytes (fst (rate_pacing rp t st)))) :: rat)"
    using p(4) by (simp only: of_int_le_iff)
  then have "(of_nat (ps_sent st') - of_nat (ps_sent st) :: rat) \<le> rate_tokens rp t (ps_sent st)"
    using spent_within[OF assms(1) p(1) assms(3)] by simp
  moreover have "0 \<le> (t' - t) / 1000 * rp_rate rp" using p(2) rate by simp
  ultimately show "0 \<le> rate_tokens (snd (rate_pacing rp t st)) t' (ps_sent st')"
    using rate by (simp add: rate_tokens_def[of "snd (rate_pacing rp t st)"])
  show "rate_tokens (snd (rate_pacing rp t st)) t' (ps_sent st') \<le>
      rate_tokens rp t (ps_sent st) - (of_nat (ps_sent st') - of_nat (ps_sent st)) + (t' - t) / 1000 * rp_rate rp"
    by (simp add: rate_tokens_def[of "snd (rate_pacing rp t st)"])
qed

lemma paced_stretch:
  assumes "rate_ok rp" "paced rp ((t, st) # cs)" "0 \<le> rate_tokens rp t (ps_sent st)" "j < length ((t, st) # cs)"
  shows "0 \<le> rate_tokens rp t (ps_sent st) - (of_nat (ps_sent (snd (((t, st) # cs) ! j))) - of_nat (ps_sent st))
    + (fst (((t, st) # cs) ! j) - t) / 1000 * rp_rate rp"
  using assms
proof (induction cs arbitrary: rp t st j)
  case Nil
  then show ?case by simp
next
  case (Cons c cs)
  obtain t' st' where c: "c = (t', st')" by (cases c)
  note step = paced_step[OF Cons.prems(1) Cons.prems(2)[unfolded c] Cons.prems(3)]
  have p: "paced (snd (rate_pacing rp t st)) ((t', st') # cs)" "rate_ok (snd (rate_pacing rp t st))"
    using Cons.prems(1,2) by (simp_all add: c)
  show ?case
  proof (cases j)
    case 0
    then show ?thesis using Cons.prems(3) by simp
  next
    case (Suc k)
    then have k: "k < length ((t', st') # cs)" using Cons.prems(4) c by simp
    define u where "u = ((t', st') # cs) ! k"
    show ?thesis using Cons.IH[OF p(2,1) step(1) k] step(2) by (simp add: Suc c u_def[symmetric] field_simps)
  qed
qed

lemma paced_drop:
  assumes "rate_ok rp" "paced rp ((t, st) # cs)" "0 \<le> rate_tokens rp t (ps_sent st)" "i < length ((t, st) # cs)"
  obtains rp' where "rate_ok rp'" "rp_rate rp' = rp_rate rp" "rp_burst rp' = rp_burst rp" "paced rp' (drop i ((t, st) # cs))"
    "0 \<le> rate_tokens rp' (fst (((t, st) # cs) ! i)) (ps_sent (snd (((t, st) # cs) ! i)))"
  using assms
proof (induction i arbitrary: rp t st cs thesis)
  case 0
  show ?case by (rule 0(1)[of rp]) (use 0(2-) in simp_all)
next
  case (Suc i)
  obtain t' st' cs' where cs: "cs = (t', st') # cs'" using Suc.prems(5) by (cases cs) auto
  note step = paced_step[OF Suc.prems(2) Suc.prems(3)[unfolded cs] Suc.prems(4)]
  have p: "paced (snd (rate_pacing rp t st)) ((t', st') # cs')" "rate_ok (snd (rate_pacing rp t st))" "i < length ((t', st') # cs')"
    using Suc.prems(2,3,5) by (simp_all add: cs)
  show ?case by (rule Suc.IH[OF _ p(2,1) step(1) p(3)], rule Suc.prems(1)) (simp_all add: cs)
qed

lemma fresh_tokens: "rp_lastSent rp = None \<Longrightarrow> rate_tokens rp t n = rp_burst rp"
  by (simp add: rate_tokens_def)

lemma tokens_burst: "rate_tokens rp t n \<le> rp_burst rp"
  by (simp add: rate_tokens_def split: option.splits)

text \<open>
  Property C24: over any stretch of consultations of the token bucket, from the \<open>i\<close>th to the \<open>j\<close>th,
  no more is sent than the bucket plus the rate times the stretch, however the consultations are
  spaced in time, whatever frames are wanted, and from a new bucket or one just reset.
\<close>

theorem rate_bounds_sent:
  assumes "rp = createRatePacer bps bb \<or> rp = rate_reset rp0" "0 < rp_rate rp" "1 \<le> rp_burst rp" "paced rp cs" "i \<le> j" "j < length cs"
  shows "of_nat (ps_sent (snd (cs ! j))) - of_nat (ps_sent (snd (cs ! i))) \<le>
    rp_burst rp + rp_rate rp * (fst (cs ! j) - fst (cs ! i)) / 1000"
proof -
  obtain t st cs' where cs: "cs = (t, st) # cs'" using assms(6) by (cases cs) auto
  have ok: "rate_ok rp" using assms(2,3) by (simp add: rate_ok_def)
  have "rp_lastSent rp = None" using assms(1) by (auto simp: createRatePacer_def rate_reset_def Let_def)
  then have "0 \<le> rate_tokens rp t (ps_sent st)" using assms(3) by (simp add: fresh_tokens)
  moreover have "i < length cs" using assms(5,6) by simp
  ultimately obtain rp' where rp': "rate_ok rp'" "rp_rate rp' = rp_rate rp"
    "rp_burst rp' = rp_burst rp" "paced rp' (drop i cs)" "0 \<le> rate_tokens rp' (fst (cs ! i)) (ps_sent (snd (cs ! i)))"
    using paced_drop[OF ok assms(4)[unfolded cs], of i] unfolding cs[symmetric] by metis
  have split: "drop i cs = (fst (cs ! i), snd (cs ! i)) # drop (Suc i) cs" using assms(5,6) by (simp add: Cons_nth_drop_Suc)
  have "((fst (cs ! i), snd (cs ! i)) # drop (Suc i) cs) ! (j - i) = cs ! j" using assms(5,6) unfolding split[symmetric] by simp
  moreover have "j - i < length ((fst (cs ! i), snd (cs ! i)) # drop (Suc i) cs)" using assms(5,6) unfolding split[symmetric] by simp
  ultimately have "0 \<le> rate_tokens rp' (fst (cs ! i)) (ps_sent (snd (cs ! i))) -
      (of_nat (ps_sent (snd (cs ! j))) - of_nat (ps_sent (snd (cs ! i)))) + (fst (cs ! j) - fst (cs ! i)) / 1000 * rp_rate rp"
    using paced_stretch[OF rp'(1) rp'(4)[unfolded split] rp'(5), of "j - i"] rp'(2) by simp
  then show ?thesis using tokens_burst[of rp' "fst (cs ! i)" "ps_sent (snd (cs ! i))"] rp'(3) by (simp add: mult.commute)
qed

abbreviation sample_consults :: "(rat \<times> pacing_state) list" where
  "sample_consults \<equiv>
     [(0, \<lparr>ps_inFlight = 0, ps_buffered = 0, ps_paused = False, ps_sent = 0, ps_wanted = 65000\<rparr>),
      (10, \<lparr>ps_inFlight = 65000, ps_buffered = 0, ps_paused = False, ps_sent = 65000, ps_wanted = 65000\<rparr>),
      (160, \<lparr>ps_inFlight = 65000, ps_buffered = 0, ps_paused = False, ps_sent = 65000, ps_wanted = 60000\<rparr>),
      (170, \<lparr>ps_inFlight = 125000, ps_buffered = 0, ps_paused = False, ps_sent = 125000, ps_wanted = 1\<rparr>)]"

lemma sample_paced: "paced (createRatePacer None None) sample_consults"
  by (simp add: createRatePacer_def rate_pacing_def rate_tokens_def Let_def)

theorem rate_bounds_sent_witness:
  "(of_nat 125000 - of_nat 0 :: rat) \<le> 65536 + 400000 * (170 - 0) / 1000 \<and> paced (createRatePacer None None) sample_consults"
proof -
  have "rp_rate (createRatePacer None None) = 400000" "rp_burst (createRatePacer None None) = 65536"
    by (simp_all add: createRatePacer_def Let_def)
  then show ?thesis using rate_bounds_sent[OF disjI1[OF refl] _ _ sample_paced, of 0 3] sample_paced by simp
qed

text \<open>
  Property C25: the rule that follows the path keeps the sender's contract in every state: it never
  allows more than the protocol's own rule, which allows nothing while the buffer is over its mark,
  so the window is never what cuts a frame short, and when
  it holds the sender back with neither a full window nor a full buffer, which an acknowledgement
  or a drain would end, it says when to ask again.
\<close>

theorem path_pacing_contract:
  assumes "0 < rp_rate (pp_rate pp)" "1 \<le> rp_burst (pp_rate pp)" "s_acked sn \<le> s_sent sn"
    and "s_sent sn - s_acked sn \<le> unacknowledgedBytes LIMITS"
    and "path_rule pp t \<lparr>ps_inFlight = s_sent sn - s_acked sn, ps_buffered = b, ps_paused = s_paused sn,
           ps_sent = s_sent sn, ps_wanted = wanted_bytes sn\<rparr> = (v, pp')"
  shows "v_bytes v \<le> protocolPacing (s_sent sn - s_acked sn) (s_paused sn) \<and> (s_paused sn \<longrightarrow> v_bytes v = 0) \<and>
    allowed_bytes (v_bytes v) sn = v_bytes v \<and> 0 \<le> v_bytes v \<and>
    (v_bytes v = 0 \<longrightarrow> s_paused sn \<or> s_sent sn - s_acked sn = unacknowledgedBytes LIMITS \<or>
      (\<exists>ms. v_retryMs v = Some ms \<and> 1 \<le> ms))"
proof -
  have ok: "rate_ok (pp_rate pp)" using assms(1,2) by (simp add: rate_ok_def)
  have v: "fst (path_rule pp t (path.asked sn b)) = v" unfolding path.asked_def using assms(5) by simp
  show ?thesis
    using path.ceiling_slack[OF ok assms(3,4), of t b] path.held_back_is_woken[OF ok, of t sn b]
      path.rule_nonneg[OF ok, of t "path.asked sn b"] path.rule_strict[OF ok, of t "path.asked sn b"] assms(4)
    unfolding v by (auto simp: path.asked_def protocolPacing_def)
qed

theorem path_pacing_contract_witness:
  "let sn = sender_start 16384 True False 100 [1, 2, 3] ([], 3);
       v = fst (path_rule (createPathPacing None None) 0 \<lparr>ps_inFlight = s_sent sn - s_acked sn, ps_buffered = 0,
             ps_paused = s_paused sn, ps_sent = s_sent sn, ps_wanted = wanted_bytes sn\<rparr>)
   in allowed_bytes (v_bytes v) sn = v_bytes v \<and> 0 \<le> v_bytes v"
proof -
  define sn where "sn = sender_start 16384 True False 100 [1, 2, 3] ([], 3)"
  have "s_acked sn \<le> s_sent sn" "s_sent sn - s_acked sn \<le> unacknowledgedBytes LIMITS"
    by (simp_all add: sn_def sender_start_def Let_def)
  moreover have "0 < rp_rate (pp_rate (createPathPacing None None))" "1 \<le> rp_burst (pp_rate (createPathPacing None None))"
    by (simp_all add: createPathPacing_def createRatePacer_def)
  ultimately show ?thesis using path_pacing_contract[OF _ _ _ _ surjective_pairing] unfolding Let_def sn_def[symmetric] by blast
qed

subsection \<open>Watching the path\<close>

text \<open>
  \<open>watchPath\<close>: the timers that are set and the reads that are pending, each with what its
  continuation holds: the generation of its \<open>refresh\<close> and the attempts made so far. Every answer
  given to \<open>apply\<close> is in the log.
\<close>

datatype path_read = FirstRead nat | AgainRead nat nat | SettleRead

record path_watch =
  pw_stopped :: bool
  pw_generation :: nat
  pw_retries :: "(nat \<times> nat) list"
  pw_settles :: nat
  pw_reads :: "path_read list"
  pw_started :: nat
  pw_applied :: "bool list"

definition path_watch_start :: path_watch where
  "path_watch_start = \<lparr>pw_stopped = False, pw_generation = 0, pw_retries = [], pw_settles = 0, pw_reads = [],
     pw_started = 0, pw_applied = []\<rparr>"

definition readOnce :: "path_read \<Rightarrow> path_watch \<Rightarrow> path_watch" where
  "readOnce r pw = pw\<lparr>pw_reads := pw_reads pw @ [r], pw_started := pw_started pw + 1\<rparr>"

definition path_refresh :: "path_watch \<Rightarrow> path_watch" where
  "path_refresh pw =
     (let mine = pw_generation pw + 1 in readOnce (FirstRead mine) (pw\<lparr>pw_retries := [], pw_generation := mine\<rparr>))"

definition afterRestart :: "nat \<Rightarrow> path_watch \<Rightarrow> path_watch" where
  "afterRestart settles pw = (path_refresh (pw\<lparr>pw_settles := 0\<rparr>))\<lparr>pw_settles := settles\<rparr>"

definition watch_stop :: "path_watch \<Rightarrow> path_watch" where
  "watch_stop pw = pw\<lparr>pw_stopped := True, pw_retries := [], pw_settles := 0\<rparr>"

text \<open>A pending read ends; a rejected one answers \<open>None\<close>, like one that finds no pair.\<close>

definition read_done :: "nat \<Rightarrow> bool option \<Rightarrow> path_watch \<Rightarrow> path_watch" where
  "read_done i res pw =
     (if i < length (pw_reads pw) then
        let pw1 = pw\<lparr>pw_reads := take i (pw_reads pw) @ drop (Suc i) (pw_reads pw)\<rparr>;
            pw2 = (case res of
                     Some relayed \<Rightarrow> if \<not> pw_stopped pw then pw1\<lparr>pw_applied := pw_applied pw @ [relayed]\<rparr> else pw1
                   | None \<Rightarrow> pw1)
        in (case (pw_reads pw ! i, res) of
              (FirstRead mine, None) \<Rightarrow> pw2\<lparr>pw_retries := pw_retries pw @ [(mine, 0)]\<rparr>
            | (AgainRead mine attempts, None) \<Rightarrow> pw2\<lparr>pw_retries := pw_retries pw @ [(mine, attempts)]\<rparr>
            | _ \<Rightarrow> pw2)
      else pw)"

definition retry_fires :: "nat \<Rightarrow> nat \<Rightarrow> path_watch \<Rightarrow> path_watch" where
  "retry_fires maxRetries i pw =
     (if i < length (pw_retries pw) then
        let (mine, attempts) = pw_retries pw ! i;
            pw1 = pw\<lparr>pw_retries := take i (pw_retries pw) @ drop (Suc i) (pw_retries pw)\<rparr>
        in if pw_stopped pw \<or> mine \<noteq> pw_generation pw \<or> maxRetries \<le> attempts then pw1
           else readOnce (AgainRead mine (attempts + 1)) pw1
      else pw)"

definition settle_fires :: "path_watch \<Rightarrow> path_watch" where
  "settle_fires pw =
     (if 0 < pw_settles pw then
        let pw1 = pw\<lparr>pw_settles := pw_settles pw - 1\<rparr> in if pw_stopped pw then pw1 else readOnce SettleRead pw1
      else pw)"

datatype watch_event = WRefresh | WAfterRestart | WStop | WRead nat "bool option" | WRetry nat | WSettle

fun watch_step :: "nat \<Rightarrow> nat \<Rightarrow> path_watch \<Rightarrow> watch_event \<Rightarrow> path_watch" where
  "watch_step maxRetries settles pw WRefresh = path_refresh pw"
| "watch_step maxRetries settles pw WAfterRestart = afterRestart settles pw"
| "watch_step maxRetries settles pw WStop = watch_stop pw"
| "watch_step maxRetries settles pw (WRead i res) = read_done i res pw"
| "watch_step maxRetries settles pw (WRetry i) = retry_fires maxRetries i pw"
| "watch_step maxRetries settles pw WSettle = settle_fires pw"

definition watch_run :: "nat \<Rightarrow> nat \<Rightarrow> path_watch \<Rightarrow> watch_event list \<Rightarrow> path_watch" where
  "watch_run maxRetries settles = foldl (watch_step maxRetries settles)"

lemmas watch_defs = path_refresh_def afterRestart_def watch_stop_def read_done_def retry_fires_def settle_fires_def readOnce_def Let_def

text \<open>What a read or a timer can still start, counted with itself for a timer.\<close>

definition chain_cost :: "nat \<Rightarrow> nat \<Rightarrow> nat" where "chain_cost maxRetries attempts = maxRetries - attempts"

fun read_cost :: "nat \<Rightarrow> path_read \<Rightarrow> nat" where
  "read_cost mr (FirstRead g) = chain_cost mr 0"
| "read_cost mr (AgainRead g a) = chain_cost mr a"
| "read_cost mr SettleRead = 0"

definition watch_potential :: "nat \<Rightarrow> path_watch \<Rightarrow> nat" where
  "watch_potential mr pw = pw_started pw + sum_list (map (chain_cost mr \<circ> snd) (pw_retries pw)) +
     sum_list (map (read_cost mr) (pw_reads pw)) + pw_settles pw"

lemma sum_list_remove:
  "i < length xs \<Longrightarrow> sum_list (map f (take i xs @ drop (Suc i) xs)) + f (xs ! i) = sum_list (map f xs :: nat list)"
  by (subst (3) id_take_nth_drop[of i xs]) simp_all

fun watch_budget :: "nat \<Rightarrow> nat \<Rightarrow> watch_event \<Rightarrow> nat" where
  "watch_budget mr settles WRefresh = 1 + mr"
| "watch_budget mr settles WAfterRestart = 1 + mr + settles"
| "watch_budget mr settles _ = 0"

lemma potential_read:
  "watch_potential mr (read_done i res pw) \<le> watch_potential mr pw"
proof (cases "i < length (pw_reads pw)")
  case True
  note r = sum_list_remove[OF True, of "read_cost mr"]
  show ?thesis using True r
    by (cases "pw_reads pw ! i"; cases res) (simp_all add: watch_potential_def read_done_def Let_def)
qed (simp add: read_done_def)

lemma potential_retry: "watch_potential mr (retry_fires mr i pw) \<le> watch_potential mr pw"
proof (cases "i < length (pw_retries pw)")
  case True
  obtain g a where ga: "pw_retries pw ! i = (g, a)" by (cases "pw_retries pw ! i")
  show ?thesis using True sum_list_remove[OF True, of "chain_cost mr \<circ> snd"] ga
    by (auto simp: watch_potential_def retry_fires_def readOnce_def chain_cost_def Let_def)
qed (simp add: retry_fires_def)

lemma potential_step: "watch_potential mr (watch_step mr settles pw e) \<le> watch_potential mr pw + watch_budget mr settles e"
  using potential_read potential_retry
  by (cases e) (auto simp: watch_potential_def watch_defs(1-3,6-8) chain_cost_def)

lemma potential_run: "watch_potential mr (watch_run mr settles pw es) \<le> watch_potential mr pw + sum_list (map (watch_budget mr settles) es)"
proof (induction es arbitrary: pw)
  case (Cons e es)
  show ?case using Cons.IH[of "watch_step mr settles pw e"] potential_step[of mr settles pw e] by (simp add: watch_run_def)
qed (simp add: watch_run_def)

text \<open>
  Property C26: asking for the path always comes to an end: whatever the answers and the order in
  which timers fire and reads end, a \<open>refresh\<close> costs at most one read and \<open>maxRetries\<close> more, and a
  restart those and one for each settling delay.
\<close>

theorem path_watch_reads_bounded:
  "pw_started (watch_run maxRetries settles path_watch_start es) \<le>
     (1 + maxRetries) * count_list es WRefresh + (1 + maxRetries + settles) * count_list es WAfterRestart"
proof -
  have "sum_list (map (watch_budget maxRetries settles) es) =
      (1 + maxRetries) * count_list es WRefresh + (1 + maxRetries + settles) * count_list es WAfterRestart"
  proof (induction es)
    case (Cons e es)
    then show ?case by (cases e) (simp_all add: algebra_simps)
  qed simp
  moreover have "pw_started (watch_run maxRetries settles path_watch_start es) \<le>
      watch_potential maxRetries (watch_run maxRetries settles path_watch_start es)" by (simp add: watch_potential_def)
  moreover have "watch_potential maxRetries path_watch_start = 0" by (simp add: watch_potential_def path_watch_start_def)
  ultimately show ?thesis using potential_run[of maxRetries settles path_watch_start es] by simp
qed

lemma stopped_step:
  "pw_stopped pw \<Longrightarrow> pw_stopped (watch_step mr s pw e) \<and> pw_applied (watch_step mr s pw e) = pw_applied pw"
  by (cases e) (auto simp: watch_defs split: option.splits path_read.splits prod.splits)

lemma stopped_run:
  "pw_stopped pw \<Longrightarrow> pw_applied (watch_run mr s pw es) = pw_applied pw"
  by (induction es arbitrary: pw) (auto simp: watch_run_def stopped_step)

text \<open>
  Property C27: once the watch is stopped nothing more is applied: a read that ends later, or a
  timer that still fires, leaves the answer that stood.
\<close>

theorem path_watch_quiet_after_stop:
  "pw_applied (watch_run mr s pw (a @ WStop # b)) = pw_applied (watch_run mr s pw a)"
  using stopped_run[of "watch_step mr s (foldl (watch_step mr s) pw a) WStop" mr s b]
  by (simp add: watch_run_def watch_stop_def)

end
