(* ===== verification/Get_View.thy ===== *)
theory Get_View
  imports Jsstring
begin

text \<open>
  The screens of the recipient page (\<open>src/get/state.ts\<close>): the view state, its events and the
  pure transition function, one clause per event as the code has them.
\<close>

datatype link_problem = LinkMissing | LinkExpired | LinkInvalid

datatype get_screen =
    R2 | R3 | R4 | R5 | R6 | R7 | R8 | R9 | R10 | R11 | R12
  | R13 | R14 | R15 | R16 | R17 | R18 | R19 | R20 | R21 | R22 | R23
  | RCancelled | RInvalid

datatype retry_step = RetryConnect | RetryDownload

record get_view =
  gv_screen :: get_screen
  gv_offline :: bool
  gv_checkWords :: jsstr
  gv_fileName :: jsstr
  gv_fileSize :: int
  gv_received :: int
  gv_retry :: retry_step

datatype get_event =
    GStart "link_problem option" | GUnsupported | GContinue | GSlow | GClaimRefused | GNetwork | GWrongWords
  | GPaired jsstr | GYes | GNo | GDetails jsstr int | GInvalidDetails | GTooBig | GExpired | GDownload
  | GProgress int | GChecking | GSaved | GSaveFailed | GSaveAgain | GMissing | GUnavailable | GDamaged
  | GBack | GCancel | GOnline bool

definition get_INITIAL_STATE :: get_view where
  "get_INITIAL_STATE = \<lparr>gv_screen = R5, gv_offline = False, gv_checkWords = [], gv_fileName = [], gv_fileSize = 0,
     gv_received = 0, gv_retry = RetryConnect\<rparr>"

definition get_PAIRING :: "get_screen list" where "get_PAIRING = [R6, R7]"
definition get_BEFORE_FILE :: "get_screen list" where "get_BEFORE_FILE = [R5, R6, R7, R10, R12, R14]"

text \<open>\<open>go(state, screen)\<close>; the extra fields are set beside it.\<close>

definition get_go :: "get_view \<Rightarrow> get_screen \<Rightarrow> get_view" where
  "get_go st s = st\<lparr>gv_screen := s\<rparr>"

fun get_reduce :: "get_view \<Rightarrow> get_event \<Rightarrow> get_view" where
  "get_reduce st (GStart link) =
     (if gv_screen st \<noteq> R5 then st
      else case link of None \<Rightarrow> st | Some p \<Rightarrow> get_go st (if p = LinkExpired then R4 else R3))"
| "get_reduce st GUnsupported = get_go st R2"
| "get_reduce st (GOnline on) = (if gv_offline st = (\<not> on) then st else st\<lparr>gv_offline := \<not> on\<rparr>)"
| "get_reduce st GContinue =
     (if gv_screen st = R5 \<or> gv_screen st = R10 then get_go (st\<lparr>gv_retry := RetryConnect\<rparr>) R6 else st)"
| "get_reduce st GSlow = (if gv_screen st = R6 then get_go st R7 else st)"
| "get_reduce st GClaimRefused = (if gv_screen st \<in> set get_PAIRING then get_go st R9 else st)"
| "get_reduce st GNetwork =
     (if gv_screen st \<in> set get_PAIRING \<or> gv_screen st = R12 \<or> gv_screen st = R14
      then get_go (st\<lparr>gv_retry := RetryConnect\<rparr>) R10 else st)"
| "get_reduce st GWrongWords = (if gv_screen st \<in> set get_PAIRING then get_go st R8 else st)"
| "get_reduce st (GPaired words) =
     (if gv_screen st \<in> set get_PAIRING then get_go (st\<lparr>gv_checkWords := words\<rparr>) R12 else st)"
| "get_reduce st GYes = (if gv_screen st = R12 then get_go st R14 else st)"
| "get_reduce st GNo = (if gv_screen st = R12 then get_go (st\<lparr>gv_checkWords := []\<rparr>) R13 else st)"
| "get_reduce st (GDetails name sz) =
     (if gv_screen st = R14
      then get_go (st\<lparr>gv_fileName := name, gv_fileSize := sz, gv_checkWords := []\<rparr>) R15 else st)"
| "get_reduce st GInvalidDetails = (if gv_screen st = R14 then get_go st RInvalid else st)"
| "get_reduce st GTooBig = (if gv_screen st = R14 then get_go st R22 else st)"
| "get_reduce st GExpired =
     (if gv_screen st \<in> set get_BEFORE_FILE then get_go (st\<lparr>gv_checkWords := []\<rparr>) R4 else st)"
| "get_reduce st GDownload =
     (if gv_screen st = R15 \<or> gv_screen st = R19 \<or> gv_screen st = R21
      then get_go (st\<lparr>gv_received := 0, gv_retry := RetryDownload\<rparr>) R16 else st)"
| "get_reduce st (GProgress n) = (if gv_screen st = R16 then st\<lparr>gv_received := n\<rparr> else st)"
| "get_reduce st GChecking = (if gv_screen st = R16 then get_go st R17 else st)"
| "get_reduce st GSaved = (if gv_screen st = R17 then get_go st R18 else st)"
| "get_reduce st GSaveFailed =
     (if gv_screen st = R17 \<or> gv_screen st = R18 \<or> gv_screen st = R23 then get_go st R23 else st)"
| "get_reduce st GSaveAgain = (if gv_screen st = R23 then get_go st R18 else st)"
| "get_reduce st GMissing = (if gv_screen st = R16 \<or> gv_screen st = R17 then get_go st R20 else st)"
| "get_reduce st GUnavailable = (if gv_screen st = R16 \<or> gv_screen st = R17 then get_go st R19 else st)"
| "get_reduce st GDamaged = (if gv_screen st = R16 \<or> gv_screen st = R17 then get_go st R21 else st)"
| "get_reduce st GBack = (if gv_screen st = R6 then get_go st R5 else st)"
| "get_reduce st GCancel =
     (if gv_screen st = R16 then get_go (st\<lparr>gv_received := 0\<rparr>) R15
      else if gv_screen st \<in> set get_PAIRING \<or> gv_screen st = R14 then get_go (st\<lparr>gv_checkWords := []\<rparr>) RCancelled else st)"

definition get_run :: "get_event list \<Rightarrow> get_view" where
  "get_run evs = foldl get_reduce get_INITIAL_STATE evs"

lemma get_run_snoc: "get_run (evs @ [e]) = get_reduce (get_run evs) e"
  by (simp add: get_run_def)

subsection \<open>A file needs two people who compared words\<close>

text \<open>The screens that follow a file's details, and what the events must have been to get there.\<close>

definition file_screens :: "get_screen set" where
  "file_screens = {R15, R16, R17, R18, R19, R20, R21, R23}"

definition words_confirmed :: "get_event list \<Rightarrow> bool" where
  "words_confirmed evs \<longleftrightarrow> (\<exists>a w b c. evs = a @ GPaired w # b @ GYes # c)"

definition details_confirmed :: "get_event list \<Rightarrow> jsstr \<Rightarrow> int \<Rightarrow> bool" where
  "details_confirmed evs name sz \<longleftrightarrow> (\<exists>a c. evs = a @ GDetails name sz # c \<and> words_confirmed a)"

lemma words_confirmed_snoc: "words_confirmed evs \<Longrightarrow> words_confirmed (evs @ [e])"
  unfolding words_confirmed_def by (metis append_Cons append_assoc)

lemma details_confirmed_snoc: "details_confirmed evs n s \<Longrightarrow> details_confirmed (evs @ [e]) n s"
  unfolding details_confirmed_def by (metis append_Cons append_assoc)

lemma details_confirmed_new: "words_confirmed evs \<Longrightarrow> details_confirmed (evs @ [GDetails n s]) n s"
  unfolding details_confirmed_def by blast

lemma words_confirmed_new: "GPaired w \<in> set evs \<Longrightarrow> words_confirmed (evs @ [GYes])"
  unfolding words_confirmed_def by (metis append_Cons append_assoc split_list)

lemma get_run_confirmed:
  "(gv_screen (get_run evs) = R12 \<longrightarrow> GPaired (gv_checkWords (get_run evs)) \<in> set evs) \<and>
   (gv_screen (get_run evs) = R14 \<longrightarrow> words_confirmed evs) \<and>
   (gv_screen (get_run evs) \<in> file_screens \<longrightarrow> details_confirmed evs (gv_fileName (get_run evs)) (gv_fileSize (get_run evs)))"
proof (induction evs rule: rev_induct)
  case Nil
  then show ?case by (simp add: get_run_def get_INITIAL_STATE_def file_screens_def)
next
  case (snoc e evs)
  define st where "st = get_run evs"
  have keep: "gv_screen st = R12 \<Longrightarrow> GPaired (gv_checkWords st) \<in> set (evs @ [e])"
    "gv_screen st = R14 \<Longrightarrow> words_confirmed (evs @ [e])"
    "gv_screen st \<in> file_screens \<Longrightarrow> details_confirmed (evs @ [e]) (gv_fileName st) (gv_fileSize st)"
    "gv_screen st = R12 \<Longrightarrow> e = GYes \<Longrightarrow> words_confirmed (evs @ [e])"
    "gv_screen st = R14 \<Longrightarrow> e = GDetails n s \<Longrightarrow> details_confirmed (evs @ [e]) n s" for n s
    using snoc.IH words_confirmed_snoc details_confirmed_snoc details_confirmed_new words_confirmed_new unfolding st_def by auto
  have "(gv_screen (get_reduce st e) = R12 \<longrightarrow> GPaired (gv_checkWords (get_reduce st e)) \<in> set (evs @ [e])) \<and>
    (gv_screen (get_reduce st e) = R14 \<longrightarrow> words_confirmed (evs @ [e])) \<and>
    (gv_screen (get_reduce st e) \<in> file_screens \<longrightarrow>
      details_confirmed (evs @ [e]) (gv_fileName (get_reduce st e)) (gv_fileSize (get_reduce st e)))"
    using keep by (cases e) (auto simp: get_go_def file_screens_def get_PAIRING_def split: option.splits)
  then show ?case by (simp add: get_run_snoc st_def)
qed

text \<open>
  Property C28: whatever the events, the recipient page shows a file, its download or its saving only
  after the check words were shown, the person answered that they match, and then the details of
  that very file, its name and size, arrived.
\<close>

theorem file_needs_confirmed_words:
  assumes "gv_screen (get_run evs) \<in> {R15, R16, R17, R18, R19, R20, R21, R23}"
  shows "\<exists>a w b c d. evs = a @ GPaired w # b @ GYes # c @
    GDetails (gv_fileName (get_run evs)) (gv_fileSize (get_run evs)) # d"
  using get_run_confirmed[of evs] assms unfolding file_screens_def details_confirmed_def words_confirmed_def
  by (metis append_Cons append_assoc)

theorem file_needs_confirmed_words_witness:
  "\<exists>a w b c d. [GContinue, GPaired (js ''a b c''), GYes, GDetails (js ''f'') 9, GDownload] =
     a @ GPaired w # b @ GYes # c @ GDetails (js ''f'') 9 # d"
proof -
  let ?evs = "[GContinue, GPaired (js ''a b c''), GYes, GDetails (js ''f'') 9, GDownload]"
  have "gv_screen (get_run ?evs) = R16" "gv_fileName (get_run ?evs) = js ''f''" "gv_fileSize (get_run ?evs) = 9"
    by (simp_all add: get_run_def get_INITIAL_STATE_def get_go_def get_PAIRING_def)
  then show ?thesis using file_needs_confirmed_words[of ?evs] by simp
qed

end
