(* ===== verification/Send_View.thy ===== *)
theory Send_View
  imports Get_View "HOL-Library.Sublist"
begin

text \<open>
  The screens of the sender page (\<open>src/send/state.ts\<close>): the view state, its events and the
  pure transition function, one clause per event, and what each screen says
  (\<open>src/send/screens.ts\<close> with the texts of \<open>src/send/copy.ts\<close>).
\<close>

datatype send_screen =
    SUnsupported | SIncomplete | SExpired | SWords | SConnecting | SWaiting | SWrongWords | SUsed | SNetwork
  | SCheck | SMismatch | SConfirming
  | SChoose | STooBig | SEmpty | SUnreadable
  | SAsking | SDeclined | SLinking | SSending | SFinishing | SSent
  | SNoRelay | SNoRoom | SConnectFailed | SConnectFailedDirect | SLost | STheyStopped | SFailed
  | SCancelled | SInvalid

record send_view =
  sv_screen :: send_screen
  sv_offline :: bool
  sv_checkWords :: jsstr
  sv_fileName :: jsstr
  sv_fileSize :: int
  sv_maxBytes :: int
  sv_sent :: int
  sv_total :: int
  sv_reconnecting :: bool
  sv_hide :: bool
  sv_theirHidden :: bool
  sv_relayOffered :: bool
  sv_endSent :: bool

datatype send_event =
    VStart "link_problem option" | VUnsupported | VOnline bool | VContinue | VSlow | VClaimRefused | VNetwork | VWrongWords
  | VPaired jsstr | VYes | VNo | VInvitation int bool bool | VInvalidInvitation | VExpired | VHide bool
  | VTooBig | VEmpty | VUnreadable | VAsking jsstr int | VDeclined | VLinking | VSending int | VEndSent
  | VProgress int | VReconnecting bool | VSent | VNoRelay | VNoRoom | VConnectFailed | VLost | VTheyStopped | VFailed
  | VBack | VCancel

definition send_INITIAL_STATE :: send_view where
  "send_INITIAL_STATE = \<lparr>sv_screen = SWords, sv_offline = False, sv_checkWords = [], sv_fileName = [], sv_fileSize = 0,
     sv_maxBytes = 0, sv_sent = 0, sv_total = 0, sv_reconnecting = False, sv_hide = False, sv_theirHidden = False,
     sv_relayOffered = False, sv_endSent = False\<rparr>"

definition send_PAIRING :: "send_screen list" where "send_PAIRING = [SConnecting, SWaiting]"
definition send_BEFORE_FILE :: "send_screen list" where
  "send_BEFORE_FILE = [SWords, SConnecting, SWaiting, SNetwork, SCheck, SConfirming, SChoose, STooBig, SEmpty, SUnreadable]"
definition PICKING :: "send_screen list" where "PICKING = [SChoose, STooBig, SEmpty, SUnreadable]"
definition AFTER_OFFER :: "send_screen list" where "AFTER_OFFER = [SAsking, SLinking, SSending, SFinishing]"

lemmas screen_groups = send_PAIRING_def send_BEFORE_FILE_def PICKING_def AFTER_OFFER_def

definition send_go :: "send_view \<Rightarrow> send_screen \<Rightarrow> send_view" where
  "send_go st s = st\<lparr>sv_screen := s\<rparr>"

definition send_ended :: "send_view \<Rightarrow> send_screen \<Rightarrow> send_view" where
  "send_ended st s =
     (if sv_screen st \<in> set AFTER_OFFER \<or> sv_screen st = SChoose \<or> sv_screen st = SConfirming
      then send_go (st\<lparr>sv_reconnecting := False, sv_checkWords := []\<rparr>) s else st)"

fun send_reduce :: "send_view \<Rightarrow> send_event \<Rightarrow> send_view" where
  "send_reduce st (VStart link) =
     (case link of
        None \<Rightarrow> st
      | Some p \<Rightarrow> if sv_screen st \<noteq> SWords then st else send_go st (if p = LinkExpired then SExpired else SIncomplete))"
| "send_reduce st VUnsupported = send_go st SUnsupported"
| "send_reduce st (VOnline on) = (if sv_offline st = (\<not> on) then st else st\<lparr>sv_offline := \<not> on\<rparr>)"
| "send_reduce st VContinue = (if sv_screen st = SWords \<or> sv_screen st = SNetwork then send_go st SConnecting else st)"
| "send_reduce st VSlow = (if sv_screen st = SConnecting then send_go st SWaiting else st)"
| "send_reduce st VClaimRefused = (if sv_screen st \<in> set send_PAIRING then send_go st SUsed else st)"
| "send_reduce st VNetwork = (if sv_screen st \<in> set send_PAIRING then send_go st SNetwork else st)"
| "send_reduce st VWrongWords = (if sv_screen st \<in> set send_PAIRING then send_go st SWrongWords else st)"
| "send_reduce st (VPaired words) =
     (if sv_screen st \<in> set send_PAIRING then send_go (st\<lparr>sv_checkWords := words\<rparr>) SCheck else st)"
| "send_reduce st VYes = (if sv_screen st = SCheck then send_go st SConfirming else st)"
| "send_reduce st VNo = (if sv_screen st = SCheck then send_go (st\<lparr>sv_checkWords := []\<rparr>) SMismatch else st)"
| "send_reduce st (VInvitation mx theirs relay) =
     (if sv_screen st = SConfirming
      then send_go (st\<lparr>sv_maxBytes := mx, sv_theirHidden := theirs, sv_relayOffered := relay,
                       sv_hide := (relay \<and> sv_hide st), sv_checkWords := []\<rparr>) SChoose
      else st)"
| "send_reduce st VInvalidInvitation =
     (if sv_screen st = SConfirming then send_go (st\<lparr>sv_checkWords := []\<rparr>) SInvalid else st)"
| "send_reduce st VExpired =
     (if sv_screen st \<in> set send_BEFORE_FILE \<or> sv_screen st = SAsking
      then send_go (st\<lparr>sv_checkWords := []\<rparr>) SExpired else st)"
| "send_reduce st (VHide on) =
     (if sv_hide st = (on \<and> sv_relayOffered st) then st else st\<lparr>sv_hide := (on \<and> sv_relayOffered st)\<rparr>)"
| "send_reduce st VTooBig = (if sv_screen st \<in> set PICKING then send_go st STooBig else st)"
| "send_reduce st VEmpty = (if sv_screen st \<in> set PICKING then send_go st SEmpty else st)"
| "send_reduce st VUnreadable = (if sv_screen st \<in> set PICKING then send_go st SUnreadable else st)"
| "send_reduce st (VAsking name sz) =
     (if sv_screen st \<in> set PICKING
      then send_go (st\<lparr>sv_fileName := name, sv_fileSize := sz, sv_sent := 0, sv_total := 0,
                       sv_reconnecting := False, sv_endSent := False\<rparr>) SAsking
      else st)"
| "send_reduce st VDeclined = (if sv_screen st = SAsking then send_go st SDeclined else st)"
| "send_reduce st VLinking = (if sv_screen st = SAsking then send_go st SLinking else st)"
| "send_reduce st (VSending tot) =
     (if sv_screen st = SAsking \<or> sv_screen st = SLinking
      then send_go (st\<lparr>sv_total := tot, sv_sent := 0, sv_reconnecting := False\<rparr>) SSending else st)"
| "send_reduce st (VProgress n) = (if sv_screen st = SSending then st\<lparr>sv_sent := n\<rparr> else st)"
| "send_reduce st VEndSent = (if sv_screen st = SSending then send_go (st\<lparr>sv_endSent := True\<rparr>) SFinishing else st)"
| "send_reduce st (VReconnecting on) =
     (if (sv_screen st = SSending \<or> sv_screen st = SLinking \<or> sv_screen st = SFinishing) \<and> sv_reconnecting st \<noteq> on
      then st\<lparr>sv_reconnecting := on\<rparr> else st)"
| "send_reduce st VSent =
     (if sv_screen st = SSending \<or> sv_screen st = SLinking \<or> sv_screen st = SFinishing
      then send_go (st\<lparr>sv_reconnecting := False\<rparr>) SSent else st)"
| "send_reduce st VNoRelay = (if sv_screen st \<in> set AFTER_OFFER then send_go (st\<lparr>sv_reconnecting := False\<rparr>) SNoRelay else st)"
| "send_reduce st VNoRoom = (if sv_screen st \<in> set AFTER_OFFER then send_go (st\<lparr>sv_reconnecting := False\<rparr>) SNoRoom else st)"
| "send_reduce st VConnectFailed =
     (if sv_screen st \<in> set AFTER_OFFER
      then send_go (st\<lparr>sv_reconnecting := False\<rparr>) (if sv_relayOffered st then SConnectFailed else SConnectFailedDirect) else st)"
| "send_reduce st VLost = send_ended st SLost"
| "send_reduce st VTheyStopped = send_ended st STheyStopped"
| "send_reduce st VFailed = send_ended st SFailed"
| "send_reduce st VBack = (if sv_screen st = SConnecting then send_go st SWords else st)"
| "send_reduce st VCancel =
     (if sv_screen st \<in> set send_PAIRING \<or> sv_screen st = SConfirming \<or> sv_screen st \<in> set PICKING \<or> sv_screen st \<in> set AFTER_OFFER
      then send_go (st\<lparr>sv_checkWords := [], sv_reconnecting := False\<rparr>) SCancelled else st)"

definition send_run :: "send_event list \<Rightarrow> send_view" where
  "send_run evs = foldl send_reduce send_INITIAL_STATE evs"

lemma send_run_snoc: "send_run (evs @ [e]) = send_reduce (send_run evs) e"
  by (simp add: send_run_def)

subsection \<open>What the screens say\<close>

text \<open>A heading and a lede; the curly quotes and the ellipsis are the code points the texts have.\<close>

type_synonym screen_text = "jsstr \<times> jsstr"

definition ellipsis :: jsstr where "ellipsis = [0x2026]"

definition MAY_HAVE_ARRIVED :: jsstr where "MAY_HAVE_ARRIVED = js ''It may have reached them. Check with them.''"

definition copy_after_end :: "send_screen \<Rightarrow> screen_text" where
  "copy_after_end s =
     (case s of
        SNoRoom \<Rightarrow> (js ''Their computer can't keep this file'', MAY_HAVE_ARRIVED)
      | SLost \<Rightarrow> (js ''The connection was lost'', MAY_HAVE_ARRIVED)
      | STheyStopped \<Rightarrow> (js ''They stopped this'', MAY_HAVE_ARRIVED)
      | SFailed \<Rightarrow> (js ''Sending stopped'', MAY_HAVE_ARRIVED)
      | _ \<Rightarrow> (js ''You stopped this'', MAY_HAVE_ARRIVED))"

text \<open>The texts of \<open>COPY.screens\<close>; those that name the file or the limit take it as an argument.\<close>

fun copy_screens :: "jsstr \<Rightarrow> jsstr \<Rightarrow> send_screen \<Rightarrow> screen_text" where
  "copy_screens name limit SUnsupported =
     (js ''This browser can't send the file'', js ''Try an up-to-date version of Safari, Chrome, Edge or Firefox.'')"
| "copy_screens name limit SIncomplete =
     (js ''This link isn't complete'', js ''Ask them to send it again, or make sure you copied all of it.'')"
| "copy_screens name limit SExpired =
     (js ''This link has expired'', js ''Links work for 10 minutes. Ask them to start again.'')"
| "copy_screens name limit SWords = (js ''Send a file'', js ''Type the 4 words they told you.'')"
| "copy_screens name limit SConnecting = (js ''Connecting'', js ''Keep this page open.'')"
| "copy_screens name limit SWaiting =
     (js ''Waiting for them'', js ''Ask them to keep Wildbloom open. Keep this page open.'')"
| "copy_screens name limit SWrongWords =
     (js ''Those words didn't work'',
      js ''The link has stopped working to keep things safe. Ask them to start again. They'll get a new link and new words.'')"
| "copy_screens name limit SUsed =
     (js ''This link has already been used'', js ''Each link works for one person. Ask them to start again.'')"
| "copy_screens name limit SNetwork =
     (js ''Can't connect right now'', js ''Check your internet connection, then try again.'')"
| "copy_screens name limit SCheck =
     (js ''Check these words with them'', js ''They'll read you 3 words. Do they match?'')"
| "copy_screens name limit SMismatch =
     (js ''Nothing was sent'', js ''The words didn't match, so nothing was set up. Tell them and ask them to start again.'')"
| "copy_screens name limit SConfirming =
     (js ''Waiting for them'', js ''They need to confirm the words on their computer. Keep this page open.'')"
| "copy_screens name limit SChoose =
     (js ''Choose a file'',
      js ''It's locked on this phone and sent to their computer, and it's not stored on any server. Up to '' @ limit @ js ''.'')"
| "copy_screens name limit SAsking =
     (js ''Waiting for them to accept'',
      js ''They need to say yes to '' @ name @ js '' on their computer. Keep this page open.'')"
| "copy_screens name limit SDeclined = (js ''They said no'', js ''Nothing was sent.'')"
| "copy_screens name limit SLinking = (js ''Connecting to them'', js ''Keep this page open.'')"
| "copy_screens name limit SSending = (js ''Sending '' @ name, js ''Keep this page open until it's sent.'')"
| "copy_screens name limit SFinishing =
     (js ''Finishing'' @ ellipsis, js ''Waiting for them to confirm it arrived. Keep this page open.'')"
| "copy_screens name limit SSent = (js ''Sent'', name @ js '' is on their computer. You can close this page.'')"
| "copy_screens name limit STooBig = (js ''This file is too big'', js ''You can send up to '' @ limit @ js ''.'')"
| "copy_screens name limit SEmpty = (js ''That file is empty'', js ''There's nothing in it to send.'')"
| "copy_screens name limit SUnreadable =
     (js ''That file couldn't be read'', js ''Your phone couldn't open it. Try again, or choose another file.'')"
| "copy_screens name limit SNoRelay =
     (js ''Can't hide your address'',
      js ''Nothing was sent. Ask them to start again, and leave '' @ [0x201C] @ js ''Don't show them my internet address'' @
      [0x201D] @ js '' off.'')"
| "copy_screens name limit SNoRoom =
     (js ''Their computer can't keep this file'',
      js ''It may be full. Nothing was kept. Ask them to make some space, then start again.'')"
| "copy_screens name limit SConnectFailed =
     (js ''Couldn't connect to them'',
      js ''Your phone and their computer couldn't find a way to connect. Nothing was sent. Ask them to start again with a new link.'')"
| "copy_screens name limit SConnectFailedDirect =
     (js ''Couldn't connect to them'',
      js ''Your phone and their computer couldn't find a way to connect. Some networks, like mobile data or work Wi-Fi, don't allow it. Nothing was sent. Try again on another network, such as home Wi-Fi.'')"
| "copy_screens name limit SLost =
     (js ''The connection was lost'',
      js ''Nothing was kept on their computer. Ask them to start again with a new link.'')"
| "copy_screens name limit STheyStopped =
     (js ''They stopped this'', js ''Nothing was kept. Ask them to start again if you still want to send it.'')"
| "copy_screens name limit SFailed =
     (js ''Sending stopped'',
      js ''Something went wrong and nothing was kept. Ask them to start again with a new link.'')"
| "copy_screens name limit SCancelled =
     (js ''You stopped this'', js ''Nothing was kept. Ask them to start again if you still want to send the file.'')"
| "copy_screens name limit SInvalid =
     (js ''This link can't be used'',
      js ''The details from them weren't in the form this page expects. Ask them to start again.'')"

text \<open>\<open>formatBytes\<close> of the limit is an argument: it formats a number and decides nothing.\<close>

definition screenText :: "(int \<Rightarrow> jsstr) \<Rightarrow> send_view \<Rightarrow> screen_text" where
  "screenText formatBytes st =
     (if sv_endSent st \<and> sv_screen st \<in> {SNoRoom, SLost, STheyStopped, SFailed, SCancelled} then copy_after_end (sv_screen st)
      else copy_screens (sv_fileName st) (formatBytes (sv_maxBytes st)) (sv_screen st))"

subsection \<open>What the screens show, whatever the events\<close>

definition milestones :: "send_event list \<Rightarrow> send_event list \<Rightarrow> bool" where
  "milestones ms evs \<longleftrightarrow> (\<exists>w. subseq (VPaired w # ms) evs)"

lemma subseq_snoc_same: "subseq xs ys \<Longrightarrow> subseq (xs @ [y]) (ys @ [y])"
  by simp

lemma milestones_snoc:
  "milestones ms evs \<Longrightarrow> milestones ms (evs @ [e])" "milestones ms evs \<Longrightarrow> milestones (ms @ [e]) (evs @ [e])"
  "milestones [] (evs @ [VPaired w])"
  unfolding milestones_def
  by (blast intro: subseq_order.order_trans list_emb_append2 list_emb_prefix subseq_rev_drop_many,
      metis append_Cons subseq_snoc_same, metis list_emb_Nil subseq_snoc_same append_Nil)

definition OFFERED :: "send_screen list" where
  "OFFERED = AFTER_OFFER @ [SSent, SDeclined, SNoRelay, SNoRoom, SConnectFailed, SConnectFailedDirect]"

lemmas send_steps = send_go_def send_ended_def screen_groups OFFERED_def

text \<open>How each group of screens is entered.\<close>

lemma enters_check: "sv_screen (send_reduce st e) = SCheck \<Longrightarrow> sv_screen st = SCheck \<or> (\<exists>w. e = VPaired w)"
  by (cases e) (auto simp: send_steps split: option.splits if_splits)

lemma enters_confirming:
  "sv_screen (send_reduce st e) = SConfirming \<Longrightarrow> sv_screen st = SConfirming \<or> sv_screen st = SCheck \<and> e = VYes"
  by (cases e) (auto simp: send_steps split: option.splits if_splits)

lemma enters_picking:
  "sv_screen (send_reduce st e) \<in> set PICKING \<Longrightarrow>
     sv_screen st \<in> set PICKING \<or> sv_screen st = SConfirming \<and> (\<exists>mx t r. e = VInvitation mx t r)"
  by (cases e) (auto simp: send_steps split: option.splits if_splits)

lemma enters_offered:
  "sv_screen (send_reduce st e) \<in> set OFFERED \<Longrightarrow>
     sv_screen st \<in> set OFFERED \<and> sv_fileName (send_reduce st e) = sv_fileName st \<and> sv_fileSize (send_reduce st e) = sv_fileSize st \<or>
     sv_screen st \<in> set PICKING \<and> e = VAsking (sv_fileName (send_reduce st e)) (sv_fileSize (send_reduce st e))"
  by (cases e) (auto simp: send_steps split: option.splits if_splits)

lemma enters_sent: "sv_screen (send_reduce st e) = SSent \<Longrightarrow> sv_screen st = SSent \<or> e = VSent"
  by (cases e) (auto simp: send_steps split: option.splits if_splits)

lemma hides_only_when_offered:
  "(sv_hide st \<longrightarrow> sv_relayOffered st) \<Longrightarrow> sv_hide (send_reduce st e) \<longrightarrow> sv_relayOffered (send_reduce st e)"
  by (cases e) (auto simp: send_steps split: option.splits if_splits)

text \<open>What each screen needs to have happened, in order.\<close>

definition send_ok :: "send_event list \<Rightarrow> send_view \<Rightarrow> bool" where
  "send_ok evs st \<longleftrightarrow> (sv_hide st \<longrightarrow> sv_relayOffered st) \<and>
     (sv_screen st = SCheck \<longrightarrow> milestones [] evs) \<and> (sv_screen st = SConfirming \<longrightarrow> milestones [VYes] evs) \<and>
     (sv_screen st \<in> set PICKING \<longrightarrow> (\<exists>mx t r. milestones [VYes, VInvitation mx t r] evs)) \<and>
     (sv_screen st \<in> set OFFERED \<longrightarrow>
       (\<exists>mx t r. milestones [VYes, VInvitation mx t r, VAsking (sv_fileName st) (sv_fileSize st)] evs)) \<and>
     (sv_screen st = SSent \<longrightarrow> VSent \<in> set evs)"

lemma send_ok_step:
  assumes "send_ok evs st"
  shows "send_ok (evs @ [e]) (send_reduce st e)"
proof -
  note new = milestones_snoc(2)[of "[]" evs e] milestones_snoc(2)[of "[VYes]" evs e]
    milestones_snoc(2)[of "[VYes, VInvitation mx t r]" evs e for mx t r]
  have "sv_screen (send_reduce st e) = SCheck \<longrightarrow> milestones [] (evs @ [e])"
    using assms enters_check[of st e] milestones_snoc(1,3) unfolding send_ok_def by blast
  moreover have "sv_screen (send_reduce st e) = SConfirming \<longrightarrow> milestones [VYes] (evs @ [e])"
    using assms enters_confirming[of st e] milestones_snoc(1) new(1) unfolding send_ok_def append_Nil by blast
  moreover have "sv_screen (send_reduce st e) \<in> set PICKING \<longrightarrow> (\<exists>mx t r. milestones [VYes, VInvitation mx t r] (evs @ [e]))"
    using assms enters_picking[of st e] milestones_snoc(1) new(2) unfolding send_ok_def append_Cons append_Nil by blast
  moreover have "sv_screen (send_reduce st e) \<in> set OFFERED \<longrightarrow> (\<exists>mx t r. milestones
      [VYes, VInvitation mx t r, VAsking (sv_fileName (send_reduce st e)) (sv_fileSize (send_reduce st e))] (evs @ [e]))"
    using assms enters_offered[of st e] milestones_snoc(1) new(3) unfolding send_ok_def append_Cons append_Nil by metis
  moreover have "sv_screen (send_reduce st e) = SSent \<longrightarrow> VSent \<in> set (evs @ [e])"
    using assms enters_sent[of st e] unfolding send_ok_def by auto
  ultimately show ?thesis using assms hides_only_when_offered[of st e] by (simp add: send_ok_def)
qed

lemma send_ok_run: "send_ok evs (send_run evs)"
proof (induction evs rule: rev_induct)
  case Nil
  then show ?case by (simp add: send_ok_def send_run_def send_INITIAL_STATE_def send_steps)
next
  case (snoc e evs)
  then show ?case by (simp add: send_run_snoc send_ok_step)
qed

text \<open>
  Property C29: the sender page asks, connects and sends only in order: whenever it shows that a
  file is offered, being sent or sent, the check words were shown, then the person answered that
  they match, then an invitation arrived, then that very file was chosen; it says \<open>Sent\<close> only once
  the receiver has said so; and it never hides the address when no relay was offered.
\<close>

theorem sending_needs_confirmed_words:
  "(sv_screen (send_run evs) \<in> {SAsking, SLinking, SSending, SFinishing, SSent} \<longrightarrow>
     (\<exists>w mx t r. subseq [VPaired w, VYes, VInvitation mx t r,
        VAsking (sv_fileName (send_run evs)) (sv_fileSize (send_run evs))] evs)) \<and>
   (sv_screen (send_run evs) = SSent \<longrightarrow> VSent \<in> set evs) \<and>
   (sv_hide (send_run evs) \<longrightarrow> sv_relayOffered (send_run evs))"
proof -
  have "s \<in> {SAsking, SLinking, SSending, SFinishing, SSent} \<Longrightarrow> s \<in> set OFFERED" for s by (auto simp: send_steps)
  then show ?thesis using send_ok_run[of evs] unfolding send_ok_def milestones_def by blast
qed

theorem sending_needs_confirmed_words_witness:
  "subseq [VPaired [], VYes, VInvitation 9 False True, VAsking (js ''f'') 3]
     [VContinue, VPaired [], VYes, VInvitation 9 False True, VHide True, VAsking (js ''f'') 3, VSending 3] \<and>
   sv_relayOffered (send_run [VContinue, VPaired [], VYes, VInvitation 9 False True, VHide True, VAsking (js ''f'') 3, VSending 3])"
proof -
  let ?evs = "[VContinue, VPaired [], VYes, VInvitation 9 False True, VHide True, VAsking (js ''f'') 3, VSending 3]"
  have "sv_screen (send_run ?evs) = SSending" "sv_hide (send_run ?evs)"
    by (simp_all add: send_run_def send_INITIAL_STATE_def send_steps)
  then show ?thesis using sending_needs_confirmed_words[of ?evs] by simp
qed

text \<open>Where the page can be once it has been finishing, after which events.\<close>

definition late_screen :: "send_event list \<Rightarrow> send_screen \<Rightarrow> bool" where
  "late_screen evs s \<longleftrightarrow>
     s \<in> {SFinishing, SNoRoom, SLost, STheyStopped, SFailed, SCancelled} \<or> s = SSent \<and> VSent \<in> set evs \<or>
     s = SUnsupported \<and> VUnsupported \<in> set evs \<or>
     s \<in> {SNoRelay, SConnectFailed, SConnectFailedDirect} \<and> (VNoRelay \<in> set evs \<or> VConnectFailed \<in> set evs)"

definition ENDINGS :: "send_screen list" where
  "ENDINGS = [SSent, SNoRoom, SLost, STheyStopped, SFailed, SCancelled, SUnsupported, SNoRelay, SConnectFailed, SConnectFailedDirect]"

lemma ending_stays:
  assumes "sv_screen st \<in> set ENDINGS"
  shows "sv_endSent (send_reduce st e) = sv_endSent st \<and>
    (sv_screen (send_reduce st e) = sv_screen st \<or> e = VUnsupported \<and> sv_screen (send_reduce st e) = SUnsupported)"
proof -
  have "sv_screen st \<notin> set send_PAIRING \<union> set send_BEFORE_FILE \<union> set PICKING \<union> set AFTER_OFFER \<union> {SCheck, SConfirming, SWords, SNetwork}"
    using assms by (auto simp: ENDINGS_def screen_groups)
  then show ?thesis by (cases e) (auto simp: send_go_def send_ended_def PICKING_def AFTER_OFFER_def send_PAIRING_def split: option.splits if_splits)
qed

lemma finishing_step:
  assumes "sv_screen st = SFinishing"
  shows "sv_endSent (send_reduce st e) = sv_endSent st \<and>
    (sv_screen (send_reduce st e) \<in> {SFinishing, SNoRoom, SLost, STheyStopped, SFailed, SCancelled} \<or>
     sv_screen (send_reduce st e) = SSent \<and> e = VSent \<or> sv_screen (send_reduce st e) = SUnsupported \<and> e = VUnsupported \<or>
     sv_screen (send_reduce st e) \<in> {SNoRelay, SConnectFailed, SConnectFailedDirect} \<and> (e = VNoRelay \<or> e = VConnectFailed))"
  using assms by (cases e) (simp_all add: send_steps split: option.splits)

lemma late_screen_step:
  "sv_endSent st \<Longrightarrow> late_screen evs (sv_screen st) \<Longrightarrow>
   sv_endSent (send_reduce st e) \<and> late_screen (evs @ [e]) (sv_screen (send_reduce st e))"
proof (cases "sv_screen st = SFinishing")
  case True
  assume "sv_endSent st"
  then show ?thesis using finishing_step[OF True, of e] by (auto simp: late_screen_def)
next
  case False
  assume "sv_endSent st" "late_screen evs (sv_screen st)"
  moreover from this(2) False have "sv_screen st \<in> set ENDINGS" by (auto simp: late_screen_def ENDINGS_def)
  ultimately show ?thesis using ending_stays[of st e] by (auto simp: late_screen_def)
qed

lemma finishing_has_sent_end:
  "(sv_screen st = SFinishing \<longrightarrow> sv_endSent st) \<Longrightarrow> sv_screen (send_reduce st e) = SFinishing \<longrightarrow> sv_endSent (send_reduce st e)"
  by (cases e) (auto simp: send_steps split: option.splits if_splits)

lemma finishing_run: "sv_screen (send_run evs) = SFinishing \<longrightarrow> sv_endSent (send_run evs)"
  by (induction evs rule: rev_induct)
    (simp add: send_run_def send_INITIAL_STATE_def, unfold send_run_snoc, rule finishing_has_sent_end)

lemma late_after_finishing:
  "sv_screen (send_run a) = SFinishing \<Longrightarrow> sv_endSent (send_run (a @ b)) \<and> late_screen b (sv_screen (send_run (a @ b)))"
proof (induction b rule: rev_induct)
  case Nil
  then show ?case using finishing_run[of a] by (simp add: late_screen_def)
next
  case (snoc e b)
  then show ?case using late_screen_step[of "send_run (a @ b)" b e] by (simp add: send_run_snoc flip: append_assoc)
qed

text \<open>
  Property C30: once the page has shown that it is finishing, the end of the file being sent, what it
  shows after any further events is that it is still finishing; that the file was sent, which takes
  the receiver's word; or that the file may have reached them; with exactly two exceptions, the
  notice of a browser that cannot send, and the endings of a connection that could not be made
  (\<open>no-relay\<close> and \<open>connect-failed\<close>), which the page still obeys then and which say that nothing was sent.
\<close>

theorem late_ending_is_unknown:
  assumes "sv_screen (send_run a) = SFinishing"
  shows "(let st = send_run (a @ b) in
      sv_screen st = SFinishing \<or> sv_screen st = SSent \<and> VSent \<in> set b \<or>
      snd (screenText formatBytes st) = MAY_HAVE_ARRIVED \<or>
      sv_screen st = SUnsupported \<and> VUnsupported \<in> set b \<or>
      sv_screen st \<in> {SNoRelay, SConnectFailed, SConnectFailedDirect} \<and> (VNoRelay \<in> set b \<or> VConnectFailed \<in> set b)) \<and>
    startsWith (snd (screenText formatBytes (send_run (a @ [VNoRelay])))) (js ''Nothing was sent.'')"
proof
  have late: "sv_endSent (send_run (a @ b))" "late_screen b (sv_screen (send_run (a @ b)))" using late_after_finishing[OF assms] by blast+
  have "snd (screenText formatBytes (send_run (a @ b))) = MAY_HAVE_ARRIVED"
    if "sv_screen (send_run (a @ b)) \<in> {SNoRoom, SLost, STheyStopped, SFailed, SCancelled}"
    using that late(1) by (auto simp: screenText_def copy_after_end_def)
  then show "let st = send_run (a @ b) in
      sv_screen st = SFinishing \<or> sv_screen st = SSent \<and> VSent \<in> set b \<or>
      snd (screenText formatBytes st) = MAY_HAVE_ARRIVED \<or>
      sv_screen st = SUnsupported \<and> VUnsupported \<in> set b \<or>
      sv_screen st \<in> {SNoRelay, SConnectFailed, SConnectFailedDirect} \<and> (VNoRelay \<in> set b \<or> VConnectFailed \<in> set b)"
    using late(2) unfolding late_screen_def Let_def by blast
  have "sv_screen (send_run (a @ [VNoRelay])) = SNoRelay" using assms by (simp add: send_run_snoc send_steps)
  then show "startsWith (snd (screenText formatBytes (send_run (a @ [VNoRelay])))) (js ''Nothing was sent.'')"
    by (simp add: screenText_def startsWith_def js_def)
qed

theorem late_ending_is_unknown_witness:
  "sv_screen (send_run [VContinue, VPaired [], VYes, VInvitation 9 False True, VAsking (js ''f'') 3, VSending 3, VEndSent]) = SFinishing \<and>
   snd (screenText (\<lambda>_. []) (send_run ([VContinue, VPaired [], VYes, VInvitation 9 False True, VAsking (js ''f'') 3,
     VSending 3, VEndSent] @ [VLost]))) = MAY_HAVE_ARRIVED"
proof -
  let ?a = "[VContinue, VPaired [], VYes, VInvitation 9 False True, VAsking (js ''f'') 3, VSending 3, VEndSent]"
  have a: "sv_screen (send_run ?a) = SFinishing" "sv_screen (send_run (?a @ [VLost])) = SLost"
    by (simp_all add: send_run_def send_INITIAL_STATE_def send_steps)
  then show ?thesis using late_ending_is_unknown[OF a(1), of "[VLost]" "\<lambda>_. []"] unfolding Let_def by auto
qed

end
