(* ===== verification/Galois.thy ===== *)
theory Galois
  imports Prelude "HOL-Library.Code_Target_Nat"
begin

unbundle bit_operations_syntax

text \<open>
  The field of 256 elements that erasure coding computes in (\<open>src/core/erasure.ts\<close>): the
  exponential and logarithm tables over the polynomial 0x11d, multiplication and inversion by
  table, and that these make the bytes a field with exclusive or as addition.
\<close>

definition xtime :: "byte \<Rightarrow> byte" where
  "xtime v = (if bit v 7 then push_bit 1 v XOR 0x1d else push_bit 1 v)"

text \<open>The loop that fills the tables: \<open>EXP[i] = value; LOG[value] = i\<close>, then the doubled value.\<close>

fun exp_table :: "nat \<Rightarrow> byte \<Rightarrow> byte list" where
  "exp_table 0 v = []"
| "exp_table (Suc n) v = v # exp_table n (xtime v)"

definition EXP :: "byte list" where
  "EXP = exp_table 255 1 @ exp_table 255 1"

fun log_table :: "nat \<Rightarrow> nat \<Rightarrow> byte \<Rightarrow> nat list \<Rightarrow> nat list" where
  "log_table 0 i v t = t"
| "log_table (Suc n) i v t = log_table n (i + 1) (xtime v) (t[unat v := i])"

definition LOG :: "nat list" where
  "LOG = log_table 255 0 1 (replicate 256 0)"

definition mul :: "byte \<Rightarrow> byte \<Rightarrow> byte" where
  "mul a b = (if a = 0 \<or> b = 0 then 0 else EXP ! (LOG ! unat a + LOG ! unat b))"

definition inv_byte :: "byte \<Rightarrow> byte" where
  "inv_byte a = EXP ! (255 - LOG ! unat a)"

lemma exp_table_nth: "i < n \<Longrightarrow> exp_table n v ! i = (xtime ^^ i) v"
  by (induction n arbitrary: v i) (simp_all add: nth_Cons funpow_swap1 split: nat.splits)

lemma length_exp_table [simp]: "length (exp_table n v) = n"
  by (induction n arbitrary: v) simp_all

lemma set_exp_table: "w \<in> set (exp_table n v) \<longleftrightarrow> (\<exists>i<n. w = (xtime ^^ i) v)"
  by (auto simp: in_set_conv_nth exp_table_nth)

lemma exp_cycle_values: "list_all (\<lambda>v. v \<noteq> 1 \<and> v \<noteq> 0) (tl (exp_table 255 1))"
  by code_simp

lemma exp_cycle_closes: "xtime (last (exp_table 255 1)) = 1"
  by code_simp

lemma nth_tl_list_all: "list_all P (tl xs) \<Longrightarrow> 0 < i \<Longrightarrow> i < length xs \<Longrightarrow> P (xs ! i)"
  by (cases xs; cases i) (auto simp: list_all_length)

lemma exp_cycle:
  "0 < i \<Longrightarrow> i < 255 \<Longrightarrow> (xtime ^^ i) 1 \<noteq> 1" "i < 255 \<Longrightarrow> (xtime ^^ i) 1 \<noteq> 0" "(xtime ^^ 255) 1 = 1"
proof -
  show "(xtime ^^ i) 1 \<noteq> 1" if "0 < i" "i < 255" for i
    using nth_tl_list_all[OF exp_cycle_values, of i] that by (simp add: exp_table_nth)
  show "(xtime ^^ i) 1 \<noteq> 0" if "i < 255" for i
    using nth_tl_list_all[OF exp_cycle_values, of i] that by (cases i) (auto simp: exp_table_nth)
  have "last (exp_table 255 1) = (xtime ^^ 254) 1" by (subst last_conv_nth) (auto simp: exp_table_nth simp flip: length_0_conv)
  then have "xtime ((xtime ^^ 254) 1) = 1" using exp_cycle_closes by simp
  moreover have "(xtime ^^ 255) 1 = xtime ((xtime ^^ 254) 1)" using funpow.simps(2)[of 254 xtime] by simp
  ultimately show "(xtime ^^ 255) 1 = 1" by simp
qed

lemma bit_xtime:
  "bit (xtime v) n \<longleftrightarrow> n < 8 \<and> ((0 < n \<and> bit v (n - 1)) \<noteq> (bit v 7 \<and> bit (0x1d :: byte) n))"
  unfolding xtime_def by (auto simp only: bit_xor_iff bit_push_bit_iff possible_bit_word len_bit0 split: if_splits) auto

lemma xtime_xor: "xtime (u XOR v) = xtime u XOR xtime v"
  by (rule bit_eqI) (auto simp: bit_xtime bit_xor_iff)

lemma xtime_0 [simp]: "xtime 0 = 0"
  by (simp add: xtime_def)

lemma xtime_eq_0: "xtime w = 0 \<Longrightarrow> w = 0"
proof (rule bit_eqI)
  fix n
  assume z: "xtime w = 0" and n: "possible_bit TYPE(8 word) n"
  have n8: "n < 8" using n by simp
  have b: "bit (xtime w) k = False" for k using z by simp
  have no7: "\<not> bit w 7" using b[of 0] by (simp add: bit_xtime)
  show "bit w n = bit 0 n"
  proof (cases "n = 7")
    case False
    then show ?thesis using b[of "Suc n"] no7 n8 by (simp add: bit_xtime)
  qed (use no7 in simp)
qed

lemma xor_eq_0: "(u XOR v = 0) = (u = (v :: byte))"
  by (auto simp: bit_eq_iff bit_xor_iff)

lemma xtime_inj: "xtime u = xtime v \<Longrightarrow> u = v"
  using xtime_eq_0[of "u XOR v"] by (simp add: xtime_xor xor_eq_0)

lemma xtimes_xor: "(xtime ^^ k) (u XOR v) = (xtime ^^ k) u XOR (xtime ^^ k) v"
  by (induction k) (simp_all add: xtime_xor)

lemma xtimes_0 [simp]: "(xtime ^^ k) 0 = 0"
  by (induction k) simp_all

lemma xtimes_inj: "(xtime ^^ k) u = (xtime ^^ k) v \<Longrightarrow> u = v"
  by (induction k) (auto dest: xtime_inj)

lemma exp_distinct:
  assumes "i < 255" "j < 255" "(xtime ^^ i) 1 = (xtime ^^ j) 1"
  shows "i = j"
proof -
  have "i = j" if "i \<le> j" "j < 255" "(xtime ^^ i) 1 = (xtime ^^ j) 1" for i j
  proof (rule ccontr)
    assume "i \<noteq> j"
    have "(xtime ^^ (i + (j - i))) 1 = (xtime ^^ i) ((xtime ^^ (j - i)) 1)" by (simp only: funpow_add comp_apply)
    then have "(xtime ^^ i) ((xtime ^^ (j - i)) 1) = (xtime ^^ i) 1" unfolding le_add_diff_inverse[OF that(1)] that(3) by (rule sym)
    then have "(xtime ^^ (j - i)) 1 = 1" by (rule xtimes_inj)
    then show False using exp_cycle(1)[of "j - i"] that \<open>i \<noteq> j\<close> by simp
  qed
  then show ?thesis using assms by (metis nle_le)
qed

lemma exp_mod: "(xtime ^^ n) 1 = (xtime ^^ (n mod 255)) 1"
proof (induction n rule: less_induct)
  case (less n)
  show ?case
  proof (cases "n < 255")
    case False
    have "(xtime ^^ ((n - 255) + 255)) 1 = (xtime ^^ (n - 255)) ((xtime ^^ 255) 1)" by (simp only: funpow_add comp_apply)
    then have "(xtime ^^ n) 1 = (xtime ^^ (n - 255)) 1" using False unfolding exp_cycle(3) by simp
    then show ?thesis using less[of "n - 255"] False by (simp add: le_mod_geq)
  qed simp
qed

lemma EXP_nth: "i < 510 \<Longrightarrow> EXP ! i = (xtime ^^ i) 1"
proof (cases "i < 255")
  case False
  moreover assume "i < 510"
  ultimately have "EXP ! i = (xtime ^^ (i - 255)) 1" and m: "i mod 255 = i - 255"
    by (simp_all add: EXP_def nth_append exp_table_nth le_mod_geq)
  then show ?thesis using exp_mod[of i] unfolding m by simp
qed (simp add: EXP_def nth_append exp_table_nth)

lemma length_log_table [simp]: "length (log_table n i v t) = length t"
  by (induction n arbitrary: i v t) simp_all

lemma log_table_other: "(\<forall>k<n. (xtime ^^ k) v \<noteq> w) \<Longrightarrow> log_table n i v t ! unat w = t ! unat w"
proof (induction n arbitrary: i v t)
  case (Suc n)
  have "v \<noteq> w" using Suc.prems[rule_format, of 0] by simp
  moreover have "\<forall>k<n. (xtime ^^ k) (xtime v) \<noteq> w" using Suc.prems by (auto simp: funpow_swap1 dest: spec[of _ "Suc k" for k])
  ultimately show ?case using Suc.IH by (simp add: nth_list_update word_unat_eq_iff)
qed simp

lemma log_table_nth:
  "\<forall>k<n. \<forall>j<n. (xtime ^^ k) v = (xtime ^^ j) v \<longrightarrow> k = j \<Longrightarrow> length t = 256 \<Longrightarrow> k < n \<Longrightarrow> log_table n i v t ! unat ((xtime ^^ k) v) = i + k"
proof (induction n arbitrary: i v t k)
  case (Suc n)
  have d: "(xtime ^^ a) (xtime v) = (xtime ^^ Suc a) v" for a by (simp add: funpow_swap1)
  show ?case
  proof (cases k)
    case 0
    have "\<forall>k<n. (xtime ^^ k) (xtime v) \<noteq> v" using Suc.prems(1)[rule_format, of "Suc k" 0 for k] d by fastforce
    then have "log_table n (i + 1) (xtime v) (t[unat v := i]) ! unat v = i"
      using log_table_other Suc.prems(2) byte_bound[of v] by simp
    then show ?thesis using 0 by simp
  next
    case (Suc k')
    have "\<forall>k<n. \<forall>j<n. (xtime ^^ k) (xtime v) = (xtime ^^ j) (xtime v) \<longrightarrow> k = j"
      unfolding d using Suc.prems(1) by (metis Suc_less_eq Suc_inject)
    then have "log_table n (i + 1) (xtime v) (t[unat v := i]) ! unat ((xtime ^^ k') (xtime v)) = i + 1 + k'"
      using Suc.IH[of "xtime v" "t[unat v := i]" k' "i + 1"] Suc.prems(2,3) \<open>k = Suc k'\<close> by simp
    then show ?thesis unfolding d by (simp add: Suc)
  qed
qed simp

lemma LOG_EXP: "i < 255 \<Longrightarrow> LOG ! unat ((xtime ^^ i) 1) = i"
  unfolding LOG_def using log_table_nth[of 255 1 "replicate 256 0" i 0] exp_distinct by simp

lemma exp_onto:
  assumes "a \<noteq> (0 :: byte)"
  obtains i where "i < 255" "a = (xtime ^^ i) 1"
proof -
  let ?S = "(\<lambda>i. (xtime ^^ i) 1) ` {..<255}"
  have "inj_on (\<lambda>i. (xtime ^^ i) (1 :: byte)) {..<255}" by (rule inj_onI) (simp add: exp_distinct)
  then have c: "card ?S = 255" by (simp add: card_image)
  have "card (UNIV - {0 :: byte}) = 255" by (simp add: card_word)
  moreover have "?S \<subseteq> UNIV - {0}" using exp_cycle(2) by auto
  ultimately have "?S = UNIV - {0}" using c by (intro card_subset_eq) auto
  then show ?thesis using assms that by blast
qed

text \<open>Multiplication by the \<open>i\<close>th power of the generator doubles \<open>i\<close> times.\<close>

lemma mul_exp: "i < 255 \<Longrightarrow> mul ((xtime ^^ i) 1) b = (xtime ^^ i) b"
proof (cases "b = 0")
  case False
  assume i: "i < 255"
  obtain j where j: "j < 255" "b = (xtime ^^ j) 1" using False by (rule exp_onto)
  have "mul ((xtime ^^ i) 1) b = EXP ! (i + j)" using i j False exp_cycle(2)[OF i] by (simp add: mul_def LOG_EXP)
  also have "\<dots> = (xtime ^^ i) b" using i j by (simp add: EXP_nth funpow_add)
  finally show ?thesis .
qed (simp add: mul_def)

lemma mul_0 [simp]: "mul 0 b = 0" "mul a 0 = 0"
  by (simp_all add: mul_def)

lemma mul_commute: "mul a b = mul b a"
  by (simp add: mul_def add.commute)

lemma mul_xor: "mul a (b XOR c) = mul a b XOR mul a c"
proof (cases "a = 0")
  case False
  then show ?thesis by (rule exp_onto) (simp add: mul_exp xtimes_xor)
qed simp

lemma mul_assoc: "mul (mul a b) c = mul a (mul b c)"
proof (cases "a = 0 \<or> b = 0")
  case False
  obtain i where i: "i < 255" "a = (xtime ^^ i) 1" using exp_onto[of a] False by blast
  obtain j where j: "j < 255" "b = (xtime ^^ j) 1" using exp_onto[of b] False by blast
  have "mul a b = (xtime ^^ ((i + j) mod 255)) 1" using i j exp_mod[of "i + j"] by (simp add: mul_exp funpow_add)
  then have "mul (mul a b) c = (xtime ^^ ((i + j) mod 255)) c" by (simp add: mul_exp)
  also have "\<dots> = (xtime ^^ (i + j)) c"
  proof (cases "c = 0")
    case False
    then obtain k where "c = (xtime ^^ k) 1" using exp_onto[of c] by blast
    moreover have "((i + j) mod 255 + k) mod 255 = (i + j + k) mod 255" by (simp add: mod_add_left_eq)
    ultimately show ?thesis
      using exp_mod[of "(i + j) mod 255 + k"] exp_mod[of "i + j + k"] by (simp add: funpow_add)
  qed simp
  also have "\<dots> = mul a (mul b c)" using i j by (simp add: mul_exp funpow_add)
  finally show ?thesis .
qed auto

lemma mul_1: "mul 1 b = b"
  using mul_exp[of 0 b] by simp

lemma mul_inv:
  assumes "a \<noteq> 0"
  shows "mul (inv_byte a) a = 1"
proof -
  obtain i where i: "i < 255" "a = (xtime ^^ i) 1" using assms by (rule exp_onto)
  then have "inv_byte a = (xtime ^^ (255 - i)) 1" by (simp add: inv_byte_def LOG_EXP EXP_nth)
  then have "mul (inv_byte a) a = (xtime ^^ i) ((xtime ^^ (255 - i)) 1)" using mul_exp[OF i(1)] i(2) mul_commute by metis
  also have "\<dots> = (xtime ^^ (i + (255 - i))) 1" by (simp only: funpow_add comp_apply)
  also have "\<dots> = 1" using i(1) exp_cycle(3) by (simp only: le_add_diff_inverse less_imp_le)
  finally show ?thesis .
qed

subsection \<open>The field\<close>

text \<open>
  A byte seen as an element of the field; \<open>of_gf\<close> and \<open>to_gf\<close> change nothing but the type.
\<close>

typedef gf = "UNIV :: byte set" morphisms of_gf to_gf by simp

setup_lifting type_definition_gf

lemma gf_simps [simp]: "of_gf (to_gf b) = b" "to_gf (of_gf x) = x"
  by (simp_all add: to_gf_inverse of_gf_inverse)

instantiation gf :: field
begin
lift_definition zero_gf :: gf is 0 .
lift_definition one_gf :: gf is 1 .
lift_definition plus_gf :: "gf \<Rightarrow> gf \<Rightarrow> gf" is "\<lambda>a b. a XOR b" .
lift_definition minus_gf :: "gf \<Rightarrow> gf \<Rightarrow> gf" is "\<lambda>a b. a XOR b" .
lift_definition uminus_gf :: "gf \<Rightarrow> gf" is "\<lambda>a. a" .
lift_definition times_gf :: "gf \<Rightarrow> gf \<Rightarrow> gf" is mul .
lift_definition inverse_gf :: "gf \<Rightarrow> gf" is "\<lambda>a. if a = 0 then 0 else inv_byte a" .
lift_definition divide_gf :: "gf \<Rightarrow> gf \<Rightarrow> gf" is "\<lambda>a b. mul a (if b = 0 then 0 else inv_byte b)" .
instance
proof
  fix a b c :: gf
  show "a + b + c = a + (b + c)" by transfer (rule xor.assoc)
  show "a + b = b + a" by transfer (rule xor.commute)
  show "0 + a = a" "a - b = a + - b" by (transfer, simp)+
  show "- a + a = 0" by transfer simp
  show "a * b * c = a * (b * c)" by transfer (rule mul_assoc)
  show "a * b = b * a" by transfer (rule mul_commute)
  show "1 * a = a" by transfer (rule mul_1)
  show "(a + b) * c = a * c + b * c" by transfer (simp only: mul_commute[of _ c for c] mul_xor mul_commute)
  show "(0 :: gf) \<noteq> 1" by transfer simp
  show "a \<noteq> 0 \<Longrightarrow> inverse a * a = 1" by transfer (simp add: mul_inv)
  show "a div b = a * inverse b" by transfer simp
  show "inverse (0 :: gf) = 0" by transfer simp
qed
end

lemma gf_double [simp]: "x + x = (0 :: gf)"
  by transfer simp

lemma gf_add_eq_0: "x + y = 0 \<longleftrightarrow> x = (y :: gf)"
  by transfer (rule xor_eq_0)

end
