(* ===== verification/Erasure.thy ===== *)
theory Erasure
  imports Galois Json Complex_Main
begin

text \<open>
  Systematic Reed-Solomon coding (\<open>src/core/erasure.ts\<close>): inversion of a matrix by Gaussian
  elimination, the generator matrix, and splitting a payload into parts of which any
  \<open>required\<close> give it back. Coefficients and payload bytes are elements of the field of theory
  Galois.
\<close>

datatype erasure_error = BadCodingBounds | NotInvertible | TooSmallToSplit | BadParts | CodingAborted

type_synonym matrix = "gf list list"

definition codingBounds :: "jsnum \<Rightarrow> jsnum \<Rightarrow> erasure_error + unit" where
  "codingBounds required tot =
     (case (required, tot) of
        (Whole k, Whole n) \<Rightarrow> guardR (\<not> (k < 2 \<or> k \<ge> n \<or> n > 16)) BadCodingBounds
      | _ \<Rightarrow> Inl BadCodingBounds)"

definition unit_row :: "nat \<Rightarrow> nat \<Rightarrow> gf list" where
  "unit_row n r = map (\<lambda>c. if r = c then 1 else 0) [0..<n]"

definition augment :: "matrix \<Rightarrow> matrix" where
  "augment m = map (\<lambda>r. m ! r @ unit_row (length m) r) [0..<length m]"

definition gf_inverse :: "gf \<Rightarrow> gf" where
  "gf_inverse x = to_gf (inv_byte (of_gf x))"

definition swap_rows :: "nat \<Rightarrow> nat \<Rightarrow> matrix \<Rightarrow> matrix" where
  "swap_rows i j w = w[i := w ! j, j := w ! i]"

definition add_multiple :: "gf \<Rightarrow> gf list \<Rightarrow> gf list \<Rightarrow> gf list" where
  "add_multiple factor row xs = map2 (\<lambda>x y. x + factor * y) xs row"

definition scale_row :: "gf \<Rightarrow> gf list \<Rightarrow> gf list" where
  "scale_row s row = map (\<lambda>x. x * s) row"

definition clear_column :: "nat \<Rightarrow> matrix \<Rightarrow> matrix" where
  "clear_column col w =
     (let row = scale_row (gf_inverse (w ! col ! col)) (w ! col)
      in map (\<lambda>r. if r = col then row else add_multiple (w ! r ! col) row (w ! r)) [0..<length w])"

definition invert_step :: "nat \<Rightarrow> matrix \<Rightarrow> erasure_error + matrix" where
  "invert_step col w =
     (case find (\<lambda>r. col \<le> r \<and> w ! r ! col \<noteq> 0) [0..<length w] of
        None \<Rightarrow> Inl NotInvertible
      | Some pivot \<Rightarrow> Inr (clear_column col (swap_rows col pivot w)))"

fun invert_loop :: "nat list \<Rightarrow> matrix \<Rightarrow> erasure_error + matrix" where
  "invert_loop [] w = Inr w"
| "invert_loop (col # cols) w = bindR (invert_step col w) (invert_loop cols)"

definition invert :: "matrix \<Rightarrow> erasure_error + matrix" where
  "invert m = bindR (invert_loop [0..<length m] (augment m)) (\<lambda>w. Inr (map (drop (length m)) w))"

definition point :: "nat \<Rightarrow> gf" where
  "point r = to_gf (of_nat r)"

fun vandermonde_row :: "nat \<Rightarrow> gf \<Rightarrow> gf \<Rightarrow> gf list" where
  "vandermonde_row 0 prev r = []"
| "vandermonde_row (Suc n) prev r = (prev * r) # vandermonde_row n (prev * r) r"

definition vandermonde :: "nat \<Rightarrow> nat \<Rightarrow> matrix" where
  "vandermonde required tot = map (\<lambda>r. 1 # vandermonde_row (required - 1) 1 (point r)) [0..<tot]"

definition matrix_times :: "matrix \<Rightarrow> matrix \<Rightarrow> nat \<Rightarrow> matrix" where
  "matrix_times a b cols = map (\<lambda>row. map (\<lambda>col. foldl (\<lambda>s i. s + row ! i * b ! i ! col) 0 [0..<length row]) [0..<cols]) a"

definition generator :: "nat \<Rightarrow> nat \<Rightarrow> erasure_error + matrix" where
  "generator required tot =
     bindR (codingBounds (Whole (int required)) (Whole (int tot))) (\<lambda>_.
     bindR (invert (take required (vandermonde required tot))) (\<lambda>topInverse.
     Inr (matrix_times (vandermonde required tot) topInverse required)))"

subsection \<open>Rows and the vectors they annihilate\<close>

definition dot :: "gf list \<Rightarrow> (nat \<Rightarrow> gf) \<Rightarrow> gf" where
  "dot row v = (\<Sum>i<length row. row ! i * v i)"

definition null :: "matrix \<Rightarrow> (nat \<Rightarrow> gf) set" where
  "null w = {v. \<forall>r<length w. dot (w ! r) v = 0}"

definition rows_have :: "nat \<Rightarrow> nat \<Rightarrow> matrix \<Rightarrow> bool" where
  "rows_have n m w \<longleftrightarrow> length w = n \<and> (\<forall>r<n. length (w ! r) = m)"

lemma dot_scale: "dot (scale_row s row) v = s * dot row v"
  by (simp add: dot_def scale_row_def sum_distrib_left mult.assoc mult.left_commute)

lemma dot_add: "length xs = length row \<Longrightarrow> dot (add_multiple f row xs) v = dot xs v + f * dot row v"
  by (simp add: dot_def add_multiple_def sum.distrib sum_distrib_left algebra_simps)

lemma dot_append: "dot (xs @ ys) v = dot xs v + dot ys (\<lambda>i. v (i + length xs))"
proof -
  have "dot (xs @ ys) v = (\<Sum>i = 0..<length xs. (xs @ ys) ! i * v i) + (\<Sum>i = 0 + length xs..<length ys + length xs. (xs @ ys) ! i * v i)"
    by (simp add: dot_def sum.atLeastLessThan_concat lessThan_atLeast0 add.commute)
  also have "\<dots> = dot xs v + dot ys (\<lambda>i. v (i + length xs))"
    unfolding sum.shift_bounds_nat_ivl by (simp add: dot_def nth_append lessThan_atLeast0)
  finally show ?thesis .
qed

lemma gf_inverse:
  assumes "x \<noteq> 0"
  shows "gf_inverse x = inverse x" "gf_inverse x \<noteq> 0"
proof -
  have "of_gf x \<noteq> 0" using assms by (metis gf_simps(2) zero_gf_def)
  then show eq: "gf_inverse x = inverse x" by (simp add: gf_inverse_def inverse_gf_def)
  show "gf_inverse x \<noteq> 0" using eq assms by simp
qed

lemma swap_rows_length [simp]: "length (swap_rows i j w) = length w"
  by (simp add: swap_rows_def)

lemma swap_rows_nth: "i < length w \<Longrightarrow> j < length w \<Longrightarrow> r < length w \<Longrightarrow>
  swap_rows i j w ! r = (if r = i then w ! j else if r = j then w ! i else w ! r)"
  by (auto simp: swap_rows_def nth_list_update)

lemma null_swap: "i < length w \<Longrightarrow> j < length w \<Longrightarrow> null (swap_rows i j w) = null w"
  by (auto simp: null_def swap_rows_nth split: if_splits)

lemma rows_swap: "rows_have n m w \<Longrightarrow> i < n \<Longrightarrow> j < n \<Longrightarrow> rows_have n m (swap_rows i j w)"
  by (auto simp: rows_have_def swap_rows_nth)

lemma clear_length [simp]: "length (clear_column col w) = length w"
  by (simp add: clear_column_def Let_def)

lemma clear_nth: "r < length w \<Longrightarrow> clear_column col w ! r =
  (if r = col then scale_row (gf_inverse (w ! col ! col)) (w ! col)
   else add_multiple (w ! r ! col) (scale_row (gf_inverse (w ! col ! col)) (w ! col)) (w ! r))"
  by (simp add: clear_column_def Let_def)

lemma length_rows [simp]: "length (scale_row s row) = length row" "length (add_multiple f row xs) = min (length xs) (length row)"
  by (simp_all add: scale_row_def add_multiple_def)

lemma rows_clear: "rows_have n m w \<Longrightarrow> col < n \<Longrightarrow> rows_have n m (clear_column col w)"
  by (auto simp: rows_have_def clear_nth)

lemma null_clear:
  assumes "rows_have n m w" "col < n" "w ! col ! col \<noteq> 0"
  shows "null (clear_column col w) = null w"
proof -
  define s where "s = gf_inverse (w ! col ! col)"
  have s: "s \<noteq> 0" using gf_inverse(2)[OF assms(3)] by (simp add: s_def)
  have len: "length w = n" "\<And>r. r < n \<Longrightarrow> length (w ! r) = m" using assms(1) by (auto simp: rows_have_def)
  have d: "dot (clear_column col w ! r) v =
      (if r = col then s * dot (w ! col) v else dot (w ! r) v + w ! r ! col * (s * dot (w ! col) v))" if "r < n" for r v
    using that len assms(2) by (simp add: clear_nth dot_scale dot_add s_def)
  show ?thesis
  proof (rule set_eqI)
    fix v
    show "v \<in> null (clear_column col w) \<longleftrightarrow> v \<in> null w"
    proof (cases "dot (w ! col) v = 0")
      case True
      then show ?thesis using assms(2) len(1) by (simp add: null_def d) metis
    next
      case False
      then show ?thesis using assms(2) len(1) s by (auto simp: null_def d intro!: exI[of _ col])
    qed
  qed
qed

text \<open>The columns already cleared are those of the identity.\<close>

definition cleared :: "nat \<Rightarrow> matrix \<Rightarrow> bool" where
  "cleared k w \<longleftrightarrow> (\<forall>c<k. \<forall>r<length w. w ! r ! c = (if r = c then 1 else 0))"

lemma cleared_step:
  assumes "rows_have n m w" "n \<le> m" "col < n" "col \<le> p" "p < n" "w ! p ! col \<noteq> 0" "cleared col w"
  shows "cleared (Suc col) (clear_column col (swap_rows col p w))"
proof -
  define w' where "w' = swap_rows col p w"
  have rows: "rows_have n m w'" using rows_swap[OF assms(1,3,5)] by (simp add: w'_def)
  have len: "length w' = n" "\<And>r. r < n \<Longrightarrow> length (w' ! r) = m" using rows by (auto simp: rows_have_def)
  have piv: "w' ! col ! col \<noteq> 0" using assms by (simp add: w'_def swap_rows_nth rows_have_def)
  have cl: "w' ! r ! c = (if r = c then 1 else 0)" if "c < col" "r < n" for r c
    using that assms(1,3-5,7) by (auto simp: w'_def swap_rows_nth cleared_def rows_have_def)
  have "clear_column col w' ! r ! c = (if r = c then 1 else 0)" if "c \<le> col" "r < n" for r c
    using that cl[of c] len assms(2,3) piv
    by (cases "c = col") (auto simp: clear_nth scale_row_def add_multiple_def gf_inverse(1)[OF piv])
  then show ?thesis using len(1) by (auto simp: cleared_def w'_def)
qed

text \<open>
  With a pivot in each column the loop ends; without one some vector other than zero is
  annihilated: the column itself above the diagonal, one on it, zero below.
\<close>

lemma no_pivot:
  assumes "rows_have n m w" "n \<le> m" "col < n" "cleared col w" "\<forall>r<n. col \<le> r \<longrightarrow> w ! r ! col = 0"
  shows "(\<lambda>i. if i < col then w ! i ! col else if i = col then 1 else 0) \<in> null w"
proof -
  define v where "v = (\<lambda>i. if i < col then w ! i ! col else if i = col then 1 else 0)"
  have len: "length w = n" "\<And>r. r < n \<Longrightarrow> length (w ! r) = m" using assms(1) by (auto simp: rows_have_def)
  have "dot (w ! r) v = 0" if r: "r < n" for r
  proof -
    have "dot (w ! r) v = (\<Sum>i\<in>{..<Suc col}. w ! r ! i * v i)"
      unfolding dot_def using len(2)[OF r] assms(2,3) by (intro sum.mono_neutral_cong_right) (auto simp: v_def)
    also have "\<dots> = (\<Sum>i<col. (if r = i then 1 else 0) * v i) + w ! r ! col"
      using assms(4) r len(1) by (simp add: v_def cleared_def)
    also have "(\<Sum>i<col. (if r = i then 1 else 0) * v i) = (if r < col then v r else 0)"
      by (simp add: if_distrib[of "\<lambda>x. x * _"] sum.delta cong: if_cong)
    also have "(if r < col then v r else 0) + w ! r ! col = 0" using assms(5) r by (simp add: v_def)
    finally show ?thesis .
  qed
  then show ?thesis using len(1) by (simp add: null_def v_def)
qed

lemma invert_step_ok:
  assumes "rows_have n m w" "n \<le> m" "col < n" "cleared col w" "\<And>v. v \<in> null w \<Longrightarrow> (\<forall>i. n \<le> i \<longrightarrow> v i = 0) \<Longrightarrow> (\<forall>i<n. v i = 0)"
  obtains w' where "invert_step col w = Inr w'" "rows_have n m w'" "cleared (Suc col) w'" "null w' = null w"
proof (cases "find (\<lambda>r. col \<le> r \<and> w ! r ! col \<noteq> 0) [0..<length w]")
  case None
  have "\<forall>r<n. col \<le> r \<longrightarrow> w ! r ! col = 0" using None assms(1) by (auto simp: find_None_iff rows_have_def)
  from no_pivot[OF assms(1-4) this] have "(1 :: gf) = 0" using assms(3) assms(5) by fastforce
  then show ?thesis by simp
next
  case (Some p)
  then have p: "col \<le> p" "p < n" "w ! p ! col \<noteq> 0" using assms(1) by (auto simp: find_Some_iff rows_have_def)
  have piv: "swap_rows col p w ! col ! col \<noteq> 0" using p assms(1,3) by (simp add: swap_rows_nth rows_have_def)
  have "null (clear_column col (swap_rows col p w)) = null w"
    using null_clear[OF rows_swap[OF assms(1,3) p(2)] assms(3) piv] null_swap[of col w p] assms(1,3) p by (simp add: rows_have_def)
  then show ?thesis
    using that[of "clear_column col (swap_rows col p w)"] Some rows_clear[OF rows_swap[OF assms(1,3) p(2)] assms(3)]
      cleared_step[OF assms(1-3) p(1,2,3) assms(4)] by (simp add: invert_step_def)
qed

lemma invert_loop_ok:
  assumes "rows_have n m w" "n \<le> m" "col \<le> n" "cleared col w" "\<And>v. v \<in> null w \<Longrightarrow> (\<forall>i. n \<le> i \<longrightarrow> v i = 0) \<Longrightarrow> (\<forall>i<n. v i = 0)"
  shows "\<exists>w'. invert_loop [col..<n] w = Inr w' \<and> rows_have n m w' \<and> cleared n w' \<and> null w' = null w"
  using assms
proof (induction "n - col" arbitrary: col w)
  case 0
  then show ?case by simp
next
  case (Suc k)
  then have col: "col < n" by simp
  obtain w' where w': "invert_step col w = Inr w'" "rows_have n m w'" "cleared (Suc col) w'" "null w' = null w"
    using invert_step_ok[OF Suc.prems(1,2) col Suc.prems(4,5)] by blast
  have "\<exists>w''. invert_loop [Suc col..<n] w' = Inr w'' \<and> rows_have n m w'' \<and> cleared n w'' \<and> null w'' = null w'"
    using Suc.hyps w' Suc.prems(2,5) col by (intro Suc.hyps(1)) auto
  then show ?case using w' col by (simp add: upt_conv_Cons)
qed

definition mat_mul :: "matrix \<Rightarrow> matrix \<Rightarrow> nat \<Rightarrow> nat \<Rightarrow> gf" where
  "mat_mul a b i j = dot (a ! i) (\<lambda>l. b ! l ! j)"

lemma dot_unit: "r < n \<Longrightarrow> dot (unit_row n r) v = v r"
  by (simp add: dot_def unit_row_def if_distrib[of "\<lambda>x. x * _"] sum.delta cong: if_cong)

lemma length_unit_row [simp]: "length (unit_row n r) = n"
  by (simp add: unit_row_def)

lemma augment_rows: "rows_have n n m \<Longrightarrow> rows_have n (n + n) (augment m)"
  by (simp add: rows_have_def augment_def)

lemma augment_dot: "rows_have n n m \<Longrightarrow> r < n \<Longrightarrow> dot (augment m ! r) v = dot (m ! r) v + v (r + n)"
  by (simp add: rows_have_def augment_def dot_append dot_unit)

lemma dot_cong: "(\<And>i. i < length row \<Longrightarrow> u i = v i) \<Longrightarrow> dot row u = dot row v"
  by (simp add: dot_def)

lemma dot_delta: "j < length row \<Longrightarrow> dot row (\<lambda>i. if i = j then 1 else 0) = row ! j"
  by (simp add: dot_def if_distrib[of "\<lambda>x. _ * x"] sum.delta cong: if_cong)

text \<open>The elimination of a matrix that annihilates only zero gives its inverse, on both sides.\<close>

lemma invert_ok:
  assumes "rows_have n n m" "\<And>v. v \<in> null m \<Longrightarrow> (\<forall>i<n. v i = 0)"
  obtains b where "invert m = Inr b" "rows_have n n b"
    "\<And>i j. i < n \<Longrightarrow> j < n \<Longrightarrow> mat_mul b m i j = (if i = j then 1 else 0)"
    "\<And>i j. i < n \<Longrightarrow> j < n \<Longrightarrow> mat_mul m b i j = (if i = j then 1 else 0)"
proof -
  have len: "length m = n" using assms(1) by (simp add: rows_have_def)
  have alen: "length (augment m) = n" using augment_rows[OF assms(1)] by (simp add: rows_have_def)
  have triv: "\<forall>i<n. v i = 0" if "v \<in> null (augment m)" "\<forall>i. n \<le> i \<longrightarrow> v i = 0" for v
  proof (rule assms(2))
    show "v \<in> null m" using that alen len by (simp add: null_def augment_dot[OF assms(1)])
  qed
  have "cleared 0 (augment m)" by (simp add: cleared_def)
  from invert_loop_ok[OF augment_rows[OF assms(1)] le_add1 le0 this triv]
  obtain w where w: "invert_loop [0..<n] (augment m) = Inr w" "rows_have n (n + n) w" "cleared n w" "null w = null (augment m)" by blast
  define b where "b = map (drop n) w"
  have b: "invert m = Inr b" "rows_have n n b" using w(1,2) len by (auto simp: invert_def b_def rows_have_def)
  have row: "w ! r = unit_row n r @ b ! r" if "r < n" for r
    using that w(2,3) by (intro nth_equalityI) (auto simp: rows_have_def b_def nth_append unit_row_def cleared_def)
  have wd: "dot (w ! r) v = v r + dot (b ! r) (\<lambda>i. v (i + n))" if "r < n" for r v
    using that by (simp add: row dot_append dot_unit)
  have lens: "length w = n" "length (b ! r) = n" "length (m ! r) = n" if "r < n" for r
    using that w(2) b(2) assms(1) by (auto simp: rows_have_def)
  have both: "(\<forall>r<n. v r + dot (b ! r) (\<lambda>i. v (i + n)) = 0) \<longleftrightarrow> (\<forall>r<n. dot (m ! r) v + v (r + n) = 0)" for v
    using w(2,4) alen by (simp add: null_def set_eq_iff rows_have_def wd augment_dot[OF assms(1)])
  have left: "mat_mul b m i j = (if i = j then 1 else 0)" if "i < n" "j < n" for i j
  proof -
    define v where "v = (\<lambda>l. if l < n then if l = j then 1 else 0 else m ! (l - n) ! j)"
    have "dot (m ! r) v + v (r + n) = 0" if "r < n" for r
    proof -
      have "dot (m ! r) v = dot (m ! r) (\<lambda>l. if l = j then 1 else 0)" using lens(3)[OF that] by (intro dot_cong) (simp add: v_def)
      then show ?thesis using dot_delta[of j "m ! r"] lens(3)[OF that] \<open>j < n\<close> by (simp add: v_def)
    qed
    then have "v i + dot (b ! i) (\<lambda>l. v (l + n)) = 0" using both that(1) by blast
    then show ?thesis using that by (simp add: v_def mat_mul_def gf_add_eq_0 split: if_splits)
  qed
  have right: "mat_mul m b i j = (if i = j then 1 else 0)" if "i < n" "j < n" for i j
  proof -
    define v where "v = (\<lambda>l. if l < n then b ! l ! j else if l - n = j then 1 else 0)"
    have "v r + dot (b ! r) (\<lambda>l. v (l + n)) = 0" if "r < n" for r
      using dot_delta[of j "b ! r"] lens(2)[OF that] \<open>j < n\<close> that by (simp add: v_def)
    then have "dot (m ! i) v + v (i + n) = 0" using both that(1) by blast
    moreover have "dot (m ! i) v = mat_mul m b i j" unfolding mat_mul_def using lens(3)[OF that(1)] by (intro dot_cong) (simp add: v_def)
    ultimately show ?thesis by (simp add: v_def gf_add_eq_0)
  qed
  show thesis by (rule that[OF b left right])
qed

subsection \<open>The generator\<close>

lemma vandermonde_row_nth: "i < n \<Longrightarrow> vandermonde_row n p r ! i = p * r ^ Suc i"
  by (induction n arbitrary: p i) (auto simp: nth_Cons ac_simps split: nat.splits)

lemma length_vandermonde_row [simp]: "length (vandermonde_row n p r) = n"
  by (induction n arbitrary: p) simp_all

lemma vandermonde_nth: "r < tot \<Longrightarrow> 0 < k \<Longrightarrow> i < k \<Longrightarrow> vandermonde k tot ! r ! i = point r ^ i"
  by (cases i) (simp_all add: vandermonde_def vandermonde_row_nth)

lemma vandermonde_rows: "0 < k \<Longrightarrow> rows_have tot k (vandermonde k tot)"
  by (simp add: rows_have_def vandermonde_def)

lemma point_inj: "i < 256 \<Longrightarrow> j < 256 \<Longrightarrow> point i = point j \<Longrightarrow> i = j"
proof -
  assume ij: "i < 256" "j < 256" and "point i = point j"
  then have "(of_nat i :: byte) = of_nat j" unfolding point_def by (metis gf_simps(1))
  then have "unat (of_nat i :: byte) = unat (of_nat j :: byte)" by (rule arg_cong)
  then show "i = j" unfolding unat_of_nat_byte using ij by simp
qed

text \<open>A polynomial of degree below \<open>k\<close> with \<open>k\<close> roots is zero.\<close>

lemma quotient_coefficient:
  fixes c :: "nat \<Rightarrow> 'a :: idom"
  assumes "j < n"
  shows "(\<Sum>i = Suc j..n. c i * y ^ (i - j - 1)) = c (Suc j) + y * (\<Sum>i = Suc (Suc j)..n. c i * y ^ (i - Suc j - 1))"
proof -
  have "(\<Sum>i = Suc j..n. c i * y ^ (i - j - 1)) = c (Suc j) + (\<Sum>i = Suc (Suc j)..n. c i * y ^ (i - j - 1))"
    using assms by (simp add: sum.atLeast_Suc_atMost)
  also have "(\<Sum>i = Suc (Suc j)..n. c i * y ^ (i - j - 1)) = y * (\<Sum>i = Suc (Suc j)..n. c i * y ^ (i - Suc j - 1))"
    unfolding sum_distrib_left
  proof (rule sum.cong[OF refl])
    fix i assume "i \<in> {Suc (Suc j)..n}"
    then have "i - j - 1 = Suc (i - Suc j - 1)" by auto
    then show "c i * y ^ (i - j - 1) = y * (c i * y ^ (i - Suc j - 1))" by (simp only: power_Suc mult.left_commute)
  qed
  finally show ?thesis .
qed

lemma quotient_zero:
  fixes c :: "nat \<Rightarrow> 'a :: idom"
  assumes "\<forall>j<n. (\<Sum>i = Suc j..n. c i * y ^ (i - j - 1)) = 0" "0 < i" "i \<le> n"
  shows "c i = 0"
proof -
  obtain j where j: "i = Suc j" "j < n" using assms(2,3) by (cases i) auto
  have "(\<Sum>i = Suc (Suc j)..n. c i * y ^ (i - Suc j - 1)) = 0" using assms(1) by (cases "Suc j < n") auto
  then show ?thesis using quotient_coefficient[OF j(2), of c y] assms(1) j by simp
qed

lemma roots_zero:
  fixes c :: "nat \<Rightarrow> 'a :: idom"
  assumes "distinct xs" "length xs = k" "\<And>x. x \<in> set xs \<Longrightarrow> (\<Sum>i<k. c i * x ^ i) = 0" "i < k"
  shows "c i = 0"
  using assms
proof (induction k arbitrary: xs c i)
  case (Suc n)
  obtain a ys where xs: "xs = a # ys" using Suc.prems(2) by (cases xs) auto
  define q where "q = (\<lambda>j. \<Sum>i = Suc j..n. c i * a ^ (i - j - 1))"
  have root: "(\<Sum>i\<le>n. c i * x ^ i) = 0" if "x \<in> set xs" for x using Suc.prems(3)[OF that] by (simp add: lessThan_Suc_atMost)
  have "q j = 0" if "j < n" for j
  proof (rule Suc.IH[OF _ _ _ that, of ys])
    fix x assume x: "x \<in> set ys"
    have "(x - a) * (\<Sum>j<n. q j * x ^ j) = 0"
      unfolding q_def using polyfun_diff[of n c x a] root[of x] root[of a] x that by (simp add: xs)
    moreover have "x \<noteq> a" using Suc.prems(1) x by (auto simp: xs)
    ultimately show "(\<Sum>i<n. q i * x ^ i) = 0" by simp
  qed (use Suc.prems xs in auto)
  then have z: "c l = 0" if "0 < l" "l \<le> n" for l using quotient_zero[of n c a l] that by (simp add: q_def)
  have "(\<Sum>i\<le>n. c i * a ^ i) = (\<Sum>i\<in>{0}. c i * a ^ i)" using z by (intro sum.mono_neutral_right) auto
  then have "c 0 = 0" using root[of a] by (simp add: xs)
  then show ?case using z[of i] Suc.prems(4) by (cases "i = 0") auto
qed simp

lemma vandermonde_null:
  assumes "0 < k" "tot \<le> 256" "distinct rs" "length rs = k" "\<forall>r\<in>set rs. r < tot" "v \<in> null (map (\<lambda>r. vandermonde k tot ! r) rs)" "i < k"
  shows "v i = 0"
proof (rule roots_zero[of "map point rs" k v i])
  show "distinct (map point rs)" using assms(2,3,5) point_inj by (auto simp: distinct_map inj_on_def) (meson order_less_le_trans)
  fix x assume "x \<in> set (map point rs)"
  then obtain j where j: "j < k" "x = point (rs ! j)" "rs ! j < tot" 
    using assms(4,5) unfolding set_map image_iff by (metis in_set_conv_nth)
  have "dot (vandermonde k tot ! (rs ! j)) v = 0" using assms(4,6) j(1) by (simp add: null_def)
  moreover have "length (vandermonde k tot ! (rs ! j)) = k" using vandermonde_rows[OF assms(1), of tot] j(3) by (simp add: rows_have_def)
  ultimately show "(\<Sum>i<k. v i * x ^ i) = 0"
    using vandermonde_nth[OF j(3) assms(1)] by (simp add: dot_def j(2) mult.commute)
qed (use assms in auto)

lemma foldl_sum: "foldl (\<lambda>s i. s + f i) (a :: gf) [0..<n] = a + (\<Sum>i<n. f i)"
  by (induction n) (simp_all add: add.assoc)

lemma matrix_times_nth:
  "i < length a \<Longrightarrow> j < cols \<Longrightarrow> matrix_times a b cols ! i ! j = mat_mul a b i j"
  by (simp add: matrix_times_def mat_mul_def dot_def foldl_sum)

lemma matrix_times_rows: "rows_have n m a \<Longrightarrow> rows_have n cols (matrix_times a b cols)"
  by (simp add: rows_have_def matrix_times_def)

lemma mat_mul_vector:
  assumes "length row = n" "\<And>l. l < n \<Longrightarrow> length (b ! l) = m"
  shows "dot row (\<lambda>l. dot (b ! l) v) = (\<Sum>j<m. (\<Sum>l<n. row ! l * b ! l ! j) * v j)"
  by (simp add: dot_def assms sum_distrib_left sum_distrib_right mult.assoc sum.swap[of _ "{..<m}"])

text \<open>The generator's first rows are the identity, and any \<open>k\<close> of its rows have an inverse.\<close>

lemma generator_ok:
  assumes "2 \<le> k" "k < tot" "tot \<le> 16"
  obtains g where "generator k tot = Inr g" "rows_have tot k g"
    "\<And>i j. i < k \<Longrightarrow> j < k \<Longrightarrow> g ! i ! j = (if i = j then 1 else 0)"
    "\<And>rs v i. distinct rs \<Longrightarrow> length rs = k \<Longrightarrow> \<forall>r\<in>set rs. r < tot \<Longrightarrow> v \<in> null (map (\<lambda>r. g ! r) rs) \<Longrightarrow> i < k \<Longrightarrow> v i = 0"
proof -
  let ?V = "vandermonde k tot"
  have k0: "0 < k" using assms by simp
  have rows: "rows_have tot k ?V" by (rule vandermonde_rows[OF k0])
  have top: "take k ?V = map (\<lambda>r. ?V ! r) [0..<k]" using rows assms(2) by (intro nth_equalityI) (auto simp: rows_have_def)
  have "rows_have k k (take k ?V)" using rows assms(2) by (auto simp: rows_have_def)
  moreover have "\<forall>i<k. v i = 0" if "v \<in> null (take k ?V)" for v
    using vandermonde_null[OF k0 _ _ _ _ that[unfolded top]] assms by simp
  ultimately obtain b where b: "invert (take k ?V) = Inr b" "rows_have k k b"
      "\<And>i j. i < k \<Longrightarrow> j < k \<Longrightarrow> mat_mul (take k ?V) b i j = (if i = j then 1 else 0)"
    using invert_ok[of k "take k ?V"] by metis
  define g where "g = matrix_times ?V b k"
  have g: "generator k tot = Inr g" using assms b(1) by (simp add: generator_def codingBounds_def g_def)
  have gr: "rows_have tot k g" using matrix_times_rows[OF rows] by (simp add: g_def)
  have gn: "g ! i ! j = mat_mul ?V b i j" if "i < tot" "j < k" for i j
    using that rows by (simp add: g_def matrix_times_nth rows_have_def)
  have len: "length (?V ! i) = k" "length (g ! i) = k" if "i < tot" for i using that rows gr by (auto simp: rows_have_def)
  have lb: "length (b ! l) = k" if "l < k" for l using that b(2) by (simp add: rows_have_def)
  have gv: "dot (g ! i) v = dot (?V ! i) (\<lambda>l. dot (b ! l) v)" if "i < tot" for i v
    using that mat_mul_vector[of "?V ! i" k b k v, OF len(1) lb] len gn by (simp add: dot_def mat_mul_def)
  show thesis
  proof (rule that[OF g gr])
    show "g ! i ! j = (if i = j then 1 else 0)" if "i < k" "j < k" for i j
      using that b(3)[of i j] gn[of i j] assms(2) by (simp add: mat_mul_def)
  next
    fix rs v i
    assume rs: "distinct rs" "length rs = k" "\<forall>r\<in>set rs. r < tot" and nul: "v \<in> null (map (\<lambda>r. g ! r) rs)" and i: "i < k"
    have "(\<lambda>l. dot (b ! l) v) \<in> null (map (\<lambda>r. ?V ! r) rs)" using nul rs(3) gv by (auto simp: null_def)
    then have z: "dot (b ! l) v = 0" if "l < k" for l
      using vandermonde_null[OF k0 _ rs _ that] assms(3) by simp
    have "v i = dot (unit_row k i) v" using i by (simp add: dot_unit)
    also have "\<dots> = (\<Sum>j<k. mat_mul (take k ?V) b i j * v j)" using b(3) i by (simp add: dot_def unit_row_def)
    also have "\<dots> = dot (take k ?V ! i) (\<lambda>l. dot (b ! l) v)"
      using mat_mul_vector[of "take k ?V ! i" k b k v, OF _ lb] i assms(2) len by (simp add: mat_mul_def dot_def)
    also have "\<dots> = 0" using z i assms(2) len by (simp add: dot_def)
    finally show "v i = 0" .
  qed
qed

end
