(* ===== verification/Erasure_Parts.thy ===== *)
theory Erasure_Parts
  imports Erasure Frames
begin

text \<open>
  Splitting a payload and putting it together again (\<open>src/core/erasure.ts\<close>): the stripes of
  \<open>encodeParts\<close> and \<open>decodeParts\<close>, and that any \<open>required\<close> of the parts give the payload back.
  A blob is its bytes; whether the signal has been aborted at each checkpoint is an argument.
\<close>

definition STRIPE_BYTES :: nat where "STRIPE_BYTES = 64 * 1024"

definition combine_input :: "gf \<Rightarrow> bytes \<Rightarrow> gf list \<Rightarrow> gf list" where
  "combine_input coefficient input output =
     (if coefficient = 0 then output
      else map (\<lambda>pos. if pos < length input then output ! pos + coefficient * to_gf (input ! pos) else output ! pos)
             [0..<length output])"

definition combine :: "gf list \<Rightarrow> bytes list \<Rightarrow> nat \<Rightarrow> bytes" where
  "combine coefficients inputs sz =
     map of_gf (foldl (\<lambda>output i. combine_input (coefficients ! i) (inputs ! i) output) (replicate sz 0) [0..<length inputs])"

definition blob_slice :: "nat \<Rightarrow> nat \<Rightarrow> bytes \<Rightarrow> bytes" where
  "blob_slice start stop bs = take (stop - start) (drop start bs)"

text \<open>The checkpoint of each stripe, then its work; \<open>aborted n\<close> tells the state of the signal at the \<open>n\<close>th.\<close>

fun stripes :: "(nat \<Rightarrow> bool) \<Rightarrow> (nat \<Rightarrow> nat \<Rightarrow> bytes list) \<Rightarrow> nat \<Rightarrow> nat list \<Rightarrow> bytes list \<Rightarrow> erasure_error + bytes list" where
  "stripes aborted work sz [] outputs = Inr outputs"
| "stripes aborted work sz (s # ss) outputs =
     (if aborted s then Inl CodingAborted
      else let offset = s * STRIPE_BYTES; count = min STRIPE_BYTES (sz - offset)
           in stripes aborted work sz ss (map2 (@) outputs (work offset count)))"

definition stripe_count :: "nat \<Rightarrow> nat" where
  "stripe_count sz = ceil_div sz STRIPE_BYTES"

definition encode_stripe :: "matrix \<Rightarrow> bytes \<Rightarrow> nat \<Rightarrow> nat \<Rightarrow> nat \<Rightarrow> nat \<Rightarrow> nat \<Rightarrow> bytes list" where
  "encode_stripe m blob required tot sz offset count =
     (let chunks = map (\<lambda>i. let start = i * sz + offset in blob_slice start (min (start + count) ((i + 1) * sz)) blob) [0..<required]
      in map (\<lambda>i. combine (m ! i) chunks count) [0..<tot])"

definition encodeParts :: "(nat \<Rightarrow> bool) \<Rightarrow> bytes \<Rightarrow> nat \<Rightarrow> nat \<Rightarrow> erasure_error + bytes list" where
  "encodeParts aborted blob required tot =
     bindR (generator required tot) (\<lambda>m.
     bindR (guardR (int (length blob) \<le> MAX_SAFE_INTEGER \<and> required \<le> length blob) TooSmallToSplit) (\<lambda>_.
     let sz = ceil_div (length blob) required in
     bindR (stripes aborted (encode_stripe m blob required tot sz) sz [0..<stripe_count sz] (replicate tot [])) (\<lambda>outputs.
     if aborted (stripe_count sz) then Inl CodingAborted else Inr outputs)))"

definition decode_stripe :: "matrix \<Rightarrow> (int \<times> bytes) list \<Rightarrow> nat \<Rightarrow> nat \<Rightarrow> nat \<Rightarrow> bytes list" where
  "decode_stripe decoding parts required offset count =
     (let chunks = map (\<lambda>part. blob_slice offset (offset + count) (snd part)) parts
      in map (\<lambda>i. combine (decoding ! i) chunks count) [0..<required])"

definition decodeParts :: "(nat \<Rightarrow> bool) \<Rightarrow> (int \<times> bytes) list \<Rightarrow> nat \<Rightarrow> nat \<Rightarrow> nat \<Rightarrow> erasure_error + bytes" where
  "decodeParts aborted parts required tot len =
     bindR (generator required tot) (\<lambda>m.
     bindR (guardR (int len \<le> MAX_SAFE_INTEGER \<and> required \<le> len \<and> length parts = required \<and>
       card (set (map fst parts)) = required \<and>
       list_all (\<lambda>part. 0 \<le> fst part \<and> fst part < int tot \<and> length (snd part) = ceil_div len required) parts) BadParts) (\<lambda>_.
     bindR (invert (map (\<lambda>part. m ! nat (fst part)) parts)) (\<lambda>decoding.
     let sz = ceil_div len required in
     bindR (stripes aborted (decode_stripe decoding parts required) sz [0..<stripe_count sz] (replicate required [])) (\<lambda>output.
     if aborted (stripe_count sz) then Inl CodingAborted else Inr (take len (concat output))))))"

subsection \<open>A stripe, byte by byte\<close>

text \<open>What the loops compute at a position: a byte past the end of its input counts as zero.\<close>

definition byte_at :: "bytes \<Rightarrow> nat \<Rightarrow> gf" where
  "byte_at bs pos = (if pos < length bs then to_gf (bs ! pos) else 0)"

lemma combine_input_length [simp]: "length (combine_input c input out) = length out"
  by (simp add: combine_input_def)

lemma combine_input_nth: "pos < length out \<Longrightarrow> combine_input c input out ! pos = out ! pos + c * byte_at input pos"
  by (simp add: combine_input_def byte_at_def)

lemma combine_eq: "combine cs inputs sz = map (\<lambda>pos. of_gf (\<Sum>i<length inputs. cs ! i * byte_at (inputs ! i) pos)) [0..<sz]"
proof -
  have "length (foldl (\<lambda>out i. combine_input (cs ! i) (inputs ! i) out) (replicate sz 0) [0..<n]) = sz \<and>
    (\<forall>pos < sz. foldl (\<lambda>out i. combine_input (cs ! i) (inputs ! i) out) (replicate sz 0) [0..<n] ! pos =
      (\<Sum>i<n. cs ! i * byte_at (inputs ! i) pos))" for n
    by (induction n) (simp_all add: combine_input_nth)
  then show ?thesis unfolding combine_def by (intro nth_equalityI) auto
qed

lemma byte_at_slice: "pos < stop - start \<Longrightarrow> byte_at (blob_slice start stop bs) pos = byte_at bs (start + pos)"
  by (auto simp: byte_at_def blob_slice_def)

lemma map_shift: "map (\<lambda>pos. f (offset + pos)) [0..<n] = map f [offset..<offset + n]"
  by (induction n) simp_all

lemma stripe_bounds: "s * STRIPE_BYTES + min STRIPE_BYTES (sz - s * STRIPE_BYTES) = (if s * STRIPE_BYTES \<le> sz then min (Suc s * STRIPE_BYTES) sz else s * STRIPE_BYTES)"
  by (auto simp: min_def)

text \<open>The stripes laid end to end are the whole part.\<close>

lemma stripes_eq:
  assumes "\<And>s. s < n \<Longrightarrow> \<not> aborted s" "\<And>offset count. offset + count \<le> sz \<Longrightarrow> work offset count = map (\<lambda>i. map (f i) [offset..<offset + count]) [0..<tot]"
    and "(n - 1) * STRIPE_BYTES \<le> sz" "m \<le> n"
  shows "stripes aborted work sz [m..<n] (map (\<lambda>i. map (f i) [0..<min (m * STRIPE_BYTES) sz]) [0..<tot]) =
    Inr (map (\<lambda>i. map (f i) [0..<min (n * STRIPE_BYTES) sz]) [0..<tot])"
  using assms(4)
proof (induction "n - m" arbitrary: m)
  case 0
  then show ?case by simp
next
  case (Suc k)
  then have m: "m < n" by simp
  define offset where "offset = m * STRIPE_BYTES"
  have "offset \<le> (n - 1) * STRIPE_BYTES" unfolding offset_def using m by (intro mult_le_mono) auto
  then have off: "offset \<le> sz" using assms(3) by simp
  define count where "count = min STRIPE_BYTES (sz - offset)"
  have oc: "offset + count = min (Suc m * STRIPE_BYTES) sz" using off unfolding offset_def count_def by (auto simp: min_def)
  have "map2 (@) (map (\<lambda>i. map (f i) [0..<offset]) [0..<tot]) (work offset count) = map (\<lambda>i. map (f i) [0..<offset + count]) [0..<tot]"
    using assms(2)[of offset count] off by (simp add: count_def map2_map_map upt_add_eq_append[of 0 offset])
  then have "stripes aborted work sz [m..<n] (map (\<lambda>i. map (f i) [0..<min offset sz]) [0..<tot]) =
      stripes aborted work sz [Suc m..<n] (map (\<lambda>i. map (f i) [0..<min (Suc m * STRIPE_BYTES) sz]) [0..<tot])"
    using m assms(1)[OF m] off by (simp add: upt_conv_Cons Let_def min_absorb1 oc flip: offset_def count_def)
  then show ?case using Suc.hyps(1)[of "Suc m"] Suc.hyps(2) m unfolding offset_def by simp
qed

lemma stripe_count_ok: "(stripe_count sz - 1) * STRIPE_BYTES \<le> sz" "min (stripe_count sz * STRIPE_BYTES) sz = sz"
proof -
  have "0 < STRIPE_BYTES" by (simp add: STRIPE_BYTES_def)
  from ceil_div_bounds[OF this, of sz]
  show "(stripe_count sz - 1) * STRIPE_BYTES \<le> sz" "min (stripe_count sz * STRIPE_BYTES) sz = sz"
    by (auto simp: stripe_count_def diff_mult_distrib)
qed

lemma striped:
  assumes "\<And>s. \<not> aborted s" "\<And>offset count. offset + count \<le> sz \<Longrightarrow> work offset count = map (\<lambda>i. map (f i) [offset..<offset + count]) [0..<tot]"
  shows "stripes aborted work sz [0..<stripe_count sz] (replicate tot []) = Inr (map (\<lambda>i. map (f i) [0..<sz]) [0..<tot])"
  using stripes_eq[of "stripe_count sz" aborted sz work f tot 0] assms
    stripe_count_ok(1)[of sz, simplified]
  by (simp add: stripe_count_ok map_replicate_const)

subsection \<open>Encoding and decoding\<close>

definition coded :: "matrix \<Rightarrow> bytes \<Rightarrow> nat \<Rightarrow> nat \<Rightarrow> nat \<Rightarrow> nat \<Rightarrow> gf" where
  "coded g blob k sz i pos = (\<Sum>j<k. g ! i ! j * byte_at blob (j * sz + pos))"

lemma encode_stripe_eq:
  assumes "offset + count \<le> sz"
  shows "encode_stripe g blob k tot sz offset count =
    map (\<lambda>i. map (\<lambda>pos. of_gf (coded g blob k sz i pos)) [offset..<offset + count]) [0..<tot]"
proof -
  have m: "min (i * sz + offset + count) (sz + i * sz) = i * sz + offset + count" for i using assms by simp
  have b: "byte_at (blob_slice (i * sz + offset) (min (i * sz + offset + count) (sz + i * sz)) blob) pos = byte_at blob (i * sz + (offset + pos))"
    if "pos < count" for i pos using that unfolding m by (simp add: byte_at_slice add.assoc)
  show ?thesis
    unfolding encode_stripe_def Let_def combine_eq by (simp add: b coded_def flip: map_shift)
qed

lemma encodeParts_eq:
  assumes "generator k tot = Inr g" "int (length blob) \<le> MAX_SAFE_INTEGER" "k \<le> length blob" "\<And>n. \<not> aborted n"
  shows "encodeParts aborted blob k tot =
    Inr (map (\<lambda>i. map (\<lambda>pos. of_gf (coded g blob k (ceil_div (length blob) k) i pos)) [0..<ceil_div (length blob) k]) [0..<tot])"
proof -
  have "stripes aborted (encode_stripe g blob k tot sz) sz [0..<stripe_count sz] (replicate tot []) =
      Inr (map (\<lambda>i. map (\<lambda>pos. of_gf (coded g blob k sz i pos)) [0..<sz]) [0..<tot])" for sz
    by (rule striped[OF assms(4) encode_stripe_eq])
  then show ?thesis using assms by (simp add: encodeParts_def Let_def)
qed

lemma decode_stripe_eq:
  assumes "offset + count \<le> sz" "length parts = k"
  shows "decode_stripe d parts k offset count =
    map (\<lambda>i. map (\<lambda>pos. of_gf (\<Sum>l<k. d ! i ! l * byte_at (snd (parts ! l)) pos)) [offset..<offset + count]) [0..<k]"
proof -
  have "byte_at (blob_slice offset (offset + count) bs) pos = byte_at bs (offset + pos)" if "pos < count" for bs pos
    using that by (simp add: byte_at_slice)
  then show ?thesis
    unfolding decode_stripe_def Let_def combine_eq by (simp add: assms(2) flip: map_shift)
qed

lemma concat_rows: "concat (map (\<lambda>i. map (\<lambda>pos. f (i * sz + pos)) [0..<sz]) [0..<k]) = map f [0..<k * sz]"
proof (induction k)
  case (Suc k)
  have "[0..<Suc k * sz] = [0..<k * sz] @ [k * sz..<k * sz + sz]" using upt_add_eq_append[of 0 "k * sz" sz] by (simp add: add.commute)
  then show ?case using Suc map_shift[of f "k * sz" sz] by simp
qed simp

lemma take_padded: "length blob \<le> n \<Longrightarrow> take (length blob) (map (\<lambda>p. of_gf (byte_at blob p)) [0..<n]) = blob"
  by (rule nth_equalityI) (simp_all add: byte_at_def)

lemma decoded_column:
  assumes "rows_have tot k g" "length rs = k" "\<forall>r\<in>set rs. r < tot" "length (d ! i) = k" "i < k"
    and "\<And>j. j < k \<Longrightarrow> mat_mul d (map (\<lambda>r. g ! r) rs) i j = (if i = j then 1 else 0)"
  shows "(\<Sum>l<k. d ! i ! l * (\<Sum>j<k. g ! (rs ! l) ! j * v j)) = v i"
proof -
  let ?G = "map (\<lambda>r. g ! r) rs"
  have len: "length (?G ! l) = k" if "l < k" for l using that assms(1-3) by (auto simp: rows_have_def)
  have "(\<Sum>l<k. d ! i ! l * (\<Sum>j<k. g ! (rs ! l) ! j * v j)) = dot (d ! i) (\<lambda>l. dot (?G ! l) v)"
    using assms(2,4) len by (simp add: dot_def)
  also have "\<dots> = (\<Sum>j<k. mat_mul d ?G i j * v j)" using mat_mul_vector[of "d ! i" k ?G k v, OF assms(4) len] assms(4) by (simp add: mat_mul_def dot_def)
  also have "\<dots> = v i" using assms(5,6) by (simp add: if_distrib[of "\<lambda>x. x * _"] sum.delta cong: if_cong)
  finally show ?thesis .
qed

lemma recovered:
  assumes "2 \<le> k" "k < tot" "tot \<le> 16" "int (length blob) \<le> MAX_SAFE_INTEGER" "k \<le> length blob" "\<And>n. \<not> aborted n"
    and rs: "distinct rs" "length rs = k" "\<forall>r\<in>set rs. r < tot"
  shows "\<exists>parts. encodeParts aborted blob k tot = Inr parts \<and> length parts = tot \<and>
    (\<forall>p\<in>set parts. length p = ceil_div (length blob) k) \<and>
    decodeParts aborted (map (\<lambda>r. (int r, parts ! r)) rs) k tot (length blob) = Inr blob"
proof -
  define sz where "sz = ceil_div (length blob) k"
  obtain g where g: "generator k tot = Inr g" "rows_have tot k g"
    "\<And>v i. v \<in> null (map (\<lambda>r. g ! r) rs) \<Longrightarrow> i < k \<Longrightarrow> v i = 0"
    using generator_ok[OF assms(1-3)] rs by metis
  define parts where "parts = map (\<lambda>i. map (\<lambda>pos. of_gf (coded g blob k sz i pos)) [0..<sz]) [0..<tot]"
  have enc: "encodeParts aborted blob k tot = Inr parts" unfolding parts_def sz_def by (rule encodeParts_eq[OF g(1) assms(4-6)])
  have sel: "rows_have k k (map (\<lambda>r. g ! r) rs)" using g(2) rs by (auto simp: rows_have_def)
  obtain d where d: "invert (map (\<lambda>r. g ! r) rs) = Inr d" "rows_have k k d"
    "\<And>i j. i < k \<Longrightarrow> j < k \<Longrightarrow> mat_mul d (map (\<lambda>r. g ! r) rs) i j = (if i = j then 1 else 0)"
    using invert_ok[OF sel] g(3) by metis
  let ?ps = "map (\<lambda>r. (int r, parts ! r)) rs"
  have at: "byte_at (snd (?ps ! l)) pos = coded g blob k sz (rs ! l) pos" if "l < k" "pos < sz" for l pos
    using that rs(2,3) by (simp add: parts_def byte_at_def)
  have col: "(\<Sum>l<k. d ! i ! l * byte_at (snd (?ps ! l)) pos) = byte_at blob (i * sz + pos)" if "i < k" "pos < sz" for i pos
    using decoded_column[OF g(2) rs(2,3) _ that(1) d(3)[OF that(1)], of "\<lambda>j. byte_at blob (j * sz + pos)"] d(2) that
    by (simp add: at coded_def rows_have_def)
  have "stripes aborted (decode_stripe d ?ps k) sz [0..<stripe_count sz] (replicate k []) =
      Inr (map (\<lambda>i. map (\<lambda>pos. of_gf (\<Sum>l<k. d ! i ! l * byte_at (snd (?ps ! l)) pos)) [0..<sz]) [0..<k])"
    by (rule striped[OF assms(6) decode_stripe_eq]) (simp_all add: rs(2))
  also have "map (\<lambda>i. map (\<lambda>pos. of_gf (\<Sum>l<k. d ! i ! l * byte_at (snd (?ps ! l)) pos)) [0..<sz]) [0..<k] =
      map (\<lambda>i. map (\<lambda>pos. of_gf (byte_at blob (i * sz + pos))) [0..<sz]) [0..<k]"
    by (intro map_cong refl) (simp only: col set_upt atLeastLessThan_iff)
  finally have loop: "stripes aborted (decode_stripe d ?ps k) sz [0..<stripe_count sz] (replicate k []) =
      Inr (map (\<lambda>i. map (\<lambda>pos. of_gf (byte_at blob (i * sz + pos))) [0..<sz]) [0..<k])" .
  have "length blob \<le> k * sz" using ceil_div_bounds(1)[of k "length blob"] assms(1) by (simp add: sz_def mult.commute)
  then have out: "take (length blob) (concat (map (\<lambda>i. map (\<lambda>pos. of_gf (byte_at blob (i * sz + pos))) [0..<sz]) [0..<k])) = blob"
    unfolding concat_rows[of "\<lambda>p. of_gf (byte_at blob p)"] by (rule take_padded)
  have guard: "int (length blob) \<le> MAX_SAFE_INTEGER \<and> k \<le> length blob \<and> length ?ps = k \<and> card (set (map fst ?ps)) = k \<and>
      list_all (\<lambda>p. 0 \<le> fst p \<and> fst p < int tot \<and> length (snd p) = sz) ?ps"
  proof (intro conjI)
    have "distinct (map fst ?ps)" using rs(1) by (simp add: distinct_map inj_on_def)
    then show "card (set (map fst ?ps)) = k" using rs(2) by (metis distinct_card length_map)
    show "list_all (\<lambda>p. 0 \<le> fst p \<and> fst p < int tot \<and> length (snd p) = sz) ?ps"
      using rs(3) by (auto simp: list_all_iff parts_def)
  qed (use assms rs(2) in simp_all)
  have "map (\<lambda>p. g ! nat (fst p)) ?ps = map (\<lambda>r. g ! r) rs" by simp
  then have "decodeParts aborted ?ps k tot (length blob) = Inr blob"
    unfolding decodeParts_def Let_def using g(1) d(1) guard loop out assms(6) by (simp add: sz_def comp_def)
  then show ?thesis using enc by (auto simp: parts_def sz_def)
qed

text \<open>
  Property C2: a payload of at least \<open>required\<close> bytes, split into \<open>total\<close> parts, comes back from any
  \<open>required\<close> of them, whichever they are and in whichever order they are given: for every legal
  pair of counts both the encoder and the decoder succeed, and the decoder's result is the payload.
\<close>

theorem any_parts_recover:
  assumes "codingBounds (Whole (int required)) (Whole (int tot)) = Inr ()"
    and "required \<le> length blob" "int (length blob) \<le> MAX_SAFE_INTEGER" "\<forall>n. \<not> aborted n"
    and "distinct chosen" "length chosen = required" "\<forall>r\<in>set chosen. r < tot"
  shows "\<exists>parts. encodeParts aborted blob required tot = Inr parts \<and> length parts = tot \<and>
    (\<forall>p\<in>set parts. length p = ceil_div (length blob) required) \<and>
    decodeParts aborted (map (\<lambda>r. (int r, parts ! r)) chosen) required tot (length blob) = Inr blob"
proof (rule recovered)
  show "2 \<le> required" "required < tot" "tot \<le> 16" using assms(1) by (auto simp: codingBounds_def)
qed (use assms in simp_all)

theorem any_parts_recover_witness:
  "\<exists>parts. encodeParts (\<lambda>_. False) [1, 2, 3, 4, 5] 2 4 = Inr parts \<and>
     decodeParts (\<lambda>_. False) [(3, parts ! 3), (2, parts ! 2)] 2 4 5 = Inr [1, 2, 3, 4, 5]"
  using any_parts_recover[of 2 4 "[1, 2, 3, 4, 5]" "\<lambda>_. False" "[3, 2]"]
  by (auto simp: codingBounds_def MAX_SAFE_INTEGER_def numeral_eq_Suc)

lemma stripes_abort: "stripes aborted work sz ss outs = Inr r \<Longrightarrow> stripes (\<lambda>_. False) work sz ss outs = Inr r"
  by (induction ss arbitrary: outs) (auto simp: Let_def split: if_splits)

lemma encode_abort: "encodeParts aborted blob k tot = Inr parts \<Longrightarrow> encodeParts (\<lambda>_. False) blob k tot = Inr parts"
  by (auto simp: encodeParts_def result_split Let_def dest: stripes_abort split: if_splits)

text \<open>
  Property C31: the code is systematic: the first \<open>required\<close> parts are the payload itself, cut into
  equal pieces and filled with zeros to the end of the last.
\<close>

theorem first_parts_are_payload:
  assumes "encodeParts aborted blob required tot = Inr parts"
  shows "concat (take required parts) = blob @ replicate (required * ceil_div (length blob) required - length blob) 0"
proof -
  note enc = encode_abort[OF assms]
  have k: "2 \<le> required" "required < tot" "tot \<le> 16" "int (length blob) \<le> MAX_SAFE_INTEGER" "required \<le> length blob"
    using assms by (auto simp: encodeParts_def generator_def codingBounds_def result_split)
  obtain g where g: "generator required tot = Inr g" "\<And>i j. i < required \<Longrightarrow> j < required \<Longrightarrow> g ! i ! j = (if i = j then 1 else 0)"
    using generator_ok[OF k(1-3)] by metis
  define sz where "sz = ceil_div (length blob) required"
  have c: "coded g blob required sz i pos = byte_at blob (i * sz + pos)" if "i < required" for i pos
    using that by (simp add: coded_def g(2) if_distrib[of "\<lambda>x. x * _"] sum.delta cong: if_cong)
  have "take required parts = map (\<lambda>i. map (\<lambda>pos. of_gf (coded g blob required sz i pos)) [0..<sz]) [0..<required]"
    using enc encodeParts_eq[OF g(1) k(4,5), of "\<lambda>_. False"] k(2) by (auto simp: sz_def take_map)
  also have "\<dots> = map (\<lambda>i. map (\<lambda>pos. of_gf (byte_at blob (i * sz + pos))) [0..<sz]) [0..<required]"
    by (intro map_cong refl) (simp add: c)
  finally have "concat (take required parts) = map (\<lambda>p. of_gf (byte_at blob p)) [0..<required * sz]"
    by (simp add: concat_rows[of "\<lambda>p. of_gf (byte_at blob p)"])
  moreover have "length blob \<le> required * sz" using ceil_div_bounds(1)[of required "length blob"] k(1) by (simp add: sz_def mult.commute)
  moreover have "of_gf 0 = 0" by (simp add: zero_gf_def)
  ultimately show ?thesis unfolding sz_def[symmetric]
    by (intro nth_equalityI) (auto simp: byte_at_def nth_append)
qed

theorem first_parts_are_payload_witness:
  "\<exists>parts. encodeParts (\<lambda>_. False) [1, 2, 3, 4, 5] 2 4 = Inr parts \<and> concat (take 2 parts) = [1, 2, 3, 4, 5, 0]"
proof -
  obtain parts where "encodeParts (\<lambda>_. False) [1, 2, 3, 4, 5] 2 4 = Inr parts"
    using recovered[of 2 4 "[1, 2, 3, 4, 5]" "\<lambda>_. False" "[0, 1]"] by (auto simp: MAX_SAFE_INTEGER_def)
  moreover have "2 * ceil_div (length [1, 2, 3, 4, 5 :: byte]) 2 - length [1, 2, 3, 4, 5 :: byte] = 1" by (simp add: ceil_div_def)
  ultimately show ?thesis using first_parts_are_payload[of "\<lambda>_. False" "[1, 2, 3, 4, 5]" 2 4 parts] by auto
qed

end
