(* ===== verification/Words.thy ===== *)
theory Words
  imports Security "HOL-Library.Code_Target_Nat"
begin

text \<open>
  The words a person types (\<open>src/get/words.ts\<close>): parsing, the edit distance by its table, the
  one suggestion for a mistyped word, and the check before anything is sent. The list of words
  is data of the page and an argument here.
\<close>

definition REQUIRED_WORDS :: nat where "REQUIRED_WORDS = 4"

text \<open>White space, comma, full stop, hyphen and U+2010 to U+2015.\<close>

definition is_word_break :: "code_unit \<Rightarrow> bool" where
  "is_word_break u \<longleftrightarrow> is_space u \<or> u = 0x2C \<or> u = 0x2E \<or> u = 0x2D \<or> (0x2010 \<le> unat u \<and> unat u \<le> 0x2015)"

text \<open>A split at every break: a run of them leaves only empty words, which the filter drops.\<close>

definition parseWords :: "unicode \<Rightarrow> jsstr \<Rightarrow> jsstr list" where
  "parseWords uc input = filter (\<lambda>w. w \<noteq> []) (split_on is_word_break (lower uc input))"

definition isKnownWord :: "jsstr list \<Rightarrow> jsstr \<Rightarrow> bool" where
  "isKnownWord WORDS word \<longleftrightarrow> word \<in> set WORDS"

subsection \<open>The edit distance\<close>

definition set_cell :: "nat list list \<Rightarrow> nat \<Rightarrow> nat \<Rightarrow> nat \<Rightarrow> nat list list" where
  "set_cell t i j v = t[i := (t ! i)[j := v]]"

definition cell_value :: "jsstr \<Rightarrow> jsstr \<Rightarrow> nat list list \<Rightarrow> nat \<Rightarrow> nat \<Rightarrow> nat" where
  "cell_value a b t i j =
     (let cost = (if a ! (i - 1) = b ! (j - 1) then 0 else 1);
          v = min (t ! (i - 1) ! j + 1) (min (t ! i ! (j - 1) + 1) (t ! (i - 1) ! (j - 1) + cost))
      in if i > 1 \<and> j > 1 \<and> a ! (i - 1) = b ! (j - 2) \<and> a ! (i - 2) = b ! (j - 1)
         then min v (t ! (i - 2) ! (j - 2) + 1) else v)"

definition first_table :: "nat \<Rightarrow> nat \<Rightarrow> nat list list" where
  "first_table rows cols =
     foldl (\<lambda>t j. set_cell t 0 j j)
       (foldl (\<lambda>t i. set_cell t i 0 i) (replicate rows (replicate cols 0)) [0..<rows]) [0..<cols]"

definition fill_row :: "jsstr \<Rightarrow> jsstr \<Rightarrow> nat list list \<Rightarrow> nat \<Rightarrow> nat list list" where
  "fill_row a b t i = foldl (\<lambda>t j. set_cell t i j (cell_value a b t i j)) t [1..<length b + 1]"

definition editDistance :: "jsstr \<Rightarrow> jsstr \<Rightarrow> nat" where
  "editDistance a b =
     foldl (fill_row a b) (first_table (length a + 1) (length b + 1)) [1..<length a + 1] ! length a ! length b"

definition suggest_within :: "jsstr list \<Rightarrow> jsstr \<Rightarrow> nat \<Rightarrow> jsstr list" where
  "suggest_within WORDS word limit =
     filter (\<lambda>candidate. \<bar>int (length candidate) - int (length word)\<bar> \<le> int limit \<and> editDistance word candidate \<le> limit) WORDS"

fun suggest_loop :: "jsstr list \<Rightarrow> jsstr \<Rightarrow> nat list \<Rightarrow> jsstr option" where
  "suggest_loop WORDS word [] = None"
| "suggest_loop WORDS word (limit # limits) =
     (let matches = suggest_within WORDS word limit in
      if length matches = 1 then Some (matches ! 0)
      else if length matches > 1 then None else suggest_loop WORDS word limits)"

definition suggestWord :: "jsstr list \<Rightarrow> jsstr \<Rightarrow> jsstr option" where
  "suggestWord WORDS word = (if length word < 2 then None else suggest_loop WORDS word [1, 2])"

datatype words_check =
    WordsOk "jsstr list" jsstr
  | WordsEmpty
  | WordsCount nat
  | WordsUnknown nat jsstr "jsstr option"

definition checkWords :: "unicode \<Rightarrow> jsstr list \<Rightarrow> jsstr \<Rightarrow> words_check" where
  "checkWords uc WORDS input =
     (let words = parseWords uc input in
      if length words = 0 then WordsEmpty
      else if length words \<noteq> REQUIRED_WORDS then WordsCount (length words)
      else case find (\<lambda>i. \<not> isKnownWord WORDS (words ! i)) [0..<length words] of
          Some i \<Rightarrow> WordsUnknown i (words ! i) (suggestWord WORDS (words ! i))
        | None \<Rightarrow> WordsOk words (join (js '' '') words))"

text \<open>\<open>words[index] = replacement\<close> at or past the end extends the array; the holes join as empty words.\<close>

definition applySuggestion :: "unicode \<Rightarrow> jsstr \<Rightarrow> nat \<Rightarrow> jsstr \<Rightarrow> jsstr" where
  "applySuggestion uc input index replacement =
     (let words = parseWords uc input in
      join (js '' '')
        (if index < length words then words[index := replacement]
         else words @ replicate (index - length words) [] @ [replacement]))"

subsection \<open>The table computes the distance\<close>

text \<open>
  The optimal string alignment distance by its recurrence, on reversed strings: delete, insert,
  replace, or swap two neighbours.
\<close>

fun osa :: "'a list \<Rightarrow> 'a list \<Rightarrow> nat" where
  "osa [] ys = length ys"
| "osa xs [] = length xs"
| "osa (x # xs) (y # ys) =
     (let v = min (osa xs (y # ys) + 1) (min (osa (x # xs) ys + 1) (osa xs ys + (if x = y then 0 else 1)))
      in case (xs, ys) of
           (x' # xs', y' # ys') \<Rightarrow> if x = y' \<and> x' = y then min v (osa xs' ys' + 1) else v
         | _ \<Rightarrow> v)"

lemma osa_Nil2 [simp]: "osa xs [] = length xs"
  by (cases xs) simp_all

lemma osa_Cons:
  "osa (x # xs) (y # ys) =
     (let v = min (osa xs (y # ys) + 1) (min (osa (x # xs) ys + 1) (osa xs ys + (if x = y then 0 else 1)))
      in if xs \<noteq> [] \<and> ys \<noteq> [] \<and> x = hd ys \<and> hd xs = y then min v (osa (tl xs) (tl ys) + 1) else v)"
  by (cases xs; cases ys; subst osa.simps(3); simp add: Let_def del: osa.simps)

declare osa.simps(3) [simp del]

definition prefix_distance :: "jsstr \<Rightarrow> jsstr \<Rightarrow> nat \<Rightarrow> nat \<Rightarrow> nat" where
  "prefix_distance a b i j = osa (rev (take i a)) (rev (take j b))"

lemma rev_take: "i < length a \<Longrightarrow> rev (take (Suc i) a) = a ! i # rev (take i a)"
  by (simp add: take_Suc_conv_app_nth)

lemma prefix_distance_step:
  assumes "0 < i" "i \<le> length a" "0 < j" "j \<le> length b"
  shows "prefix_distance a b i j =
     (let cost = (if a ! (i - 1) = b ! (j - 1) then 0 else 1);
          v = min (prefix_distance a b (i - 1) j + 1)
                (min (prefix_distance a b i (j - 1) + 1) (prefix_distance a b (i - 1) (j - 1) + cost))
      in if i > 1 \<and> j > 1 \<and> a ! (i - 1) = b ! (j - 2) \<and> a ! (i - 2) = b ! (j - 1)
         then min v (prefix_distance a b (i - 2) (j - 2) + 1) else v)"
proof -
  define i' j' where "i' = i - 1" and "j' = j - 1"
  have i: "i = Suc i'" "i' < length a" "i - 2 = i' - 1" and j: "j = Suc j'" "j' < length b" "j - 2 = j' - 1"
    using assms by (auto simp: i'_def j'_def)
  define xs ys where "xs = rev (take i' a)" and "ys = rev (take j' b)"
  have r: "rev (take i a) = a ! i' # xs" "rev (take j b) = b ! j' # ys"
    unfolding i(1) j(1) xs_def ys_def by (rule rev_take[OF i(2)], rule rev_take[OF j(2)])
  have tails: "xs \<noteq> [] \<longleftrightarrow> 0 < i'" "ys \<noteq> [] \<longleftrightarrow> 0 < j'"
    "0 < i' \<Longrightarrow> hd xs = a ! (i' - 1) \<and> tl xs = rev (take (i' - 1) a)" "0 < j' \<Longrightarrow> hd ys = b ! (j' - 1) \<and> tl ys = rev (take (j' - 1) b)"
    using i(2) j(2) rev_take[of "i' - 1" a] rev_take[of "j' - 1" b] by (auto simp: xs_def ys_def)
  have sub: "i - 1 = i'" "j - 1 = j'" "i > 1 \<longleftrightarrow> 0 < i'" "j > 1 \<longleftrightarrow> 0 < j'" using i j by auto
  have d: "prefix_distance a b i j = osa (a ! i' # xs) (b ! j' # ys)" "prefix_distance a b i' j = osa xs (b ! j' # ys)"
    "prefix_distance a b i j' = osa (a ! i' # xs) ys" "prefix_distance a b i' j' = osa xs ys"
    unfolding prefix_distance_def r xs_def ys_def by simp_all
  have s: "0 < i' \<Longrightarrow> 0 < j' \<Longrightarrow> prefix_distance a b (i' - 1) (j' - 1) = osa (tl xs) (tl ys)"
    using tails(3,4) by (simp add: prefix_distance_def)
  show ?thesis
    unfolding sub i(3) j(3) d osa_Cons Let_def using tails s by auto
qed

text \<open>A table of the right shape whose cells before \<open>(i, j)\<close>, row by row, and on its first row and column are the distances.\<close>

definition filled :: "jsstr \<Rightarrow> jsstr \<Rightarrow> nat \<Rightarrow> nat \<Rightarrow> nat list list \<Rightarrow> bool" where
  "filled a b i j t \<longleftrightarrow> length t = length a + 1 \<and> (\<forall>r \<le> length a. length (t ! r) = length b + 1) \<and>
     (\<forall>r \<le> length a. \<forall>c \<le> length b. r = 0 \<or> c = 0 \<or> r < i \<or> (r = i \<and> c < j) \<longrightarrow> t ! r ! c = prefix_distance a b r c)"

lemma filledD:
  "filled a b i j t \<Longrightarrow> length t = length a + 1" "filled a b i j t \<Longrightarrow> r \<le> length a \<Longrightarrow> length (t ! r) = length b + 1"
  "filled a b i j t \<Longrightarrow> r \<le> length a \<Longrightarrow> c \<le> length b \<Longrightarrow> r = 0 \<or> c = 0 \<or> r < i \<or> (r = i \<and> c < j) \<Longrightarrow>
    t ! r ! c = prefix_distance a b r c"
  unfolding filled_def by blast+

lemma set_cell_nth: "i < length t \<Longrightarrow> j < length (t ! i) \<Longrightarrow> set_cell t i j v ! r ! c = (if r = i \<and> c = j then v else t ! r ! c)"
  by (auto simp: set_cell_def nth_list_update)

lemma set_cell_shape [simp]: "length (set_cell t i j v) = length t" "length (set_cell t i j v ! r) = length (t ! r)"
  by (simp_all add: set_cell_def nth_list_update) (metis list_update_beyond not_le nth_list_update_eq nth_list_update_neq length_list_update)

lemma filled_cell:
  assumes "filled a b i j t" "0 < i" "i \<le> length a" "0 < j" "j \<le> length b"
  shows "filled a b i (Suc j) (set_cell t i j (cell_value a b t i j))"
proof -
  have "t ! r ! c = prefix_distance a b r c" if "r \<le> i" "c \<le> j" "r < i \<or> c < j" for r c
    by (rule filledD(3)[OF assms(1)]) (use that assms in auto)
  then have "cell_value a b t i j = prefix_distance a b i j"
    unfolding prefix_distance_step[OF assms(2-5)] cell_value_def using assms(2,4) by (simp add: Let_def)
  moreover have c: "i < length t" "j < length (t ! i)" using filledD(1,2)[OF assms(1)] assms(3,5) by auto
  ultimately show ?thesis unfolding filled_def set_cell_shape set_cell_nth[OF c]
    using filledD[OF assms(1)] by (auto simp: less_Suc_eq)
qed

lemma filled_next_row: "filled a b i (length b + 1) t \<Longrightarrow> filled a b (i + 1) 1 t"
proof -
  assume f: "filled a b i (length b + 1) t"
  have "t ! r ! c = prefix_distance a b r c" if "r \<le> length a" "c \<le> length b" "r = 0 \<or> c = 0 \<or> r < i + 1 \<or> (r = i + 1 \<and> c < 1)" for r c
    by (rule filledD(3)[OF f that(1,2)]) (use that in auto)
  then show ?thesis using filledD(1,2)[OF f] unfolding filled_def by blast
qed

lemma filled_row:
  assumes "filled a b i 1 t" "0 < i" "i \<le> length a"
  shows "filled a b (Suc i) 1 (fill_row a b t i)"
proof -
  have "filled a b i (Suc n) (foldl (\<lambda>t j. set_cell t i j (cell_value a b t i j)) t [1..<Suc n])" if "n \<le> length b" for n
    using that
  proof (induction n)
    case (Suc n)
    then show ?case using filled_cell[OF Suc.IH assms(2,3)] by simp
  qed (use assms in simp)
  from this[of "length b"] show ?thesis unfolding fill_row_def by (simp only: filled_next_row order_refl Suc_eq_plus1)
qed

lemma filled_first: "filled a b 1 1 (first_table (length a + 1) (length b + 1))"
proof -
  define t0 where "t0 = replicate (length a + 1) (replicate (length b + 1) (0 :: nat))"
  define t1 where "t1 n = foldl (\<lambda>t i. set_cell t i 0 i) t0 [0..<n]" for n
  define t2 where "t2 n = foldl (\<lambda>t j. set_cell t 0 j j) (t1 (length a + 1)) [0..<n]" for n
  have steps: "t1 (Suc n) = set_cell (t1 n) n 0 n" "t2 (Suc n) = set_cell (t2 n) 0 n n" for n by (simp_all add: t1_def t2_def)
  have one: "length (t1 n) = length a + 1 \<and> (\<forall>r \<le> length a. length (t1 n ! r) = length b + 1) \<and> (\<forall>r<n. t1 n ! r ! 0 = r)"
    if "n \<le> length a + 1" for n
    using that
  proof (induction n)
    case 0
    then show ?case by (simp add: t1_def t0_def nth_replicate del: replicate_Suc)
  next
    case (Suc n)
    then have c: "n < length (t1 n)" "0 < length (t1 n ! n)" by auto
    show ?case unfolding steps using Suc by (auto simp: set_cell_nth[OF c] less_Suc_eq)
  qed
  have "length (t2 n) = length a + 1 \<and> (\<forall>r \<le> length a. length (t2 n ! r) = length b + 1) \<and>
      (\<forall>r \<le> length a. t2 n ! r ! 0 = r) \<and> (\<forall>c<n. t2 n ! 0 ! c = c)" if "n \<le> length b + 1" for n
    using that
  proof (induction n)
    case 0
    then show ?case using one[of "length a + 1"] by (auto simp: t2_def)
  next
    case (Suc n)
    then have c: "0 < length (t2 n)" "n < length (t2 n ! 0)" by auto
    show ?case unfolding steps using Suc by (auto simp: set_cell_nth[OF c] less_Suc_eq)
  qed
  from this[of "length b + 1"] have t2: "length (t2 (length b + 1)) = length a + 1" "\<forall>r \<le> length a. length (t2 (length b + 1) ! r) = length b + 1"
    "\<forall>r \<le> length a. t2 (length b + 1) ! r ! 0 = r" "\<forall>c<length b + 1. t2 (length b + 1) ! 0 ! c = c" by simp_all
  have eq: "first_table (length a + 1) (length b + 1) = t2 (length b + 1)" unfolding first_table_def t2_def t1_def t0_def ..
  have edge: "prefix_distance a b 0 c = min (length b) c" "prefix_distance a b r 0 = min (length a) r" for r c
    by (simp_all add: prefix_distance_def)
  show ?thesis unfolding eq filled_def
  proof (intro conjI allI impI)
    fix r c
    assume "r \<le> length a" "c \<le> length b" "r = 0 \<or> c = 0 \<or> r < 1 \<or> r = 1 \<and> c < 1"
    then show "t2 (length b + 1) ! r ! c = prefix_distance a b r c" using t2(3,4) edge by (cases "r = 0") (auto simp: less_Suc_eq_le)
  qed (use t2 in auto)
qed

lemma editDistance_osa: "editDistance a b = osa (rev a) (rev b)"
proof -
  have "filled a b (Suc n) 1 (foldl (fill_row a b) (first_table (length a + 1) (length b + 1)) [1..<Suc n])" if "n \<le> length a" for n
    using that
  proof (induction n)
    case (Suc n)
    then show ?case using filled_row[OF Suc.IH] by simp
  qed (use filled_first in simp)
  from this[of "length a"] show ?thesis unfolding editDistance_def by (simp add: filled_def prefix_distance_def)
qed

text \<open>
  Property C36: the table computes the optimal string alignment distance of the two words, given by
  its recurrence over their last characters.
\<close>

theorem editDistance_is_osa: "editDistance a b = osa (rev a) (rev b)"
  by (rule editDistance_osa)


subsection \<open>Suggestions\<close>

lemma osa_length: "int (length xs) - int (length ys) \<le> int (osa xs ys) \<and> int (length ys) - int (length xs) \<le> int (osa xs ys)"
proof (induction "length xs + length ys" arbitrary: xs ys rule: less_induct)
  case less
  show ?case
  proof (cases "xs = [] \<or> ys = []")
    case False
    then obtain x xs' y ys' where xy: "xs = x # xs'" "ys = y # ys'" by (meson neq_Nil_conv)
    have b: "int (length xs') - int (length ys) \<le> int (osa xs' ys)" "int (length ys) - int (length xs') \<le> int (osa xs' ys)"
      "int (length xs) - int (length ys') \<le> int (osa xs ys')" "int (length ys') - int (length xs) \<le> int (osa xs ys')"
      "int (length xs') - int (length ys') \<le> int (osa xs' ys')" "int (length ys') - int (length xs') \<le> int (osa xs' ys')"
      "int (length (tl xs')) - int (length (tl ys')) \<le> int (osa (tl xs') (tl ys'))"
      "int (length (tl ys')) - int (length (tl xs')) \<le> int (osa (tl xs') (tl ys'))"
      using less[of xs' ys] less[of xs ys'] less[of xs' ys'] less[of "tl xs'" "tl ys'"] by (auto simp: xy)
    have "length xs' = Suc (length (tl xs'))" if "xs' \<noteq> []" using that by (cases xs') auto
    moreover have "length ys' = Suc (length (tl ys'))" if "ys' \<noteq> []" using that by (cases ys') auto
    ultimately have swap: "int (length xs) - int (length ys) \<le> int (osa (tl xs') (tl ys') + 1) \<and>
        int (length ys) - int (length xs) \<le> int (osa (tl xs') (tl ys') + 1)" if "xs' \<noteq> []" "ys' \<noteq> []"
      using b(7,8) that by (cases xs'; cases ys') (auto simp: xy)
    define P where "P n \<longleftrightarrow> int (length xs) - int (length ys) \<le> int n \<and> int (length ys) - int (length xs) \<le> int n" for n
    have P: "P a \<Longrightarrow> P c \<Longrightarrow> P (min a c)" for a c by (auto simp: P_def min_def)
    define v where "v = min (osa xs' ys + 1) (min (osa xs ys' + 1) (osa xs' ys' + (if x = y then 0 else 1)))"
    have "P (osa xs' ys + 1)" "P (osa xs ys' + 1)" "P (osa xs' ys' + (if x = y then 0 else 1))"
      using b by (auto simp: P_def xy)
    then have v: "P v" unfolding v_def by (intro P)
    have eq: "osa xs ys = (if xs' \<noteq> [] \<and> ys' \<noteq> [] \<and> x = hd ys' \<and> hd xs' = y then min v (osa (tl xs') (tl ys') + 1) else v)"
      using osa_Cons[of x xs' y ys', folded xy] unfolding Let_def v_def .
    show ?thesis
    proof (cases "xs' \<noteq> [] \<and> ys' \<noteq> [] \<and> x = hd ys' \<and> hd xs' = y")
      case True
      then have "P (osa (tl xs') (tl ys') + 1)" using swap by (simp add: P_def)
      then show ?thesis using P[OF v] True unfolding eq P_def by simp
    next
      case False
      then show ?thesis using v unfolding eq P_def by (simp only: if_False)
    qed
  qed auto
qed

lemma suggest_within_eq: "suggest_within WORDS word k = filter (\<lambda>c. osa (rev word) (rev c) \<le> k) WORDS"
  unfolding suggest_within_def editDistance_osa
proof (rule filter_cong[OF refl])
  fix c
  show "(\<bar>int (length c) - int (length word)\<bar> \<le> int k \<and> osa (rev word) (rev c) \<le> k) = (osa (rev word) (rev c) \<le> k)"
    using osa_length[of "rev word" "rev c"] by auto
qed

lemma suggestWord_iff:
  "suggestWord WORDS word = Some s \<longleftrightarrow> 2 \<le> length word \<and>
     (let near = (\<lambda>k. filter (\<lambda>c. osa (rev word) (rev c) \<le> k) WORDS)
      in near 1 = [s] \<or> near 1 = [] \<and> near 2 = [s])"
proof -
  have pick: "(if length a = 1 then Some (a ! 0) else if length a > 1 then None
      else if length b = 1 then Some (b ! 0) else if length b > 1 then None else None) = Some s \<longleftrightarrow> a = [s] \<or> a = [] \<and> b = [s]"
    for a b :: "jsstr list"
    by (cases a; cases b) auto
  show ?thesis
  proof (cases "length word < 2")
    case False
    then have "suggestWord WORDS word = Some s \<longleftrightarrow> suggest_within WORDS word 1 = [s] \<or>
        suggest_within WORDS word 1 = [] \<and> suggest_within WORDS word 2 = [s]"
      using pick[of "suggest_within WORDS word 1" "suggest_within WORDS word 2"] by (simp only: suggestWord_def suggest_loop.simps Let_def if_False)
    then show ?thesis using False unfolding suggest_within_eq Let_def by simp
  qed (simp add: suggestWord_def)
qed

text \<open>
  Property C37: a suggestion is made exactly when one word of the list is within one edit of the
  typed word and no other is, or none is within one edit and exactly one within two; the typed word
  has at least two characters.
\<close>

theorem suggestWord_nearest:
  "suggestWord WORDS word = Some s \<longleftrightarrow> 2 \<le> length word \<and>
     (let near = (\<lambda>k. filter (\<lambda>c. osa (rev word) (rev c) \<le> k) WORDS)
      in near 1 = [s] \<or> near 1 = [] \<and> near 2 = [s])"
  by (rule suggestWord_iff)

text \<open>
  What the check relies on in \<open>toLowerCase\<close>: it is idempotent, a part of lower-case text is
  lower-case, and words separated by a space are lowered each on its own.
\<close>

definition lower_word_laws :: "(jsstr \<Rightarrow> jsstr) \<Rightarrow> bool" where
  "lower_word_laws f \<longleftrightarrow> (\<forall>s. f (f s) = f s) \<and> (\<forall>a b c. f (a @ b @ c) = a @ b @ c \<longrightarrow> f b = b) \<and>
     (\<forall>a b. f (a @ 0x20 # b) = f a @ 0x20 # f b)"

definition plain_word :: "unicode \<Rightarrow> jsstr \<Rightarrow> bool" where
  "plain_word uc w \<longleftrightarrow> w \<noteq> [] \<and> (\<forall>u \<in> set w. \<not> is_word_break u) \<and> lower uc w = w"

lemma split_part: "w \<in> set (split_on P s) \<Longrightarrow> \<exists>a c. s = a @ w @ c"
proof (induction s arbitrary: w)
  case (Cons u s)
  obtain v vs where v: "split_on P s = v # vs" by (cases "split_on P s") auto
  show ?case
  proof (cases "P u")
    case True
    then show ?thesis using Cons.prems Cons.IH by (auto, metis append_Cons append_Nil, metis append_Cons)
  next
    case False
    then consider "w = u # v" | "w \<in> set vs" using Cons.prems v by auto
    then show ?thesis
    proof cases
      case 1
      have "\<exists>c. s = v @ c" using v
      proof (induction s arbitrary: v vs)
        case (Cons x s)
        then show ?case by (auto split: if_splits list.splits)
      qed auto
      then show ?thesis using 1 by (metis append_Cons append_Nil)
    next
      case 2
      then show ?thesis using Cons.IH[of w] v by (metis append_Cons list.set_intros(2))
    qed
  qed
qed simp

lemma parsed_plain:
  assumes "lower_word_laws (lower uc)" "w \<in> set (parseWords uc input)"
  shows "plain_word uc w"
proof -
  have w: "w \<in> set (split_on is_word_break (lower uc input))" "w \<noteq> []" using assms(2) by (auto simp: parseWords_def)
  obtain a c where "lower uc input = a @ w @ c" using split_part[OF w(1)] by blast
  then have "lower uc (a @ w @ c) = a @ w @ c" using assms(1) unfolding lower_word_laws_def by metis
  then have "lower uc w = w" using assms(1) unfolding lower_word_laws_def by blast
  then show ?thesis using w split_on_sound unfolding plain_word_def by blast
qed

lemma split_on_word: "(\<forall>u \<in> set w. \<not> P u) \<Longrightarrow> P s \<Longrightarrow> split_on P (w @ s # r) = w # split_on P r"
  by (induction w) auto

lemma space_break: "is_word_break 0x20"
  by (simp add: is_word_break_def is_space_def)

lemma join_plain:
  assumes "lower_word_laws (lower uc)" "\<forall>w \<in> set ws. plain_word uc w" "ws \<noteq> []"
  shows "lower uc (join (js '' '') ws) = join (js '' '') ws \<and> split_on is_word_break (join (js '' '') ws) = ws"
  using assms(2,3)
proof (induction ws rule: induct_list012)
  case (2 w)
  then show ?case by (auto simp: plain_word_def intro!: split_on_none)
next
  case (3 w v ws)
  have sp: "js '' '' = [0x20]" by (simp add: js_def)
  have l: "lower uc (a @ 0x20 # b) = lower uc a @ 0x20 # lower uc b" for a b using assms(1) by (simp add: lower_word_laws_def)
  show ?case using 3 by (simp add: sp l split_on_word space_break plain_word_def)
qed simp

lemma parse_join:
  assumes "lower_word_laws (lower uc)" "\<forall>w \<in> set ws. plain_word uc w" "ws \<noteq> []"
  shows "parseWords uc (join (js '' '') ws) = ws"
  using join_plain[OF assms] assms(2) by (simp add: parseWords_def plain_word_def filter_id_conv)

lemma check_eq:
  "length (parseWords uc input) = 4 \<Longrightarrow> checkWords uc WORDS input = (let words = parseWords uc input in
     case find (\<lambda>i. words ! i \<notin> set WORDS) [0..<4] of
       Some i \<Rightarrow> WordsUnknown i (words ! i) (suggestWord WORDS (words ! i)) | None \<Rightarrow> WordsOk words (join (js '' '') words))"
  by (cases "parseWords uc input = []") (simp_all add: checkWords_def REQUIRED_WORDS_def isKnownWord_def Let_def)

text \<open>
  Property C38: taking a suggestion always makes progress. When the check stops at word \<open>i\<close> with a
  suggestion, the text with that suggestion put in either passes the check, with a secret of four
  words of the list that differs from what was typed only there, or stops at a later word.
\<close>

theorem suggestion_makes_progress:
  assumes "lower_word_laws (lower uc)" "\<forall>w \<in> set WORDS. plain_word uc w"
    and "checkWords uc WORDS input = WordsUnknown i w (Some s)"
  shows "(\<exists>ws. checkWords uc WORDS (applySuggestion uc input i s) = WordsOk ws (join (js '' '') ws) \<and>
        ws = (parseWords uc input)[i := s] \<and> length ws = 4 \<and> set ws \<subseteq> set WORDS) \<or>
     (\<exists>j v t. checkWords uc WORDS (applySuggestion uc input i s) = WordsUnknown j v t \<and> i < j)"
proof -
  define ws where "ws = parseWords uc input"
  have len: "length ws = 4" using assms(3) by (auto simp: ws_def checkWords_def REQUIRED_WORDS_def Let_def split: if_splits option.splits)
  have f: "find (\<lambda>i. ws ! i \<notin> set WORDS) [0..<4] = Some i" "suggestWord WORDS w = Some s"
    using assms(3) check_eq[of uc input WORDS, folded ws_def, OF len] by (auto simp: Let_def split: option.splits)
  from f(1) have i: "i < 4" "\<And>j. j < i \<Longrightarrow> ws ! j \<in> set WORDS" by (auto simp: find_Some_iff)
  have s: "s \<in> set WORDS" using f(2) unfolding suggestWord_iff Let_def by (auto dest!: arg_cong[of _ _ set])
  have "\<forall>v \<in> set ws. plain_word uc v" using parsed_plain[OF assms(1)] by (simp add: ws_def)
  then have "\<forall>v \<in> set (ws[i := s]). plain_word uc v" using s assms(2) set_update_subset_insert[of ws i s] by blast
  then have p: "parseWords uc (applySuggestion uc input i s) = ws[i := s]"
    using parse_join[OF assms(1), of "ws[i := s]"] len i(1) by (force simp: applySuggestion_def ws_def[symmetric] Let_def)
  then have c: "checkWords uc WORDS (applySuggestion uc input i s) =
      (case find (\<lambda>j. ws[i := s] ! j \<notin> set WORDS) [0..<4] of
        Some j \<Rightarrow> WordsUnknown j (ws[i := s] ! j) (suggestWord WORDS (ws[i := s] ! j)) | None \<Rightarrow> WordsOk (ws[i := s]) (join (js '' '') (ws[i := s])))"
    using check_eq[of uc "applySuggestion uc input i s" WORDS] len by (simp add: Let_def)
  show ?thesis
  proof (cases "find (\<lambda>j. ws[i := s] ! j \<notin> set WORDS) [0..<4]")
    case None
    then have "set (ws[i := s]) \<subseteq> set WORDS" using len by (auto simp: find_None_iff in_set_conv_nth)
    then show ?thesis using c None len by (simp add: ws_def)
  next
    case (Some j)
    then have "j < 4" "ws[i := s] ! j \<notin> set WORDS" by (auto simp: find_Some_iff)
    then have "i < j" using i(2)[of j] s len by (cases j i rule: linorder_cases) (auto simp: nth_list_update)
    then show ?thesis using c Some by simp
  qed
qed

definition ascii_lower :: "code_unit \<Rightarrow> code_unit" where
  "ascii_lower u = (if 0x41 \<le> unat u \<and> unat u \<le> 0x5A then u + 0x20 else u)"

abbreviation ascii_tables :: unicode where "ascii_tables \<equiv> \<lparr>nfc = (\<lambda>s. s), lower = map ascii_lower\<rparr>"

lemma ascii_lower_idem: "ascii_lower (ascii_lower u) = ascii_lower u"
proof -
  have "unat (u + 0x20) = unat u + 0x20" if "unat u \<le> 0x5A" using that by (subst unat_add_lem[THEN iffD1]) auto
  then show ?thesis by (auto simp: ascii_lower_def)
qed

lemma ascii_word_laws: "lower_word_laws (lower ascii_tables)"
  unfolding lower_word_laws_def by (auto simp: ascii_lower_idem comp_def) (auto simp: ascii_lower_def)

theorem suggestion_makes_progress_witness:
  "\<exists>ws. checkWords ascii_tables [js ''ab'', js ''cd''] (applySuggestion ascii_tables (js ''Ab, ax cd-cd'') 1 (js ''ab'')) =
     WordsOk ws (join (js '' '') ws) \<and> set ws \<subseteq> {js ''ab'', js ''cd''}"
proof -
  let ?W = "[js ''ab'', js ''cd'']" and ?in = "js ''Ab, ax cd-cd''"
  have c: "checkWords ascii_tables ?W ?in = WordsUnknown 1 (js ''ax'') (Some (js ''ab''))" by code_simp
  have "\<forall>w \<in> set ?W. plain_word ascii_tables w" by code_simp
  from suggestion_makes_progress[OF ascii_word_laws this c]
  show ?thesis
  proof (elim disjE exE conjE)
    fix j v t assume "checkWords ascii_tables ?W (applySuggestion ascii_tables ?in 1 (js ''ab'')) = WordsUnknown j v t"
    moreover have "checkWords ascii_tables ?W (applySuggestion ascii_tables ?in 1 (js ''ab'')) =
        WordsOk [js ''ab'', js ''ab'', js ''cd'', js ''cd''] (js ''ab ab cd cd'')" by code_simp
    ultimately show ?thesis by simp
  qed auto
qed

end
