(* ===== verification/Peer.thy ===== *)
theory Peer
  imports Messages
begin

text \<open>
  The peer connection of a direct send (\<open>src/direct/peer.ts\<close>): the configuration it is built
  from, the second try some browsers need, the connection state, the selected candidate pair and
  the connection object's own flags and listeners. The browser's constructor and its statistics
  are arguments.
\<close>

datatype peer_state = PNew | PConnecting | PConnected | PDisconnected | PFailed | PClosed

definition relay_url :: "jsstr \<Rightarrow> bool" where
  "relay_url u \<longleftrightarrow> startsWith u (js ''turn:'') \<or> startsWith u (js ''turns:'')"

record rtc_server =
  rs_urls :: "jsstr list"
  rs_login :: "(jsstr \<times> jsstr) option"

record rtc_configuration =
  rc_iceServers :: "rtc_server list"
  rc_relayOnly :: bool

datatype peer_error = NoRelayError | ConstructorThrew bool

definition kept_urls :: "bool \<Rightarrow> ice_server \<Rightarrow> jsstr list" where
  "kept_urls hide server = (if hide then filter relay_url (urls server) else urls server)"

definition server_login :: "ice_server \<Rightarrow> (jsstr \<times> jsstr) option" where
  "server_login server = (if user server = [] then None else Some (user server, credential server))"

fun rtc_servers :: "bool \<Rightarrow> ice_server list \<Rightarrow> rtc_server list" where
  "rtc_servers hide [] = []"
| "rtc_servers hide (server # servers) =
     (if kept_urls hide server = [] then rtc_servers hide servers
      else \<lparr>rs_urls = kept_urls hide server, rs_login = server_login server\<rparr> # rtc_servers hide servers)"

definition buildRtcConfiguration :: "ice_server list \<Rightarrow> bool \<Rightarrow> peer_error + rtc_configuration" where
  "buildRtcConfiguration servers hide =
     (let iceServers = rtc_servers hide servers in
      if hide \<and> iceServers = [] then Inl NoRelayError
      else Inr \<lparr>rc_iceServers = iceServers, rc_relayOnly = hide\<rparr>)"

text \<open>\<open>/\?transport=tcp$/iu\<close>: with both flags a letter also matches the other characters that fold to it (here U+017F and U+212A cannot, the letters s and k apart).\<close>

definition fold_unit :: "code_unit \<Rightarrow> code_unit" where
  "fold_unit u = (if 0x41 \<le> unat u \<and> unat u \<le> 0x5A then u + 0x20 else if u = 0x017F then 0x73 else u)"

definition TCP_SPELLING :: "jsstr \<Rightarrow> bool" where
  "TCP_SPELLING u \<longleftrightarrow> endsWith (map fold_unit u) (js ''?transport=tcp'')"

text \<open>
  The browser's constructor: it makes a connection with a configuration (\<open>None\<close>), or throws, a
  \<open>SyntaxError\<close> or something else. What is returned is the configuration of the connection made.
\<close>

definition openConnection ::
  "(rtc_configuration \<Rightarrow> bool option) \<Rightarrow> ice_server list \<Rightarrow> bool \<Rightarrow> peer_error + rtc_configuration" where
  "openConnection construct servers hide =
     bindR (buildRtcConfiguration servers hide) (\<lambda>configuration.
       (case construct configuration of
          None \<Rightarrow> Inr configuration
        | Some syntax \<Rightarrow>
            if \<not> syntax then Inl (ConstructorThrew False)
            else
              let trimmed = map (\<lambda>server. server\<lparr>urls := filter (\<lambda>u. \<not> TCP_SPELLING u) (urls server)\<rparr>) servers in
              bindR (buildRtcConfiguration trimmed hide) (\<lambda>configuration'.
                (case construct configuration' of
                   None \<Rightarrow> Inr configuration'
                 | Some syntax' \<Rightarrow> Inl (ConstructorThrew syntax')))))"

text \<open>The connection state, or what an old browser's ICE state says of it.\<close>

datatype ice_state = INew | IChecking | IConnected | ICompleted | IDisconnected | IFailed | IClosed

fun stateOf :: "peer_state option \<Rightarrow> ice_state \<Rightarrow> peer_state" where
  "stateOf (Some s) _ = s"
| "stateOf None IConnected = PConnected"
| "stateOf None ICompleted = PConnected"
| "stateOf None IDisconnected = PDisconnected"
| "stateOf None IFailed = PFailed"
| "stateOf None IClosed = PClosed"
| "stateOf None IChecking = PConnecting"
| "stateOf None INew = PNew"

subsection \<open>The selected pair\<close>

text \<open>A report of \<open>getStats()\<close>, with the members the code reads; each may be missing.\<close>

record stats_report =
  sr_id :: jsstr
  sr_type :: jsstr
  sr_selectedPair :: "jsstr option"
  sr_selected :: bool
  sr_nominated :: bool
  sr_succeeded :: bool
  sr_local :: "jsstr option"
  sr_remote :: "jsstr option"
  sr_kind :: "jsstr option"

text \<open>A \<open>Map\<close> filled in order: a later report of the same id replaces the value and keeps the place.\<close>

fun put_report :: "stats_report \<Rightarrow> stats_report list \<Rightarrow> stats_report list" where
  "put_report r [] = [r]"
| "put_report r (x # xs) = (if sr_id x = sr_id r then r # xs else x # put_report r xs)"

definition get_report :: "jsstr \<Rightarrow> stats_report list \<Rightarrow> stats_report option" where
  "get_report k rs = find (\<lambda>r. sr_id r = k) rs"

definition named_pair :: "stats_report list \<Rightarrow> stats_report option" where
  "named_pair reports =
     foldl (\<lambda>pair r. case sr_selectedPair r of
         Some k \<Rightarrow> if sr_type r = js ''transport'' then get_report k reports else pair
       | None \<Rightarrow> pair) None reports"

definition candidate_kind :: "stats_report list \<Rightarrow> jsstr option \<Rightarrow> jsstr" where
  "candidate_kind reports k =
     (case get_report (case k of Some i \<Rightarrow> i | None \<Rightarrow> js ''undefined'') reports of
        Some r \<Rightarrow> (case sr_kind r of Some c \<Rightarrow> c | None \<Rightarrow> js ''unknown'')
      | None \<Rightarrow> js ''unknown'')"

definition selectedPath :: "stats_report list \<Rightarrow> (jsstr \<times> jsstr) option" where
  "selectedPath stats =
     (let reports = foldl (\<lambda>m r. put_report r m) [] stats;
          pair = (case named_pair reports of
                    Some p \<Rightarrow> Some p
                  | None \<Rightarrow> find (\<lambda>r. sr_type r = js ''candidate-pair'' \<and> (sr_selected r \<or> (sr_nominated r \<and> sr_succeeded r))) reports)
      in map_option (\<lambda>p. (candidate_kind reports (sr_local p), candidate_kind reports (sr_remote p))) pair)"

definition isRelayed :: "(jsstr \<times> jsstr) option \<Rightarrow> bool option" where
  "isRelayed path = map_option (\<lambda>(l, r). l = js ''relay'' \<or> r = js ''relay'') path"

subsection \<open>The connection object\<close>

text \<open>
  The listeners are a set of functions in the order they were added, here by number, and \<open>dp_heard\<close> is
  every call of a listener, in order, with what it was told. What a listener does in turn is an event of its own.
\<close>

record direct_peer =
  dp_closed :: bool
  dp_violated :: bool
  dp_connection :: peer_state
  dp_gathering :: bool
  dp_listeners :: "nat list"
  dp_heard :: "(nat \<times> peer_state \<times> bool) list"
  dp_closes :: nat

definition peer_current :: "direct_peer \<Rightarrow> peer_state" where
  "peer_current p = (if dp_closed p then PClosed else dp_connection p)"

definition peer_emit :: "direct_peer \<Rightarrow> direct_peer" where
  "peer_emit p = p\<lparr>dp_heard := dp_heard p @ map (\<lambda>l. (l, peer_current p, dp_violated p)) (dp_listeners p)\<rparr>"

definition peer_onState :: "nat \<Rightarrow> direct_peer \<Rightarrow> direct_peer" where
  "peer_onState l p = (if l \<in> set (dp_listeners p) then p else p\<lparr>dp_listeners := dp_listeners p @ [l]\<rparr>)"

definition peer_unlisten :: "nat \<Rightarrow> direct_peer \<Rightarrow> direct_peer" where
  "peer_unlisten l p = p\<lparr>dp_listeners := filter (\<lambda>m. m \<noteq> l) (dp_listeners p)\<rparr>"

definition peer_close :: "direct_peer \<Rightarrow> direct_peer" where
  "peer_close p =
     (if dp_closed p then p
      else peer_emit (p\<lparr>dp_closed := True, dp_gathering := False, dp_closes := dp_closes p + 1\<rparr>))"

definition peer_violation :: "direct_peer \<Rightarrow> direct_peer" where
  "peer_violation p = peer_close (p\<lparr>dp_violated := True\<rparr>)"

datatype peer_event = PeerDataChannel | PeerTrack | PeerStateChange peer_state | PeerClose | PeerListen nat | PeerUnlisten nat

fun peer_step :: "direct_peer \<Rightarrow> peer_event \<Rightarrow> direct_peer" where
  "peer_step p PeerDataChannel = peer_violation p"
| "peer_step p PeerTrack = peer_violation p"
| "peer_step p (PeerStateChange s) = peer_emit (p\<lparr>dp_connection := s\<rparr>)"
| "peer_step p PeerClose = peer_close p"
| "peer_step p (PeerListen l) = peer_onState l p"
| "peer_step p (PeerUnlisten l) = peer_unlisten l p"

definition peer_start :: direct_peer where
  "peer_start = \<lparr>dp_closed = False, dp_violated = False, dp_connection = PNew, dp_gathering = False, dp_listeners = [], dp_heard = [], dp_closes = 0\<rparr>"

definition peer_run :: "peer_event list \<Rightarrow> direct_peer" where
  "peer_run es = foldl peer_step peer_start es"

subsection \<open>Hiding\<close>

lemma rtc_servers_sound:
  "s \<in> set (rtc_servers hide servers) \<Longrightarrow> rs_urls s \<noteq> [] \<and>
     (\<exists>server \<in> set servers. rs_urls s = kept_urls hide server \<and> rs_login s = server_login server)"
  by (induction servers) (auto split: if_splits)

lemma configuration_sound:
  assumes "buildRtcConfiguration servers hide = Inr c" "s \<in> set (rc_iceServers c)"
  shows "rs_urls s \<noteq> []" "hide \<Longrightarrow> \<forall>u \<in> set (rs_urls s). relay_url u"
    "\<exists>server \<in> set servers. set (rs_urls s) \<subseteq> set (urls server) \<and> (rs_login s \<noteq> None \<longrightarrow> rs_login s = Some (user server, credential server))"
proof -
  have "s \<in> set (rtc_servers hide servers)" using assms by (auto simp: buildRtcConfiguration_def Let_def split: if_splits)
  from rtc_servers_sound[OF this] obtain server where v: "rs_urls s \<noteq> []" "server \<in> set servers"
    "rs_urls s = kept_urls hide server" "rs_login s = server_login server" by blast
  show "rs_urls s \<noteq> []" by (fact v(1))
  show "\<forall>u \<in> set (rs_urls s). relay_url u" if hide using v(3) that by (simp add: kept_urls_def)
  show "\<exists>server \<in> set servers. set (rs_urls s) \<subseteq> set (urls server) \<and> (rs_login s \<noteq> None \<longrightarrow> rs_login s = Some (user server, credential server))"
    by (rule bexI[OF _ v(2)]) (simp add: v(3,4) kept_urls_def server_login_def)
qed

lemma configuration_policy: "buildRtcConfiguration servers hide = Inr c \<Longrightarrow> rc_relayOnly c = hide \<and> (hide \<longrightarrow> rc_iceServers c \<noteq> [])"
  by (auto simp: buildRtcConfiguration_def Let_def split: if_splits)

lemma opened_from:
  assumes "openConnection construct servers hide = Inr c"
  obtains servers' where "buildRtcConfiguration servers' hide = Inr c" "construct c = None"
    "list_all2 (\<lambda>a b. set (urls a) \<subseteq> set (urls b) \<and> user a = user b \<and> credential a = credential b) servers' servers"
proof -
  define trim where "trim = map (\<lambda>server :: ice_server. server\<lparr>urls := filter (\<lambda>u. \<not> TCP_SPELLING u) (urls server)\<rparr>)"
  let ?sub = "list_all2 (\<lambda>a b. set (urls a) \<subseteq> set (urls b) \<and> user a = user b \<and> credential a = credential b)"
  have sub: "?sub servers servers" "?sub (trim servers) servers" by (auto simp: trim_def list_all2_conv_all_nth)
  obtain c0 where c0: "buildRtcConfiguration servers hide = Inr c0"
    using assms by (auto simp: openConnection_def result_split)
  show thesis
  proof (cases "construct c0")
    case None
    then have "c = c0" using assms c0 by (simp add: openConnection_def)
    then show ?thesis using that c0 None sub(1) by blast
  next
    case (Some syn)
    then have "bindR (buildRtcConfiguration (trim servers) hide)
        (\<lambda>c'. case construct c' of None \<Rightarrow> Inr c' | Some syntax' \<Rightarrow> Inl (ConstructorThrew syntax')) = Inr c"
      using assms c0 by (simp add: openConnection_def Let_def trim_def split: if_splits)
    then have "buildRtcConfiguration (trim servers) hide = Inr c" "construct c = None"
      by (auto simp: result_split split: option.splits)
    then show ?thesis using that sub(2) by blast
  qed
qed

text \<open>
  Property C34: whatever the browser's constructor refuses, a connection is made only from URLs of
  the invitation; when hiding is asked for every URL is a relay's, there is at least one and the
  policy is relay-only; and a user name and credential go only where the invitation puts them.
\<close>

theorem hidden_is_relay_only:
  assumes "openConnection construct servers hide = Inr c"
  shows "rc_relayOnly c = hide \<and> (hide \<longrightarrow> rc_iceServers c \<noteq> []) \<and>
    (\<forall>s \<in> set (rc_iceServers c). rs_urls s \<noteq> [] \<and> (hide \<longrightarrow> list_all relay_url (rs_urls s)) \<and>
      (\<exists>server \<in> set servers. set (rs_urls s) \<subseteq> set (urls server) \<and>
        (rs_login s \<noteq> None \<longrightarrow> rs_login s = Some (user server, credential server))))"
proof -
  obtain servers' where b: "buildRtcConfiguration servers' hide = Inr c"
    and sub: "list_all2 (\<lambda>a b. set (urls a) \<subseteq> set (urls b) \<and> user a = user b \<and> credential a = credential b) servers' servers"
    using opened_from[OF assms] by blast
  have "\<exists>server \<in> set servers. set (rs_urls s) \<subseteq> set (urls server) \<and>
      (rs_login s \<noteq> None \<longrightarrow> rs_login s = Some (user server, credential server))" if at: "s \<in> set (rc_iceServers c)" for s
  proof -
    obtain a where a: "a \<in> set servers'" "set (rs_urls s) \<subseteq> set (urls a)" "rs_login s \<noteq> None \<longrightarrow> rs_login s = Some (user a, credential a)"
      using configuration_sound(3)[OF b at] by blast
    obtain d where "d \<in> set servers" "set (urls a) \<subseteq> set (urls d)" "user a = user d" "credential a = credential d"
      using sub a(1) unfolding list_all2_conv_all_nth by (metis in_set_conv_nth)
    then show ?thesis using a by (metis subset_trans)
  qed
  moreover have "rs_urls s \<noteq> [] \<and> (hide \<longrightarrow> list_all relay_url (rs_urls s))" if "s \<in> set (rc_iceServers c)" for s
    using configuration_sound(1,2)[OF b that] by (simp add: list_all_iff)
  ultimately show ?thesis using configuration_policy[OF b] by blast
qed

theorem hidden_is_relay_only_witness:
  "\<exists>c. openConnection (\<lambda>_. None) [\<lparr>credential = js ''c'', urls = [js ''turn:a'', js ''stun:b''], user = js ''u''\<rparr>] True = Inr c \<and>
     rc_relayOnly c \<and> rc_iceServers c \<noteq> []"
proof -
  let ?s = "[\<lparr>credential = js ''c'', urls = [js ''turn:a'', js ''stun:b''], user = js ''u''\<rparr>]"
  obtain c where c: "openConnection (\<lambda>_. None) ?s True = Inr c"
    by (simp add: openConnection_def buildRtcConfiguration_def kept_urls_def relay_url_def startsWith_def js_def Let_def)
  then show ?thesis using hidden_is_relay_only[OF c] by auto
qed

lemma peer_run_snoc: "peer_run (es @ [e]) = peer_step (peer_run es) e"
  by (simp add: peer_run_def)

lemmas peer_defs = peer_emit_def peer_close_def peer_violation_def peer_current_def peer_onState_def peer_unlisten_def

lemma peer_run_append: "peer_run (a @ b) = foldl peer_step (peer_run a) b"
  by (simp add: peer_run_def)

lemma peer_after_violation:
  assumes "dp_closed p" "dp_violated p"
  shows "dp_closed (foldl peer_step p es) \<and> dp_violated (foldl peer_step p es) \<and>
    (\<exists>hs. dp_heard (foldl peer_step p es) = dp_heard p @ hs \<and> (\<forall>x \<in> set hs. snd x = (PClosed, True)))"
  using assms
proof (induction es rule: rev_induct)
  case (snoc e es)
  then show ?case by (cases e) (auto simp: peer_defs)
qed simp

lemma peer_violates:
  assumes "e = PeerDataChannel \<or> e = PeerTrack"
  shows "dp_closed (peer_step p e) \<and> dp_violated (peer_step p e) \<and>
    dp_heard (peer_step p e) = dp_heard p @ (if dp_closed p then [] else map (\<lambda>l. (l, PClosed, True)) (dp_listeners p))"
  using assms by (auto simp: peer_defs)

text \<open>
  Property C35: whatever happens to the connection, it is closed at most once. When the other end
  opens a channel or a track the protocol forbids, a connection still open is closed there and then
  and every listener it has is told, each once, that it is closed by a violation; it stays closed,
  and whatever any listener is told from then on says the same.
\<close>

theorem forbidden_channel_closes:
  "dp_closes (peer_run es) \<le> 1 \<and> (dp_closed (peer_run es) \<longleftrightarrow> dp_closes (peer_run es) = 1) \<and>
   (\<forall>a e b. es = a @ e # b \<and> (e = PeerDataChannel \<or> e = PeerTrack) \<longrightarrow>
     dp_closed (peer_run es) \<and> dp_violated (peer_run es) \<and>
     (\<exists>later. dp_heard (peer_run es) = dp_heard (peer_run a) @
         (if dp_closed (peer_run a) then [] else map (\<lambda>l. (l, PClosed, True)) (dp_listeners (peer_run a))) @ later \<and>
       (\<forall>x \<in> set later. snd x = (PClosed, True))))"
proof (intro conjI allI impI)
  have "dp_closes (peer_run es) \<le> 1 \<and> (dp_closed (peer_run es) \<longleftrightarrow> dp_closes (peer_run es) = 1)"
  proof (induction es rule: rev_induct)
    case (snoc e es)
    then show ?case by (cases e) (auto simp: peer_run_snoc peer_defs)
  qed (simp add: peer_run_def peer_start_def)
  then show "dp_closes (peer_run es) \<le> 1" "dp_closed (peer_run es) \<longleftrightarrow> dp_closes (peer_run es) = 1" by blast+
next
  fix a e b
  assume ab: "es = a @ e # b \<and> (e = PeerDataChannel \<or> e = PeerTrack)"
  note v = peer_violates[of e "peer_run a"]
  have "peer_run es = foldl peer_step (peer_step (peer_run a) e) b" using ab by (simp add: peer_run_append)
  then show "dp_closed (peer_run es)" "dp_violated (peer_run es)"
    "\<exists>later. dp_heard (peer_run es) = dp_heard (peer_run a) @
         (if dp_closed (peer_run a) then [] else map (\<lambda>l. (l, PClosed, True)) (dp_listeners (peer_run a))) @ later \<and>
       (\<forall>x \<in> set later. snd x = (PClosed, True))"
    using v ab peer_after_violation[of "peer_step (peer_run a) e" b] by auto
qed

theorem forbidden_channel_closes_witness:
  "dp_closed (peer_run ([PeerListen 7, PeerStateChange PConnected] @ PeerTrack # [PeerClose])) \<and>
   (\<exists>later. dp_heard (peer_run ([PeerListen 7, PeerStateChange PConnected] @ PeerTrack # [PeerClose])) =
      [(7, PConnected, False)] @ [(7, PClosed, True)] @ later)"
proof -
  have a: "dp_heard (peer_run [PeerListen 7, PeerStateChange PConnected]) = [(7, PConnected, False)]"
    "dp_listeners (peer_run [PeerListen 7, PeerStateChange PConnected]) = [7]" "\<not> dp_closed (peer_run [PeerListen 7, PeerStateChange PConnected])"
    by (simp_all add: peer_run_def peer_start_def peer_defs)
  note told = forbidden_channel_closes[of "[PeerListen 7, PeerStateChange PConnected] @ PeerTrack # [PeerClose]", THEN conjunct2, THEN conjunct2,
      THEN spec, of "[PeerListen 7, PeerStateChange PConnected]", THEN spec, of PeerTrack, THEN spec, of "[PeerClose]"]
  show ?thesis using told unfolding a(1,2) using a(3) by (simp del: append_Cons) blast
qed

end
