(* ===== verification/Link.thy ===== *)
theory Link
  imports Peer Transfer_Ends
begin

text \<open>
  What both ends of a session share (\<open>src/direct/session.ts\<close>): the kinds of failure, one end of
  the exchange, which counts indexes, keeps sends in order and sends \<open>stop\<close> at most once, and the
  watch over the connection. The classification of what the pairing kit throws is that of
  \<open>src/get/failure.ts\<close>.
\<close>

datatype direct_failure =
    DCancelled | DPeerCancelled | DDeclined | DUnsupported | DPeerUnsupported | DProtocol | DPeerFailed
  | DPeerStorage | DNoRelay | DConnect | DLost | DExpired | DNetwork | DSource | DTooBig | DVerification | DStorage

subsection \<open>Failures\<close>

text \<open>
  What is thrown by code outside the session: the kit's transport error with its kind and status
  as far as they are a string and a number, a \<open>TypeError\<close>, a \<open>DOMException\<close> by name, or anything
  else.
\<close>

datatype foreign_error = Transport "jsstr option" "jsnum option" | TypeErrorThrown | DomException jsstr | OtherThrown

datatype pairing_failure = ClaimRefused | PairingNetwork | WrongWordsTyped | PairingExpired | PairingCancelled

definition refused_status :: "jsnum option \<Rightarrow> bool" where
  "refused_status st \<longleftrightarrow> st \<in> {Some (Whole 403), Some (Whole 404), Some (Whole 409), Some (Whole 410)}"

fun classifyPairingFailure :: "foreign_error \<Rightarrow> bool \<Rightarrow> pairing_failure" where
  "classifyPairingFailure (Transport kind status) claimed =
     (if kind = Some (js ''expired'') then PairingExpired
      else if kind = Some (js ''cancelled'') then PairingCancelled
      else if \<not> claimed \<and> kind = Some (js ''http'') \<and> refused_status status then ClaimRefused
      else PairingNetwork)"
| "classifyPairingFailure TypeErrorThrown claimed = PairingNetwork"
| "classifyPairingFailure (DomException name) claimed =
     (if name = js ''TimeoutError'' \<or> name = js ''NetworkError'' then PairingNetwork
      else if claimed then WrongWordsTyped else PairingNetwork)"
| "classifyPairingFailure OtherThrown claimed = (if claimed then WrongWordsTyped else PairingNetwork)"

datatype thrown = ThrownDirect direct_failure | ThrownTransfer transfer_failure | ThrownForeign foreign_error

fun exchangeFailure :: "thrown \<Rightarrow> direct_failure" where
  "exchangeFailure (ThrownDirect k) = k"
| "exchangeFailure (ThrownTransfer _) = DNetwork"
| "exchangeFailure (ThrownForeign e) =
     (case classifyPairingFailure e True of
        PairingExpired \<Rightarrow> DExpired
      | PairingCancelled \<Rightarrow> DCancelled
      | _ \<Rightarrow> DNetwork)"

fun failureForPeerStop :: "stop_reason \<Rightarrow> direct_failure" where
  "failureForPeerStop Cancelled = DPeerCancelled"
| "failureForPeerStop Unsupported = DPeerUnsupported"
| "failureForPeerStop Failed = DPeerFailed"

fun failureForTransfer :: "thrown \<Rightarrow> direct_failure" where
  "failureForTransfer (ThrownDirect k) = k"
| "failureForTransfer (ThrownForeign _) = DProtocol"
| "failureForTransfer (ThrownTransfer TUncaught) = DProtocol"
| "failureForTransfer (ThrownTransfer TCancelled) = DCancelled"
| "failureForTransfer (ThrownTransfer TPeerCancelled) = DPeerCancelled"
| "failureForTransfer (ThrownTransfer TPeerFailed) = DPeerFailed"
| "failureForTransfer (ThrownTransfer TPeerStorage) = DPeerStorage"
| "failureForTransfer (ThrownTransfer TProtocol) = DProtocol"
| "failureForTransfer (ThrownTransfer TClosed) = DLost"
| "failureForTransfer (ThrownTransfer TFrameSize) = DUnsupported"
| "failureForTransfer (ThrownTransfer TSource) = DSource"
| "failureForTransfer (ThrownTransfer TVerification) = DVerification"
| "failureForTransfer (ThrownTransfer TStorage) = DStorage"

subsection \<open>One end of the exchange\<close>

text \<open>
  The promise chain is a queue of messages with the index each took; one at a time is with the
  exchange. \<open>lk_wire\<close> is what has been handed to the exchange, in order. \<open>lk_stopping\<close> is whether
  the stop of this end has settled, once there is one.
\<close>

record link =
  lk_us :: side
  lk_allow :: "jsstr list"
  lk_sent :: nat
  lk_received :: nat
  lk_stopped :: bool
  lk_ended :: bool
  lk_stopping :: "bool option"
  lk_chain :: "(nat \<times> direct_message) list"
  lk_busy :: "(nat \<times> direct_message) option"
  lk_wire :: "(nat \<times> direct_message) list"
  lk_closed :: bool

definition link_start :: "side \<Rightarrow> jsstr list \<Rightarrow> link" where
  "link_start us allow = \<lparr>lk_us = us, lk_allow = allow, lk_sent = 0, lk_received = 0, lk_stopped = False, lk_ended = False,
     lk_stopping = None, lk_chain = [], lk_busy = None, lk_wire = [], lk_closed = False\<rparr>"

fun is_stop :: "direct_message \<Rightarrow> bool" where
  "is_stop (StopMessage _) = True"
| "is_stop _ = False"

definition link_send :: "direct_message \<Rightarrow> link \<Rightarrow> (thrown + nat) \<times> link" where
  "link_send m lk =
     (if lk_ended lk then (Inl (ThrownDirect DExpired), lk)
      else if lk_stopped lk \<and> \<not> is_stop m then (Inl (ThrownDirect DCancelled), lk)
      else if lk_sent lk \<ge> messagesPerSide LIMITS then (Inl (ThrownDirect DProtocol), lk)
      else
        (case encodeMessage m of
           Inl _ \<Rightarrow> (Inl (ThrownForeign OtherThrown), lk)
         | Inr _ \<Rightarrow> (Inr (lk_sent lk), lk\<lparr>lk_sent := lk_sent lk + 1, lk_chain := lk_chain lk @ [(lk_sent lk, m)]\<rparr>)))"

definition link_stop :: "stop_reason \<Rightarrow> link \<Rightarrow> link" where
  "link_stop reason lk =
     (if lk_stopped lk \<or> lk_ended lk \<or> lk_sent lk \<ge> messagesPerSide LIMITS then lk
      else snd (link_send (StopMessage reason) (lk\<lparr>lk_stopped := True\<rparr>))\<lparr>lk_stopping := Some False\<rparr>)"

fun refusal_reason :: "refusal \<Rightarrow> stop_reason" where
  "refusal_reason (BadUnsupported _) = Unsupported"
| "refusal_reason (BadFailed _) = Failed"

definition other_side :: "side \<Rightarrow> side" where
  "other_side s = (if s = Page then Drop else Page)"

definition link_read ::
  "unicode \<Rightarrow> int option \<Rightarrow> foreign_error + bytes \<Rightarrow> link \<Rightarrow> (direct_failure + direct_message \<times> nat) \<times> link" where
  "link_read uc mx res lk =
     (if lk_ended lk then (Inl DNetwork, lk)
      else
        (case res of
           Inl e \<Rightarrow> (Inl (exchangeFailure (ThrownForeign e)), lk)
         | Inr bs \<Rightarrow>
             let lk1 = lk\<lparr>lk_received := lk_received lk + 1\<rparr> in
             (case decodeMessage uc \<lparr>sender = other_side (lk_us lk), index = lk_received lk, iceAllowlist = lk_allow lk, maxOffered = mx\<rparr> bs of
                Inl r \<Rightarrow> (Inl (if refusal_reason r = Unsupported then DUnsupported else DProtocol), link_stop (refusal_reason r) lk1)
              | Inr m \<Rightarrow> (Inr (m, lk_received lk), if is_stop m then lk1\<lparr>lk_stopped := True\<rparr> else lk1))))"

definition link_end :: "link \<Rightarrow> link" where
  "link_end lk =
     (if lk_ended lk then lk
      else lk\<lparr>lk_ended := True, lk_closed := (lk_closed lk \<or> lk_stopping lk \<noteq> Some False)\<rparr>)"

text \<open>The chain hands the next message over, and the exchange settles it, well or badly.\<close>

definition link_pump :: "link \<Rightarrow> link" where
  "link_pump lk =
     (case (lk_busy lk, lk_chain lk) of
        (None, m # ms) \<Rightarrow> lk\<lparr>lk_busy := Some m, lk_chain := ms, lk_wire := lk_wire lk @ [m]\<rparr>
      | _ \<Rightarrow> lk)"

definition link_settle :: "link \<Rightarrow> link" where
  "link_settle lk =
     (case lk_busy lk of
        None \<Rightarrow> lk
      | Some (i, m) \<Rightarrow>
          if is_stop m then lk\<lparr>lk_busy := None, lk_stopping := Some True, lk_closed := (lk_closed lk \<or> lk_ended lk)\<rparr>
          else lk\<lparr>lk_busy := None\<rparr>)"

datatype link_event =
    LSend direct_message | LStop stop_reason | LRead "int option" "foreign_error + bytes" | LEnd | LPump | LSettle

text \<open>Only \<open>stop\<close> sends a stop message: no caller hands one to \<open>send\<close>.\<close>

fun link_step :: "unicode \<Rightarrow> link \<Rightarrow> link_event \<Rightarrow> link" where
  "link_step uc lk (LSend m) = (if is_stop m then lk else snd (link_send m lk))"
| "link_step uc lk (LStop reason) = link_stop reason lk"
| "link_step uc lk (LRead mx res) = snd (link_read uc mx res lk)"
| "link_step uc lk LEnd = link_end lk"
| "link_step uc lk LPump = link_pump lk"
| "link_step uc lk LSettle = link_settle lk"

subsection \<open>The discipline of the exchange\<close>

definition link_log :: "link \<Rightarrow> (nat \<times> direct_message) list" where
  "link_log lk = lk_wire lk @ lk_chain lk"

text \<open>
  Everything taken so far is numbered from zero without a gap, within the limit; a stop is the
  last, there is one exactly when one is on its way or has gone, and the exchange stays open for it.
\<close>

definition stops_last :: "link \<Rightarrow> bool" where
  "stops_last lk \<longleftrightarrow> (\<forall>m \<in> set (butlast (link_log lk)). \<not> is_stop (snd m)) \<and>
     (lk_stopping lk \<noteq> None \<longleftrightarrow> link_log lk \<noteq> [] \<and> is_stop (snd (last (link_log lk))))"

definition link_ok :: "link \<Rightarrow> bool" where
  "link_ok lk \<longleftrightarrow>
     map fst (link_log lk) = [0..<lk_sent lk] \<and> lk_sent lk \<le> messagesPerSide LIMITS \<and> stops_last lk \<and>
     (lk_stopping lk \<noteq> None \<longrightarrow> lk_stopped lk) \<and>
     (\<forall>m. lk_busy lk = Some m \<longrightarrow> lk_wire lk \<noteq> [] \<and> m = last (lk_wire lk)) \<and>
     (lk_stopping lk = Some True \<longrightarrow> lk_busy lk = None \<and> lk_chain lk = []) \<and>
     (lk_stopping lk = Some False \<longrightarrow> lk_chain lk \<noteq> [] \<or> lk_busy lk \<noteq> None) \<and>
     (lk_closed lk \<longleftrightarrow> lk_ended lk \<and> lk_stopping lk \<noteq> Some False)"

lemma link_ok_start: "link_ok (link_start us allow)"
  by (simp add: link_ok_def stops_last_def link_log_def link_start_def)

lemma stops_encode: "\<forall>r \<in> set [Cancelled, Unsupported, Failed]. \<not> isl (encodeMessage (StopMessage r))"
  by code_simp

lemma encode_stop: "\<exists>bs. encodeMessage (StopMessage r) = Inr bs"
proof -
  have "\<not> isl (encodeMessage (StopMessage r))" using stops_encode by (cases r) auto
  then show ?thesis by (cases "encodeMessage (StopMessage r)") auto
qed

lemma link_ok_no_stop:
  assumes "link_ok lk" "lk_stopping lk = None" "x \<in> set (link_log lk)"
  shows "\<not> is_stop (snd x)"
proof (cases "x \<in> set (butlast (link_log lk))")
  case False
  have "link_log lk \<noteq> []" using assms(3) by auto
  then have "x = last (link_log lk)" using assms(3) False by (metis append_butlast_last_id Un_iff empty_iff insert_iff list.set(1) list.simps(15) set_append)
  then show ?thesis using assms(1,2) \<open>link_log lk \<noteq> []\<close> unfolding link_ok_def stops_last_def by metis
qed (use assms(1) in \<open>auto simp: link_ok_def stops_last_def\<close>)

text \<open>Taking one more message, when no stop has been taken.\<close>

lemma link_ok_take:
  assumes "link_ok lk" "lk_stopping lk = None" "\<not> lk_ended lk" "lk_sent lk < messagesPerSide LIMITS"
  shows "\<not> is_stop m \<Longrightarrow> link_ok (lk\<lparr>lk_sent := lk_sent lk + 1, lk_chain := lk_chain lk @ [(lk_sent lk, m)]\<rparr>)"
    and "is_stop m \<Longrightarrow> link_ok (lk\<lparr>lk_stopped := True, lk_sent := lk_sent lk + 1, lk_chain := lk_chain lk @ [(lk_sent lk, m)], lk_stopping := Some False\<rparr>)"
proof -
  note none = link_ok_no_stop[OF assms(1,2)]
  have log: "link_log (lk\<lparr>lk_sent := lk_sent lk + 1, lk_chain := lk_chain lk @ [(lk_sent lk, m)]\<rparr>) = link_log lk @ [(lk_sent lk, m)]"
    "link_log (lk\<lparr>lk_stopped := True, lk_sent := lk_sent lk + 1, lk_chain := lk_chain lk @ [(lk_sent lk, m)], lk_stopping := Some False\<rparr>) =
      link_log lk @ [(lk_sent lk, m)]" by (simp_all add: link_log_def)
  show "link_ok (lk\<lparr>lk_sent := lk_sent lk + 1, lk_chain := lk_chain lk @ [(lk_sent lk, m)]\<rparr>)" if "\<not> is_stop m"
    using assms none that unfolding link_ok_def stops_last_def log by auto
  show "link_ok (lk\<lparr>lk_stopped := True, lk_sent := lk_sent lk + 1, lk_chain := lk_chain lk @ [(lk_sent lk, m)], lk_stopping := Some False\<rparr>)"
    if "is_stop m" using assms none that unfolding link_ok_def stops_last_def log by auto
qed

lemma link_ok_send: "link_ok lk \<Longrightarrow> \<not> is_stop m \<Longrightarrow> link_ok (snd (link_send m lk))"
  using link_ok_take(1)[of lk m] by (auto simp: link_send_def link_ok_def[of lk] split: sum.splits)

lemma link_ok_stop: "link_ok lk \<Longrightarrow> link_ok (link_stop r lk)"
  using link_ok_take(2)[of lk "StopMessage r"] encode_stop[of r]
  by (auto simp: link_stop_def link_send_def link_ok_def[of lk])

lemma link_ok_cong: "link_ok lk \<Longrightarrow> link_ok (lk\<lparr>lk_received := n\<rparr>)" "link_ok lk \<Longrightarrow> link_ok (lk\<lparr>lk_received := n, lk_stopped := True\<rparr>)"
  by (simp_all add: link_ok_def stops_last_def link_log_def)

lemma link_ok_read: "link_ok lk \<Longrightarrow> link_ok (snd (link_read uc mx res lk))"
  using link_ok_cong[of lk "lk_received lk + 1"] link_ok_stop
  by (auto simp: link_read_def Let_def split: sum.splits)

lemma link_ok_end: "link_ok lk \<Longrightarrow> link_ok (link_end lk)"
  by (auto simp: link_end_def link_ok_def stops_last_def link_log_def)

lemma link_ok_pump:
  assumes "link_ok lk"
  shows "link_ok (link_pump lk)"
proof (cases "lk_busy lk = None \<and> lk_chain lk \<noteq> []")
  case True
  then obtain m ms where m: "lk_busy lk = None" "lk_chain lk = m # ms" by (cases "lk_chain lk") auto
  then have "link_log (link_pump lk) = link_log lk" by (simp add: link_pump_def link_log_def)
  then show ?thesis using assms m unfolding link_ok_def stops_last_def by (auto simp: link_pump_def)
qed (use assms in \<open>auto simp: link_pump_def split: list.splits option.splits\<close>)

lemma link_ok_settle:
  assumes "link_ok lk"
  shows "link_ok (link_settle lk)"
proof (cases "lk_busy lk")
  case (Some m)
  then have w: "lk_wire lk \<noteq> []" "m = last (lk_wire lk)" using assms by (auto simp: link_ok_def)
  have log: "link_log (link_settle lk) = link_log lk" by (simp add: link_settle_def link_log_def Some split: prod.splits)
  have "lk_stopping lk \<noteq> None \<longleftrightarrow> is_stop (snd (last (link_log lk)))" using w assms by (auto simp: link_ok_def stops_last_def link_log_def)
  moreover have "is_stop (snd m) \<Longrightarrow> lk_chain lk = []"
  proof (rule ccontr)
    assume st: "is_stop (snd m)" and ne: "lk_chain lk \<noteq> []"
    have "m \<in> set (butlast (link_log lk))" using w ne by (simp add: link_log_def butlast_append)
    then show False using st assms by (auto simp: link_ok_def stops_last_def)
  qed
  moreover have "lk_chain lk = [] \<Longrightarrow> last (link_log lk) = m" using w by (simp add: link_log_def)
  moreover obtain n x where m: "m = (n, x)" by (cases m)
  ultimately have pending: "is_stop x \<Longrightarrow> lk_chain lk = [] \<and> lk_stopping lk \<noteq> None" "\<not> is_stop x \<Longrightarrow> lk_stopping lk \<noteq> None \<Longrightarrow> lk_chain lk \<noteq> []"
    by auto
  show ?thesis
  proof (cases "is_stop x")
    case True
    have s: "link_settle lk = lk\<lparr>lk_busy := None, lk_stopping := Some True, lk_closed := (lk_closed lk \<or> lk_ended lk)\<rparr>"
      using Some m True by (simp add: link_settle_def)
    show ?thesis using assms pending(1)[OF True] log unfolding link_ok_def stops_last_def s by auto
  next
    case False
    have s: "link_settle lk = lk\<lparr>lk_busy := None\<rparr>" using Some m False by (simp add: link_settle_def)
    show ?thesis using assms pending(2)[OF False] log unfolding link_ok_def stops_last_def s by auto
  qed
qed (use assms in \<open>simp add: link_settle_def\<close>)

lemma link_ok_step: "link_ok lk \<Longrightarrow> link_ok (link_step uc lk e)"
  by (cases e) (auto simp: link_ok_send link_ok_stop link_ok_read link_ok_end link_ok_pump link_ok_settle)

definition link_run :: "unicode \<Rightarrow> side \<Rightarrow> jsstr list \<Rightarrow> link_event list \<Rightarrow> link" where
  "link_run uc us allow es = foldl (link_step uc) (link_start us allow) es"

lemma link_ok_run: "link_ok (link_run uc us allow es)"
proof -
  have "link_ok lk \<Longrightarrow> link_ok (foldl (link_step uc) lk es)" for lk by (induction es arbitrary: lk) (auto simp: link_ok_step)
  then show ?thesis by (simp add: link_run_def link_ok_start)
qed

text \<open>
  Property C32: whatever is sent, read, stopped and ended, and however the exchange settles, what one
  end of a session hands to the exchange is numbered from zero without a gap, is at most eight
  messages, and holds at most one \<open>stop\<close>, which is the last; and the exchange is closed only after
  the session ended and a stop that was on its way has settled, never under it.
\<close>

theorem link_discipline:
  "let lk = link_run uc us allow es in
    map fst (lk_wire lk) = [0..<length (lk_wire lk)] \<and> length (lk_wire lk) \<le> 8 \<and>
    (\<forall>i < length (lk_wire lk). is_stop (snd (lk_wire lk ! i)) \<longrightarrow> i = length (lk_wire lk) - 1) \<and>
    (lk_closed lk \<longrightarrow> lk_ended lk \<and> (\<forall>m. lk_busy lk = Some m \<longrightarrow> \<not> is_stop (snd m)) \<and> (\<forall>m \<in> set (lk_chain lk). \<not> is_stop (snd m)))"
proof -
  define lk where "lk = link_run uc us allow es"
  have ok: "link_ok lk" unfolding lk_def by (rule link_ok_run)
  have fsts: "map fst (lk_wire lk) @ map fst (lk_chain lk) = [0..<lk_sent lk]" using ok by (simp add: link_ok_def link_log_def)
  have len: "length (lk_wire lk) + length (lk_chain lk) = lk_sent lk" using arg_cong[OF fsts, of length] by simp
  have one: "map fst (lk_wire lk) = [0..<length (lk_wire lk)]"
  proof -
    have "map fst (lk_wire lk) = take (length (lk_wire lk)) [0..<lk_sent lk]" unfolding fsts[symmetric] by simp
    then show ?thesis using len by (simp add: take_upt)
  qed
  have stop: "i = length (lk_wire lk) - 1" if i: "i < length (lk_wire lk)" "is_stop (snd (lk_wire lk ! i))" for i
  proof (rule ccontr)
    assume "i \<noteq> length (lk_wire lk) - 1"
    then have "i < length (link_log lk) - 1" "link_log lk ! i = lk_wire lk ! i" using i(1) by (auto simp: link_log_def nth_append)
    then have "lk_wire lk ! i \<in> set (butlast (link_log lk))" by (metis in_set_conv_nth length_butlast nth_butlast)
    then show False using ok i(2) by (auto simp: link_ok_def stops_last_def)
  qed
  have closed: "lk_ended lk \<and> (\<forall>m. lk_busy lk = Some m \<longrightarrow> \<not> is_stop (snd m)) \<and> (\<forall>m \<in> set (lk_chain lk). \<not> is_stop (snd m))"
    if "lk_closed lk"
  proof -
    have e: "lk_ended lk" "lk_stopping lk = None \<or> lk_stopping lk = Some True"
      using ok that unfolding link_ok_def by (blast, metis (full_types) not_None_eq)
    then show ?thesis
    proof (elim disjE)
      assume "lk_stopping lk = None"
      then have none: "\<not> is_stop (snd x)" if "x \<in> set (link_log lk)" for x using link_ok_no_stop[OF ok] that by blast
      moreover have "m \<in> set (link_log lk)" if "lk_busy lk = Some m" for m using ok that by (auto simp: link_ok_def link_log_def)
      ultimately show ?thesis using e(1) by (auto simp: link_log_def)
    next
      assume "lk_stopping lk = Some True"
      then show ?thesis using e(1) ok by (auto simp: link_ok_def)
    qed
  qed
  have "length (lk_wire lk) \<le> 8" using ok len by (simp add: link_ok_def)
  then show ?thesis using one stop closed unfolding Let_def lk_def by blast
qed

theorem link_discipline_witness:
  "let lk = link_run \<lparr>nfc = (\<lambda>s. s), lower = (\<lambda>s. s)\<rparr> Page [] [LStop Cancelled, LPump]
   in is_stop (snd (lk_wire lk ! 0)) \<and> 0 = length (lk_wire lk) - 1"
proof -
  define lk where "lk = link_run \<lparr>nfc = (\<lambda>s. s), lower = (\<lambda>s. s)\<rparr> Page [] [LStop Cancelled, LPump]"
  obtain bs where "encodeMessage (StopMessage Cancelled) = Inr bs" using encode_stop by blast
  then have "lk_wire lk = [(0, StopMessage Cancelled)]"
    by (simp add: lk_def link_run_def link_start_def link_stop_def link_send_def link_pump_def)
  then show ?thesis
    using link_discipline[of "\<lparr>nfc = (\<lambda>s. s), lower = (\<lambda>s. s)\<rparr>" Page "[]" "[LStop Cancelled, LPump]"]
    unfolding lk_def[symmetric] Let_def by simp
qed

end
