(* ===== verification/Watch.thy ===== *)
theory Watch
  imports Link
begin

text \<open>
  The watch over a peer connection (\<open>watchConnection\<close> of \<open>src/direct/session.ts\<close>): the clock of a
  connection that never came up, the clock of a failed one, and what the person is told.
\<close>

text \<open>A timer variable: undefined, holding a running timer, or holding one that fired or was cleared.\<close>

datatype timer = NoTimer | Armed | Spent

record watch =
  w_everConnected :: bool
  w_down :: bool
  w_stopped :: bool
  w_connectTimer :: timer
  w_failedTimer :: timer
  w_told :: "bool list"

definition cleared_timer :: "timer \<Rightarrow> timer" where
  "cleared_timer t = (if t = Armed then Spent else t)"

definition watch_evaluate :: "peer_state \<Rightarrow> watch \<Rightarrow> watch" where
  "watch_evaluate state w =
     (if w_stopped w then w
      else if state = PConnected then
        w\<lparr>w_everConnected := True, w_connectTimer := NoTimer, w_failedTimer := NoTimer,
          w_told := w_told w @ (if w_down w then [False] else []), w_down := False\<rparr>
      else if state = PDisconnected \<or> state = PFailed then
        w\<lparr>w_told := w_told w @ (if w_everConnected w \<and> \<not> w_down w then [True] else []), w_down := True,
          w_failedTimer := (if state = PFailed \<and> w_failedTimer w = NoTimer then Armed else w_failedTimer w)\<rparr>
      else if state = PClosed then
        w\<lparr>w_connectTimer := cleared_timer (w_connectTimer w), w_failedTimer := cleared_timer (w_failedTimer w)\<rparr>
      else w)"

definition watchConnection :: "peer_state \<Rightarrow> watch" where
  "watchConnection state =
     watch_evaluate state \<lparr>w_everConnected = False, w_down = False, w_stopped = False, w_connectTimer = Armed,
       w_failedTimer = NoTimer, w_told = []\<rparr>"

text \<open>The error a watch gives up with; one that has stopped never does.\<close>

definition watch_giveUp :: "watch \<Rightarrow> direct_failure option" where
  "watch_giveUp w = (if w_stopped w then None else Some (if w_everConnected w then DLost else DConnect))"

definition watch_halt :: "watch \<Rightarrow> watch" where
  "watch_halt w = w\<lparr>w_stopped := True, w_connectTimer := cleared_timer (w_connectTimer w),
     w_failedTimer := cleared_timer (w_failedTimer w)\<rparr>"

text \<open>\<open>WatchGiveUp\<close> is a call of the watch's own \<open>giveUp\<close>, as both sessions make when the exchange has failed them.\<close>

datatype watch_signal = WatchState peer_state | ConnectTimer | FailedTimer | WatchGiveUp | WatchStop

text \<open>One input: the watch after it and what it gives up with, if it does.\<close>

fun watch_input :: "watch \<Rightarrow> watch_signal \<Rightarrow> watch \<times> direct_failure option" where
  "watch_input w (WatchState s) = (watch_evaluate s w, None)"
| "watch_input w ConnectTimer =
     (if w_connectTimer w = Armed then (w\<lparr>w_connectTimer := Spent\<rparr>, watch_giveUp w) else (w, None))"
| "watch_input w FailedTimer =
     (if w_failedTimer w = Armed then (w\<lparr>w_failedTimer := Spent\<rparr>, watch_giveUp w) else (w, None))"
| "watch_input w WatchGiveUp = (w, watch_giveUp w)"
| "watch_input w WatchStop = (watch_halt w, None)"

fun watch_gives :: "watch \<Rightarrow> watch_signal list \<Rightarrow> watch \<times> direct_failure list" where
  "watch_gives w [] = (w, [])"
| "watch_gives w (i # is) =
     (let (w1, e) = watch_input w i; (w2, es) = watch_gives w1 is
      in (w2, (case e of None \<Rightarrow> es | Some k \<Rightarrow> k # es)))"

lemma watch_gives_Cons:
  "watch_gives w (i # is) =
     (fst (watch_gives (fst (watch_input w i)) is),
      (case snd (watch_input w i) of None \<Rightarrow> [] | Some k \<Rightarrow> [k]) @ snd (watch_gives (fst (watch_input w i)) is))"
  by (simp add: Let_def case_prod_beta split: option.splits)

declare watch_gives.simps(2) [simp del]

subsection \<open>What the person is told\<close>

definition told_ok :: "watch \<Rightarrow> bool" where
  "told_ok w \<longleftrightarrow> distinct_adj (w_told w) \<and> (w_told w \<noteq> [] \<and> w_everConnected w \<longrightarrow> last (w_told w) = w_down w) \<and>
     (w_everConnected w \<and> w_down w \<longrightarrow> w_told w \<noteq> []) \<and> (\<not> w_everConnected w \<longrightarrow> w_told w = [])"

lemma told_ok_evaluate: "told_ok w \<Longrightarrow> told_ok (watch_evaluate s w)"
  by (auto simp: told_ok_def watch_evaluate_def distinct_adj_append_iff)

lemma told_ok_input: "told_ok w \<Longrightarrow> told_ok (fst (watch_input w i))"
  by (cases i) (auto simp: told_ok_evaluate, auto simp: told_ok_def watch_halt_def)

lemma told_ok_gives: "told_ok w \<Longrightarrow> told_ok (fst (watch_gives w is))"
  by (induction "is" arbitrary: w) (simp_all add: watch_gives_Cons told_ok_input)

lemma ever_connected_stays: "w_everConnected w \<Longrightarrow> w_everConnected (fst (watch_input w i))"
  by (cases i) (auto simp: watch_evaluate_def watch_halt_def)

lemma gives_lost:
  "w_everConnected w \<Longrightarrow> e \<in> set (snd (watch_gives w is)) \<Longrightarrow> e = DLost"
proof (induction "is" arbitrary: w)
  case (Cons i "is")
  have "w_everConnected (fst (watch_input w i))" using Cons.prems(1) by (rule ever_connected_stays)
  moreover have "snd (watch_input w i) = Some k \<Longrightarrow> k = DLost" for k
    using Cons.prems(1) by (cases i) (auto simp: watch_giveUp_def split: if_splits)
  ultimately show ?case using Cons.IH Cons.prems(2) by (auto simp: watch_gives_Cons split: option.splits)
qed simp

lemma gives_connect:
  "\<not> w_everConnected w \<Longrightarrow> WatchState PConnected \<notin> set is \<Longrightarrow> e \<in> set (snd (watch_gives w is)) \<Longrightarrow> e = DConnect"
proof (induction "is" arbitrary: w)
  case (Cons i "is")
  have "\<not> w_everConnected (fst (watch_input w i))" using Cons.prems(1,2) by (cases i) (auto simp: watch_evaluate_def watch_halt_def)
  moreover have "snd (watch_input w i) = Some k \<Longrightarrow> k = DConnect" for k
    using Cons.prems(1) by (cases i) (auto simp: watch_giveUp_def split: if_splits)
  ultimately show ?case using Cons.IH Cons.prems(2,3) by (auto simp: watch_gives_Cons split: option.splits)
qed simp

lemma stopped_gives: "w_stopped w \<Longrightarrow> snd (watch_gives w is) = []"
proof (induction "is" arbitrary: w)
  case (Cons i "is")
  have "w_stopped (fst (watch_input w i)) \<and> snd (watch_input w i) = None"
    using Cons.prems by (cases i) (auto simp: watch_giveUp_def watch_evaluate_def watch_halt_def)
  then show ?case using Cons.IH by (simp add: watch_gives_Cons)
qed simp

lemma watch_gives_append:
  "watch_gives w (a @ b) = (fst (watch_gives (fst (watch_gives w a)) b), snd (watch_gives w a) @ snd (watch_gives (fst (watch_gives w a)) b))"
  by (induction a arbitrary: w) (simp_all add: watch_gives_Cons)

lemma watch_goes_on: "\<not> w_stopped w \<Longrightarrow> WatchStop \<notin> set a \<Longrightarrow> \<not> w_stopped (fst (watch_gives w a))"
proof (induction a arbitrary: w)
  case (Cons i a)
  have "\<not> w_stopped (fst (watch_input w i))" using Cons.prems by (cases i) (auto simp: watch_evaluate_def)
  then show ?case using Cons by (simp add: watch_gives_Cons)
qed simp

text \<open>
  Property C33: whatever the connection does, the person is never told twice in a row that it is
  reconnecting, or that it is back; once it has been up, giving up, by a clock or because a session
  asks for it, is always a lost connection and not one that was never made, and until then it is one
  that was never made; and a watch that was stopped never gives up, asked or not.
\<close>

theorem watch_tells_truth:
  "distinct_adj (w_told (fst (watch_gives (watchConnection s0) is))) \<and>
   (\<forall>a b. is = a @ WatchState PConnected # b \<and> WatchStop \<notin> set a \<longrightarrow>
      set (drop (length (snd (watch_gives (watchConnection s0) a))) (snd (watch_gives (watchConnection s0) is))) \<subseteq> {DLost}) \<and>
   (s0 \<noteq> PConnected \<and> WatchState PConnected \<notin> set is \<longrightarrow> set (snd (watch_gives (watchConnection s0) is)) \<subseteq> {DConnect}) \<and>
   (\<forall>a b. is = a @ WatchStop # b \<longrightarrow>
      snd (watch_gives (watchConnection s0) is) = snd (watch_gives (watchConnection s0) a))"
proof (intro conjI allI impI)
  have "told_ok (watchConnection s0)" by (auto simp: watchConnection_def told_ok_def watch_evaluate_def)
  from told_ok_gives[OF this] show "distinct_adj (w_told (fst (watch_gives (watchConnection s0) is)))" by (simp add: told_ok_def)
next
  fix a b
  assume ab: "is = a @ WatchState PConnected # b \<and> WatchStop \<notin> set a"
  obtain w1 es where w1: "watch_gives (watchConnection s0) a = (w1, es)" by (cases "watch_gives (watchConnection s0) a")
  from watch_goes_on[of "watchConnection s0" a] have "\<not> w_stopped w1"
    using ab w1 by (auto simp: watchConnection_def watch_evaluate_def)
  then have "w_everConnected (watch_evaluate PConnected w1)" by (simp add: watch_evaluate_def)
  from gives_lost[OF this, of _ b]
  show "set (drop (length (snd (watch_gives (watchConnection s0) a))) (snd (watch_gives (watchConnection s0) is))) \<subseteq> {DLost}"
    using ab w1 by (auto simp: watch_gives_append watch_gives_Cons)
next
  assume "s0 \<noteq> PConnected \<and> WatchState PConnected \<notin> set is"
  then show "set (snd (watch_gives (watchConnection s0) is)) \<subseteq> {DConnect}"
    using gives_connect[of "watchConnection s0"] by (auto simp: watchConnection_def watch_evaluate_def)
next
  fix a b
  assume ab: "is = a @ WatchStop # b"
  obtain w1 es where w1: "watch_gives (watchConnection s0) a = (w1, es)" by (cases "watch_gives (watchConnection s0) a")
  have "snd (watch_gives (watch_halt w1) b) = []" by (rule stopped_gives) (simp add: watch_halt_def)
  then show "snd (watch_gives (watchConnection s0) is) = snd (watch_gives (watchConnection s0) a)"
    using ab w1 by (auto simp: watch_gives_append watch_gives_Cons)
qed

theorem watch_tells_truth_witness:
  "snd (watch_gives (watchConnection PNew) ([WatchState PConnected] @ WatchStop # [FailedTimer, WatchGiveUp])) =
     snd (watch_gives (watchConnection PNew) [WatchState PConnected])"
  using watch_tells_truth[of PNew "[WatchState PConnected] @ WatchStop # [FailedTimer, WatchGiveUp]"] by blast

end
