(* ===== verification/Session.thy ===== *)
theory Session
  imports Watch "HOL-Library.Sublist"
begin

text \<open>
  What the two ends of a direct send have in common (\<open>src/direct/session.ts\<close>, the classes
  \<open>SenderSession\<close> and \<open>ReceiverSession\<close>): the link, the peer connection with its watch, the
  failure recorded first, and closing, giving up, stopping and failing.

  A session is a state machine. An event is the settling of something the code awaits, a call made
  by the page, a timer or a change of the connection; a step is the stretch of code up to the next
  \<open>await\<close>. Where the code awaits one of several promises, any of them may settle first.
\<close>

text \<open>
  \<open>se_peer\<close> is the state of the peer connection, if there is one; \<open>se_run\<close> whether the run was
  aborted; \<open>se_watchFailed\<close> what the watch's promise \<open>failed\<close> was rejected with; \<open>se_closing\<close> says
  that a deliberate stop has still to close the session.
\<close>

record session =
  se_link :: link
  se_peer :: "peer_state option"
  se_channel :: bool
  se_run :: "bool option"
  se_failure :: "direct_failure option"
  se_watch :: "watch option"
  se_watchFailed :: "direct_failure option"
  se_finished :: bool
  se_closing :: bool

type_synonym 'a on_state = "peer_state \<Rightarrow> 'a session_scheme \<Rightarrow> 'a session_scheme"

definition first_failure :: "direct_failure option \<Rightarrow> direct_failure \<Rightarrow> direct_failure option" where
  "first_failure f e = (case f of None \<Rightarrow> Some e | Some k \<Rightarrow> Some k)"

text \<open>The watch's listener, with the session's own hook after it.\<close>

definition session_evaluate :: "'a on_state \<Rightarrow> 'a session_scheme \<Rightarrow> 'a session_scheme" where
  "session_evaluate onState s =
     (case (se_watch s, se_peer s) of
        (Some w, Some st) \<Rightarrow> if w_stopped w then s else onState st (s\<lparr>se_watch := Some (watch_evaluate st w)\<rparr>)
      | _ \<Rightarrow> s)"

text \<open>A peer that was closed stays closed; closing it tells the listeners at once.\<close>

definition session_peer_state :: "'a on_state \<Rightarrow> peer_state \<Rightarrow> 'a session_scheme \<Rightarrow> 'a session_scheme" where
  "session_peer_state onState st s =
     (case se_peer s of
        None \<Rightarrow> s
      | Some old \<Rightarrow> session_evaluate onState (s\<lparr>se_peer := Some (if old = PClosed then PClosed else st)\<rparr>))"

definition close_peer :: "'a on_state \<Rightarrow> 'a session_scheme \<Rightarrow> 'a session_scheme" where
  "close_peer onState s =
     (if se_peer s = None \<or> se_peer s = Some PClosed then s
      else session_evaluate onState (s\<lparr>se_peer := Some PClosed\<rparr>))"

definition session_close :: "'a on_state \<Rightarrow> 'a session_scheme \<Rightarrow> 'a session_scheme" where
  "session_close onState s = (let s1 = close_peer onState s in s1\<lparr>se_link := link_end (se_link s1)\<rparr>)"

definition session_giveUp :: "'a on_state \<Rightarrow> direct_failure \<Rightarrow> 'a session_scheme \<Rightarrow> 'a session_scheme" where
  "session_giveUp onState e s = session_close onState (s\<lparr>se_failure := first_failure (se_failure s) e\<rparr>)"

text \<open>The watch gives up: the session hears of it first, and \<open>failed\<close> is rejected with its failure.\<close>

definition watch_gives_up :: "'a on_state \<Rightarrow> 'a session_scheme \<Rightarrow> 'a session_scheme" where
  "watch_gives_up onState s =
     (case Option.bind (se_watch s) watch_giveUp of
        None \<Rightarrow> s
      | Some e \<Rightarrow>
          let s1 = session_giveUp onState e s
          in s1\<lparr>se_watchFailed := (if se_watchFailed s1 = None then se_failure s1 else se_watchFailed s1)\<rparr>)"

definition session_timer :: "'a on_state \<Rightarrow> watch_signal \<Rightarrow> 'a session_scheme \<Rightarrow> 'a session_scheme" where
  "session_timer onState t s =
     (case se_watch s of
        None \<Rightarrow> s
      | Some w \<Rightarrow>
          let (w1, gives) = watch_input w t; s1 = s\<lparr>se_watch := Some w1\<rparr>
          in if gives = None then s1 else watch_gives_up onState s1)"

definition session_stop :: "'a on_state \<Rightarrow> stop_reason \<Rightarrow> bool \<Rightarrow> 'a session_scheme \<Rightarrow> 'a session_scheme" where
  "session_stop onState reason immediate s =
     (if se_finished s then s
      else
        let s1 = s\<lparr>se_failure := first_failure (se_failure s) (if reason = Cancelled then DCancelled else DProtocol),
                   se_run := map_option (\<lambda>_. True) (se_run s),
                   se_link := link_stop reason (se_link s)\<rparr>
        in if immediate then session_close onState s1 else s1\<lparr>se_closing := True\<rparr>)"

text \<open>The last words of a deliberate stop have left, or have had their time.\<close>

definition session_stop_closes :: "'a on_state \<Rightarrow> 'a session_scheme \<Rightarrow> 'a session_scheme" where
  "session_stop_closes onState s = (if se_closing s then session_close onState (s\<lparr>se_closing := False\<rparr>) else s)"

definition session_fail :: "'a on_state \<Rightarrow> direct_failure \<Rightarrow> 'a session_scheme \<Rightarrow> 'a session_scheme" where
  "session_fail onState e s =
     (let s1 = watch_gives_up onState (s\<lparr>se_failure := first_failure (se_failure s) e\<rparr>)
      in close_peer onState (s1\<lparr>se_run := map_option (\<lambda>_. True) (se_run s1)\<rparr>))"

definition session_pump :: "'a session_scheme \<Rightarrow> 'a session_scheme" where
  "session_pump s = s\<lparr>se_link := link_pump (se_link s)\<rparr>"

text \<open>Whether a read left a stop of this end on its way, which the reader waits for.\<close>

definition tells_stop :: "link \<Rightarrow> link \<Rightarrow> bool" where
  "tells_stop lk lk' \<longleftrightarrow> lk_stopping lk = None \<and> lk_stopping lk' \<noteq> None"

subsection \<open>The table of events\<close>

text \<open>
  An event the table allows at an index, or the one exception: a stop in place of the invitation.
\<close>

definition table_allows :: "side \<Rightarrow> nat \<Rightarrow> direct_message \<Rightarrow> bool" where
  "table_allows sd i m \<longleftrightarrow> event_name m \<in> set (allowedEvents sd i) \<or> sd = Drop \<and> i = 0 \<and> is_stop m"

text \<open>A link that took no message but a stop, whatever it holds.\<close>

definition adds_stop :: "link \<Rightarrow> link \<Rightarrow> bool" where
  "adds_stop lk lk' \<longleftrightarrow> lk_us lk' = lk_us lk \<and> (link_ok lk \<longrightarrow> link_ok lk') \<and> set (link_log lk) \<subseteq> set (link_log lk') \<and>
     (\<forall>x \<in> set (link_log lk') - set (link_log lk). is_stop (snd x))"

definition keeps_table :: "side \<Rightarrow> link \<Rightarrow> bool" where
  "keeps_table sd lk \<longleftrightarrow> lk_us lk = sd \<and> link_ok lk \<and> (\<forall>x \<in> set (link_log lk). table_allows sd (fst x) (snd x))"

text \<open>The side of the link never changes.\<close>

lemma link_us [simp]:
  "lk_us (snd (link_send m lk)) = lk_us lk" "lk_us (link_stop r lk) = lk_us lk" "lk_us (snd (link_read uc mx res lk)) = lk_us lk"
  "lk_us (link_end lk) = lk_us lk" "lk_us (link_pump lk) = lk_us lk" "lk_us (link_settle lk) = lk_us lk"
  by (auto simp: link_send_def link_stop_def link_read_def link_end_def link_pump_def link_settle_def Let_def split: sum.splits option.splits list.splits)

text \<open>A link that took no message but a stop.\<close>

definition quiet :: "link \<Rightarrow> link \<Rightarrow> bool" where
  "quiet lk lk' \<longleftrightarrow> (lk_stopped lk' \<or> \<not> lk_stopped lk \<and> lk_sent lk' = lk_sent lk)"

lemma quiet_refl [simp]: "quiet lk lk"
  by (simp add: quiet_def)

lemma quiet_trans: "quiet a b \<Longrightarrow> quiet b c \<Longrightarrow> lk_stopped b \<longrightarrow> lk_stopped c \<Longrightarrow> quiet a c"
  by (auto simp: quiet_def)

lemma stop_allowed: "i < 8 \<Longrightarrow> table_allows sd i (StopMessage r)"
  by (cases sd) (simp_all add: table_allows_def allowedEvents_def)

lemma log_take: "link_log (lk\<lparr>lk_sent := n, lk_chain := lk_chain lk @ [x]\<rparr>) = link_log lk @ [x]"
  by (simp add: link_log_def)

lemma keeps_send:
  assumes "keeps_table sd lk" "\<not> is_stop m" "\<not> lk_ended lk \<Longrightarrow> \<not> lk_stopped lk \<Longrightarrow> table_allows sd (lk_sent lk) m"
  shows "keeps_table sd (snd (link_send m lk))"
proof -
  have "link_ok (snd (link_send m lk))" using assms(1,2) by (simp add: keeps_table_def link_ok_send)
  then show ?thesis using assms unfolding keeps_table_def by (auto simp: link_send_def log_take split: sum.splits)
qed

lemma keeps_stop:
  assumes "keeps_table sd lk"
  shows "keeps_table sd (link_stop r lk)"
proof -
  have "link_ok (link_stop r lk)" using assms by (simp add: keeps_table_def link_ok_stop)
  moreover have "lk_sent lk < 8 \<Longrightarrow> table_allows sd (lk_sent lk) (StopMessage r)" by (rule stop_allowed)
  ultimately show ?thesis using assms encode_stop[of r] unfolding keeps_table_def
    by (auto simp: link_stop_def link_send_def link_log_def)
qed

lemma stop_quiet: "lk_stopped (link_stop r lk) \<or> lk_ended lk \<or> lk_sent lk \<ge> 8" "quiet lk (link_stop r lk)"
  using encode_stop[of r] by (auto simp: link_stop_def link_send_def quiet_def)

lemma keeps_read: "keeps_table sd lk \<Longrightarrow> keeps_table sd (snd (link_read uc mx res lk))"
proof -
  assume k: "keeps_table sd lk"
  have "keeps_table sd (lk\<lparr>lk_received := n\<rparr>)" "keeps_table sd (lk\<lparr>lk_received := n, lk_stopped := True\<rparr>)" for n
    using k link_ok_cong unfolding keeps_table_def by (auto simp: link_log_def)
  then show ?thesis using k keeps_stop by (auto simp: link_read_def Let_def split: sum.splits)
qed

lemma read_quiet: "quiet lk (snd (link_read uc mx res lk))"
  using stop_quiet(2)[of "lk\<lparr>lk_received := lk_received lk + 1\<rparr>"]
  by (auto simp: link_read_def quiet_def Let_def split: sum.splits)

lemma keeps_end: "keeps_table sd lk \<Longrightarrow> keeps_table sd (link_end lk)"
  using link_ok_end[of lk] by (auto simp: keeps_table_def link_end_def link_log_def)

lemma end_quiet: "quiet lk (link_end lk)" "lk_stopped (link_end lk) = lk_stopped lk" "lk_sent (link_end lk) = lk_sent lk"
  by (auto simp: link_end_def quiet_def)

lemma pump_log: "link_log (link_pump lk) = link_log lk"
  by (auto simp: link_pump_def link_log_def split: option.splits list.splits)

lemma settle_log: "link_log (link_settle lk) = link_log lk"
  by (auto simp: link_settle_def link_log_def split: option.splits)

lemma keeps_pump: "keeps_table sd lk \<Longrightarrow> keeps_table sd (link_pump lk)"
  using link_ok_pump[of lk] by (simp add: keeps_table_def pump_log)

lemma keeps_settle: "keeps_table sd lk \<Longrightarrow> keeps_table sd (link_settle lk)"
  using link_ok_settle[of lk] by (simp add: keeps_table_def settle_log)

lemma pump_quiet: "lk_stopped (link_pump lk) = lk_stopped lk" "lk_sent (link_pump lk) = lk_sent lk" "lk_ended (link_pump lk) = lk_ended lk"
  by (auto simp: link_pump_def split: option.splits list.splits)

lemma settle_quiet: "lk_stopped (link_settle lk) = lk_stopped lk" "lk_sent (link_settle lk) = lk_sent lk" "lk_ended (link_settle lk) = lk_ended lk"
  by (auto simp: link_settle_def split: option.splits)

lemma keeps_start: "keeps_table us (link_start us allow)"
  by (simp add: keeps_table_def link_ok_start link_log_def) (simp add: link_start_def)

lemma table_allows_stop_last: "table_allows sd i m \<Longrightarrow> \<not> is_stop m \<Longrightarrow> i \<le> 6"
  by (cases m) (auto simp: table_allows_def allowedEvents_def split: if_splits)

lemma adds_stop_refl [simp]: "adds_stop lk lk"
  by (simp add: adds_stop_def)

lemma adds_stop_trans: "adds_stop a b \<Longrightarrow> adds_stop b c \<Longrightarrow> adds_stop a c"
  by (auto simp: adds_stop_def)

lemma adds_stop_ops [simp]:
  "adds_stop lk (link_stop r lk)" "adds_stop lk (link_end lk)" "adds_stop lk (link_pump lk)" "adds_stop lk (link_settle lk)"
proof -
  show "adds_stop lk (link_stop r lk)" using encode_stop[of r] link_ok_stop[of lk r]
    by (auto simp: adds_stop_def) (auto simp: link_stop_def link_send_def link_log_def split: if_splits)
  show "adds_stop lk (link_end lk)" using link_ok_end[of lk] by (auto simp: adds_stop_def) (auto simp: link_end_def link_log_def split: if_splits)
  show "adds_stop lk (link_pump lk)" "adds_stop lk (link_settle lk)"
    using link_ok_pump[of lk] link_ok_settle[of lk] by (simp_all add: adds_stop_def pump_log settle_log)
qed

lemma adds_stop_read [simp]: "adds_stop lk (snd (link_read uc mx res lk))"
proof -
  have r: "adds_stop lk (lk\<lparr>lk_received := n\<rparr>)" "adds_stop lk (lk\<lparr>lk_received := n, lk_stopped := True\<rparr>)" for n
    using link_ok_cong by (auto simp: adds_stop_def link_log_def)
  show ?thesis using r adds_stop_trans[OF r(1) adds_stop_ops(1)] by (auto simp: link_read_def Let_def split: sum.splits)
qed

lemma taken_index: "link_ok lk \<Longrightarrow> x \<in> set (link_log lk) \<Longrightarrow> fst x < lk_sent lk \<and> fst x < 8"
proof -
  assume "link_ok lk" "x \<in> set (link_log lk)"
  then have "fst x \<in> set [0..<lk_sent lk]" "lk_sent lk \<le> 8" unfolding link_ok_def by (metis image_eqI set_map, simp)
  then show ?thesis by simp
qed

lemma adds_stop_keeps: "adds_stop lk lk' \<Longrightarrow> keeps_table sd lk \<Longrightarrow> keeps_table sd lk'"
proof -
  assume a: "adds_stop lk lk'" "keeps_table sd lk"
  have "table_allows sd (fst x) (snd x)" if "x \<in> set (link_log lk')" "x \<notin> set (link_log lk)" for x
  proof -
    have "is_stop (snd x)" using that a(1) by (simp add: adds_stop_def)
    then obtain i r where "x = (i, StopMessage r)" by (cases x; cases "snd x") simp_all
    moreover have "fst x < 8" using taken_index[OF _ that(1)] a by (simp add: adds_stop_def keeps_table_def)
    ultimately show ?thesis by (simp add: stop_allowed)
  qed
  then show ?thesis using a by (auto simp: adds_stop_def keeps_table_def)
qed

text \<open>While neither end has stopped there is room for the stop.\<close>

lemma keeps_room:
  assumes "keeps_table sd lk" "\<not> lk_stopped lk"
  shows "lk_sent lk \<le> 7"
proof (cases "lk_sent lk = 0")
  case False
  have ok: "link_ok lk" and st: "lk_stopping lk = None" using assms by (auto simp: keeps_table_def link_ok_def)
  then have f: "map fst (link_log lk) = [0..<lk_sent lk]" by (simp add: link_ok_def)
  then have "lk_sent lk - 1 \<in> fst ` set (link_log lk)" using False by (metis One_nat_def diff_less in_set_conv_nth length_upt list.set_map minus_nat.diff_0 nth_upt plus_nat.add_0 neq0_conv zero_less_one)
  then obtain m where m: "(lk_sent lk - 1, m) \<in> set (link_log lk)" by auto
  then have "\<not> is_stop m" using link_ok_no_stop[OF ok st] by fastforce
  moreover have "table_allows sd (lk_sent lk - 1) m" using m assms(1) by (auto simp: keeps_table_def)
  ultimately show ?thesis using table_allows_stop_last by fastforce
qed simp

text \<open>What a link took stays taken, what it handed over stays handed over, and an ended link stays ended.\<close>

definition log_grows :: "link \<Rightarrow> link \<Rightarrow> bool" where
  "log_grows lk lk' \<longleftrightarrow> prefix (link_log lk) (link_log lk') \<and> length (lk_wire lk) \<le> length (lk_wire lk') \<and> (lk_ended lk \<longrightarrow> lk_ended lk')"

lemma log_grows_refl [simp]: "log_grows lk lk"
  by (simp add: log_grows_def)

lemma log_grows_trans: "log_grows a b \<Longrightarrow> log_grows b c \<Longrightarrow> log_grows a c"
  unfolding log_grows_def by (metis order.trans prefix_order.trans)

lemma log_grows_ops [simp]:
  "log_grows lk (snd (link_send m lk))" "log_grows lk (link_stop r lk)" "log_grows lk (link_end lk)"
  "log_grows lk (link_pump lk)" "log_grows lk (link_settle lk)"
  using pump_log[of lk] settle_log[of lk] encode_stop[of r]
  by (auto simp: log_grows_def link_send_def link_stop_def link_end_def pump_quiet settle_quiet)
    (auto simp: link_log_def link_pump_def link_settle_def split: sum.splits option.splits list.splits)

lemma log_grows_read [simp]: "log_grows lk (snd (link_read uc mx res lk))"
  using log_grows_ops(2)[of "lk\<lparr>lk_received := lk_received lk + 1\<rparr>"]
  by (auto simp: link_read_def Let_def log_grows_def link_log_def split: sum.splits)

text \<open>A session that has let go of its peer: closed or never made, and not watched any more.\<close>

definition let_go :: "'a session_scheme \<Rightarrow> bool" where
  "let_go s \<longleftrightarrow> se_peer s \<in> {None, Some PClosed} \<and> (\<forall>w. se_watch s = Some w \<longrightarrow> w_stopped w)"

lemma let_go_simps [simp]:
  "let_go (s\<lparr>se_link := lk\<rparr>) = let_go s" "let_go (s\<lparr>se_failure := f\<rparr>) = let_go s" "let_go (s\<lparr>se_run := r\<rparr>) = let_go s"
  "let_go (s\<lparr>se_closing := b\<rparr>) = let_go s" "let_go (s\<lparr>se_watchFailed := f\<rparr>) = let_go s"
  by (simp_all add: let_go_def)

definition unwatched :: "'a session_scheme \<Rightarrow> bool" where
  "unwatched s \<longleftrightarrow> (\<forall>w. se_watch s = Some w \<longrightarrow> w_stopped w)"

lemma unwatched_simps [simp]:
  "unwatched (s\<lparr>se_link := lk\<rparr>) = unwatched s" "unwatched (s\<lparr>se_failure := f\<rparr>) = unwatched s" "unwatched (s\<lparr>se_run := r\<rparr>) = unwatched s"
  "unwatched (s\<lparr>se_closing := b\<rparr>) = unwatched s" "unwatched (s\<lparr>se_watchFailed := f\<rparr>) = unwatched s" "unwatched (s\<lparr>se_peer := p\<rparr>) = unwatched s"
  by (simp_all add: unwatched_def)

lemma unwatched_evaluate: "unwatched s \<Longrightarrow> session_evaluate onState s = s"
  by (auto simp: unwatched_def session_evaluate_def split: option.splits)

lemma unwatched_close:
  assumes "unwatched s"
  shows "unwatched (close_peer onState s)" "unwatched (session_close onState s)" "unwatched (session_giveUp onState e s)"
    "watch_gives_up onState s = s" "unwatched (session_stop_closes onState s)" "unwatched (session_peer_state onState st s)"
proof -
  have c: "unwatched t \<Longrightarrow> unwatched (close_peer onState t)" for t
    using unwatched_evaluate[of "t\<lparr>se_peer := Some PClosed\<rparr>" onState] by (simp add: close_peer_def)
  then have cl: "unwatched t \<Longrightarrow> unwatched (session_close onState t)" for t by (simp add: session_close_def Let_def)
  show "unwatched (close_peer onState s)" "unwatched (session_close onState s)" "unwatched (session_giveUp onState e s)"
    "unwatched (session_stop_closes onState s)" using c cl assms by (simp_all add: session_giveUp_def session_stop_closes_def)
  show "watch_gives_up onState s = s" using assms
    by (cases "se_watch s") (auto simp: watch_gives_up_def unwatched_def watch_giveUp_def)
  show "unwatched (session_peer_state onState st s)"
    using assms by (auto simp: session_peer_state_def unwatched_evaluate split: option.splits)
qed

lemma unwatched_event:
  assumes "unwatched s"
  shows "unwatched (session_timer onState t s)" "unwatched (session_fail onState e s)" "unwatched (session_stop onState r imm s)"
proof -
  have w: "unwatched (s\<lparr>se_watch := Some (fst (watch_input w t))\<rparr>)" if "se_watch s = Some w" for w
    using assms that by (cases t) (auto simp: unwatched_def watch_evaluate_def watch_halt_def)
  then show "unwatched (session_timer onState t s)"
    using assms unwatched_close(4)[OF w] by (auto simp: session_timer_def Let_def case_prod_beta split: option.splits)
  show "unwatched (session_fail onState e s)"
    using assms unwatched_close(4)[of "s\<lparr>se_failure := first_failure (se_failure s) e\<rparr>"]
    by (simp add: session_fail_def Let_def unwatched_close(1))
  show "unwatched (session_stop onState r imm s)" using assms by (simp add: session_stop_def Let_def unwatched_close(2))
qed

lemmas unwatched_ops = unwatched_close unwatched_event

subsection \<open>What the shared operations keep\<close>

text \<open>
  The contract between the shared operations and a session: the hook of the session touches nothing
  the shared operations own, and \<open>kept\<close>, what the session keeps beside it, depends on nothing they
  change.
\<close>

locale session_hook =
  fixes onState :: "'a on_state" and kept :: "'a session_scheme \<Rightarrow> 'k"
  assumes hook_link: "se_link (onState st s) = se_link s"
    and hook_peer: "se_peer (onState st s) = se_peer s"
    and hook_watch: "se_watch (onState st s) = se_watch s"
    and hook_kept: "kept (onState st s) = kept s"
    and kept_link: "kept (s\<lparr>se_link := lk\<rparr>) = kept s"
    and kept_peer: "kept (s\<lparr>se_peer := p\<rparr>) = kept s"
    and kept_run: "kept (s\<lparr>se_run := r\<rparr>) = kept s"
    and kept_failure: "kept (s\<lparr>se_failure := f\<rparr>) = kept s"
    and kept_watch: "kept (s\<lparr>se_watch := w\<rparr>) = kept s"
    and kept_watchFailed: "kept (s\<lparr>se_watchFailed := f\<rparr>) = kept s"
    and kept_closing: "kept (s\<lparr>se_closing := b\<rparr>) = kept s"
begin

lemmas kept_simps = kept_link kept_peer kept_run kept_failure kept_watch kept_watchFailed kept_closing
  hook_link hook_peer hook_watch hook_kept

text \<open>The link is as it was, or ended; no peer is made; the rest of the session is kept.\<close>

definition ends_at_most :: "'a session_scheme \<Rightarrow> 'a session_scheme \<Rightarrow> bool" where
  "ends_at_most s t \<longleftrightarrow> kept t = kept s \<and> (se_link t = se_link s \<or> se_link t = link_end (se_link s)) \<and> (se_peer s = None \<longrightarrow> se_peer t = None)"

lemma evaluate_keeps:
  "kept (session_evaluate onState s) = kept s" "se_link (session_evaluate onState s) = se_link s"
  "se_peer (session_evaluate onState s) = se_peer s"
  by (auto simp: session_evaluate_def kept_simps split: option.splits)

lemma close_peer_keeps:
  "kept (close_peer onState s) = kept s" "se_link (close_peer onState s) = se_link s"
  "se_peer (close_peer onState s) = map_option (\<lambda>_. PClosed) (se_peer s)"
  by (auto simp: close_peer_def evaluate_keeps kept_simps)

lemma close_keeps:
  "kept (session_close onState s) = kept s" "se_link (session_close onState s) = link_end (se_link s)"
  "se_peer (session_close onState s) = map_option (\<lambda>_. PClosed) (se_peer s)"
  by (simp_all add: session_close_def Let_def close_peer_keeps kept_simps)

lemma giveUp_keeps:
  "kept (session_giveUp onState e s) = kept s" "se_link (session_giveUp onState e s) = link_end (se_link s)"
  "se_peer (session_giveUp onState e s) = map_option (\<lambda>_. PClosed) (se_peer s)"
  by (simp_all add: session_giveUp_def close_keeps kept_simps)

lemma gives_up_keeps: "ends_at_most s (watch_gives_up onState s)"
  by (auto simp: ends_at_most_def watch_gives_up_def Let_def giveUp_keeps kept_simps split: option.splits)

lemma close_ends: "ends_at_most s (session_close onState s)"
  by (simp add: ends_at_most_def close_keeps)

lemma peer_state_keeps: "ends_at_most s (session_peer_state onState st s)"
  by (auto simp: ends_at_most_def session_peer_state_def evaluate_keeps kept_simps split: option.splits)

lemma timer_keeps: "ends_at_most s (session_timer onState t s)"
proof (cases "se_watch s")
  case (Some w)
  show ?thesis using gives_up_keeps[of "s\<lparr>se_watch := Some (fst (watch_input w t))\<rparr>"] Some
    by (auto simp: ends_at_most_def session_timer_def Let_def kept_simps case_prod_beta)
qed (simp add: ends_at_most_def session_timer_def)

lemma stop_closes_keeps: "ends_at_most s (session_stop_closes onState s)"
  by (simp add: ends_at_most_def session_stop_closes_def close_keeps kept_simps)

lemma fail_keeps: "ends_at_most s (session_fail onState e s)"
  using gives_up_keeps[of "s\<lparr>se_failure := first_failure (se_failure s) e\<rparr>"]
  by (auto simp: ends_at_most_def session_fail_def Let_def close_peer_keeps kept_simps)

lemma stop_keeps:
  "kept (session_stop onState r imm s) = kept s"
  "se_link (session_stop onState r imm s) \<in> {se_link s, link_stop r (se_link s), link_end (link_stop r (se_link s))}"
  "se_peer s = None \<Longrightarrow> se_peer (session_stop onState r imm s) = None"
  by (auto simp: session_stop_def Let_def close_keeps kept_simps)

lemma ends_keeps_table:
  assumes "ends_at_most s t" "keeps_table sd (se_link s)"
  shows "keeps_table sd (se_link t) \<and> lk_stopped (se_link t) = lk_stopped (se_link s) \<and> lk_sent (se_link t) = lk_sent (se_link s)"
  using assms keeps_end[OF assms(2)] by (auto simp: ends_at_most_def end_quiet)

lemma stop_keeps_table:
  assumes "keeps_table sd (se_link s)"
  shows "keeps_table sd (se_link (session_stop onState r imm s)) \<and> quiet (se_link s) (se_link (session_stop onState r imm s))"
  using stop_keeps(2)[of r imm s] assms keeps_stop[OF assms, of r] keeps_end[OF keeps_stop[OF assms, of r]] stop_quiet(2)[of "se_link s" r]
  by (auto simp: quiet_def end_quiet)

lemma ends_grows: "ends_at_most s t \<Longrightarrow> log_grows (se_link s) (se_link t)"
  by (auto simp: ends_at_most_def)

lemma stop_grows: "log_grows (se_link s) (se_link (session_stop onState r imm s))"
  using stop_keeps(2)[of r imm s] log_grows_trans[OF log_grows_ops(2) log_grows_ops(3)] by auto

lemma evaluate_let_go: "let_go s \<Longrightarrow> let_go (session_evaluate onState s)"
  by (cases "se_watch s"; cases "se_peer s") (auto simp: let_go_def session_evaluate_def)

lemma close_let_go:
  assumes "let_go s"
  shows "let_go (close_peer onState s)" "let_go (session_close onState s)" "let_go (session_giveUp onState e s)"
    "let_go (watch_gives_up onState s)" "let_go (session_stop_closes onState s)"
proof -
  have c: "let_go t \<Longrightarrow> close_peer onState t = t" for t by (auto simp: let_go_def close_peer_def)
  have cl: "let_go t \<Longrightarrow> let_go (session_close onState t)" for t using c[of t] by (simp add: session_close_def)
  have g: "let_go (session_giveUp onState e s)" for e using cl assms by (simp add: session_giveUp_def)
  then show "let_go (session_giveUp onState e s)" .
  show "let_go (close_peer onState s)" "let_go (session_close onState s)" "let_go (session_stop_closes onState s)"
    using c cl assms by (simp_all add: session_stop_closes_def)
  show "let_go (watch_gives_up onState s)" using g assms by (simp add: watch_gives_up_def Let_def split: option.splits)
qed

lemma event_let_go:
  assumes "let_go s"
  shows "let_go (session_peer_state onState st s)" "let_go (session_timer onState t s)" "let_go (session_fail onState e s)"
    "let_go (session_stop onState r imm s)"
proof -
  show "let_go (session_peer_state onState st s)"
    using assms evaluate_let_go[of "s\<lparr>se_peer := Some PClosed\<rparr>"] by (auto simp: session_peer_state_def let_go_def split: option.splits)
  have "let_go (s\<lparr>se_watch := Some (fst (watch_input w t))\<rparr>)" if "se_watch s = Some w" for w
    using assms that by (cases t) (auto simp: let_go_def watch_evaluate_def watch_halt_def)
  then show "let_go (session_timer onState t s)"
    using assms close_let_go(4) by (auto simp: session_timer_def Let_def case_prod_beta split: option.splits)
  have "let_go (watch_gives_up onState (s\<lparr>se_failure := f\<rparr>))" for f using assms close_let_go(4) by simp
  then show "let_go (session_fail onState e s)"
    unfolding session_fail_def Let_def by (intro close_let_go(1)) simp
  show "let_go (session_stop onState r imm s)"
    using assms close_let_go(2) by (simp add: session_stop_def Let_def)
qed

end

end
