(* ===== verification/Session_Send.thy ===== *)
theory Session_Send
  imports Session
begin

text \<open>
  The page's end of a direct send (\<open>SenderSession\<close> of \<open>src/direct/session.ts\<close>): the invitation, the
  manifest, the answer, the wait for a path, the transfer, and the restarts answered beside it.
\<close>

text \<open>Where the running call is: what it awaits, or how it ended.\<close>

datatype sender_at =
    SNew | SReadInvite | SInvited | SOfferSend nat | SOfferRead | STelling direct_failure | SAccepted | SDeclined
  | SFailed direct_failure | SEncoding bool int | SAnswering jsstr | SAnswerSend nat | SChannel | SPath | STransfer
  | SDraining "direct_failure option" | SOver "direct_failure option"

text \<open>Where the loop that answers restarts is.\<close>

datatype answering = NoLoop | LoopReading | LoopTelling direct_failure | LoopAnswering nat | LoopSending nat | LoopOver

record sender_session = session +
  sn_invite :: "(bool \<times> ice_server list \<times> jsstr \<times> int) option"
  sn_manifest :: "(jsstr \<times> int \<times> jsstr) option"
  sn_offerSdp :: "jsstr option"
  sn_restartsPossible :: bool
  sn_at :: sender_at
  sn_loop :: answering

definition page_start :: "jsstr list \<Rightarrow> sender_session" where
  "page_start allow =
     \<lparr>se_link = link_start Page allow, se_peer = None, se_channel = False, se_run = None, se_failure = None,
      se_watch = None, se_watchFailed = None, se_finished = False, se_closing = False,
      sn_invite = None, sn_manifest = None, sn_offerSdp = None, sn_restartsPossible = True, sn_at = SNew, sn_loop = NoLoop\<rparr>"

text \<open>The sender's hook only reads the path again, which is the pacing's business.\<close>

definition sender_onState :: "peer_state \<Rightarrow> sender_session \<Rightarrow> sender_session" where
  "sender_onState st s = s"

definition sender_end :: "direct_failure \<Rightarrow> sender_session \<Rightarrow> sender_session" where
  "sender_end k s =
     (if k = DCancelled \<or> k = DTooBig then s\<lparr>se_link := link_stop Cancelled (se_link s)\<rparr>
      else if k = DProtocol \<or> k = DSource \<or> k = DLost then s\<lparr>se_link := link_stop Failed (se_link s)\<rparr>
      else s)"

text \<open>\<open>readInvite\<close> and \<open>offer\<close> end by throwing what \<open>end\<close> makes of the error.\<close>

definition call_throws :: "thrown \<Rightarrow> sender_session \<Rightarrow> sender_session" where
  "call_throws e s = (let k = failureForTransfer e in (sender_end k s)\<lparr>sn_at := SFailed k\<rparr>)"

text \<open>A read that failed throws at once, or when the stop that answers it has left.\<close>

definition read_throws :: "direct_failure \<Rightarrow> link \<Rightarrow> sender_session \<Rightarrow> sender_session" where
  "read_throws k lk s =
     (let s1 = s\<lparr>se_link := lk\<rparr> in
      if tells_stop (se_link s) lk then s1\<lparr>sn_at := STelling k\<rparr> else call_throws (ThrownDirect k) s1)"

definition sender_readInvite :: "unicode \<Rightarrow> foreign_error + bytes \<Rightarrow> sender_session \<Rightarrow> sender_session" where
  "sender_readInvite uc res s =
     (case link_read uc None res (se_link s) of
        (Inl k, lk) \<Rightarrow> read_throws k lk s
      | (Inr (Invite hide ice i mx, _), lk) \<Rightarrow> s\<lparr>se_link := lk, sn_invite := Some (hide, ice, i, mx), sn_at := SInvited\<rparr>
      | (Inr _, lk) \<Rightarrow> call_throws (ThrownDirect DProtocol) (s\<lparr>se_link := lk\<rparr>))"

definition sender_offer :: "jsstr \<Rightarrow> int \<Rightarrow> jsstr \<Rightarrow> sender_session \<Rightarrow> sender_session" where
  "sender_offer name sz type s =
     (case sn_invite s of
        None \<Rightarrow> s
      | Some (_, _, _, mx) \<Rightarrow>
          if sz > mx then call_throws (ThrownDirect DTooBig) s
          else
            let s1 = s\<lparr>sn_manifest := Some (name, sz, type)\<rparr> in
            (case link_send (Manifest name sz type) (se_link s) of
               (Inl e, lk) \<Rightarrow> call_throws e (s1\<lparr>se_link := lk\<rparr>)
             | (Inr i, lk) \<Rightarrow> s1\<lparr>se_link := lk, sn_at := SOfferSend i\<rparr>))"

definition sender_offerRead :: "unicode \<Rightarrow> foreign_error + bytes \<Rightarrow> sender_session \<Rightarrow> sender_session" where
  "sender_offerRead uc res s =
     (case link_read uc None res (se_link s) of
        (Inl k, lk) \<Rightarrow> read_throws k lk s
      | (Inr (Decline, _), lk) \<Rightarrow> s\<lparr>se_link := link_end lk, sn_at := SDeclined\<rparr>
      | (Inr (StopMessage r, _), lk) \<Rightarrow> call_throws (ThrownDirect (failureForPeerStop r)) (s\<lparr>se_link := lk\<rparr>)
      | (Inr (Accept sdp, _), lk) \<Rightarrow> s\<lparr>se_link := lk, sn_offerSdp := Some sdp, sn_at := SAccepted\<rparr>
      | (Inr _, lk) \<Rightarrow> call_throws (ThrownDirect DProtocol) (s\<lparr>se_link := lk\<rparr>))"

subsection \<open>Sending\<close>

definition send_finally :: "direct_failure option \<Rightarrow> sender_session \<Rightarrow> sender_session" where
  "send_finally outcome s = s\<lparr>se_watch := map_option watch_halt (se_watch s), sn_at := SDraining outcome\<rparr>"

definition send_throws :: "thrown \<Rightarrow> sender_session \<Rightarrow> sender_session" where
  "send_throws e s =
     (let k = (case se_failure s of Some f \<Rightarrow> f | None \<Rightarrow> failureForTransfer e)
      in send_finally (Some k) (sender_end k s))"

definition sender_send :: "int \<Rightarrow> bool \<Rightarrow> sender_session \<Rightarrow> sender_session" where
  "sender_send fileSize hide s =
     (if sn_invite s = None \<or> sn_manifest s = None \<or> sn_offerSdp s = None then s
      else s\<lparr>se_run := Some False, sn_at := SEncoding hide fileSize\<rparr>)"

text \<open>The encoder is there: it must fit the manifest; then the peer and its watch are made.\<close>

definition sender_encoded ::
  "(rtc_configuration \<Rightarrow> bool option) \<Rightarrow> jsstr \<Rightarrow> jsstr \<Rightarrow> jsstr \<Rightarrow> bool \<Rightarrow> int \<Rightarrow> sender_session \<Rightarrow> sender_session" where
  "sender_encoded construct name type key hide fileSize s =
     (case (sn_invite s, sn_manifest s) of
        (Some (_, ice, _, _), Some (mname, msize, mtype)) \<Rightarrow>
          if name \<noteq> mname \<or> type \<noteq> mtype \<or> fileSize \<noteq> msize then send_throws (ThrownDirect DSource) s
          else
            (case openConnection construct ice hide of
               Inl NoRelayError \<Rightarrow> send_throws (ThrownDirect DNoRelay) s
             | Inl (ConstructorThrew _) \<Rightarrow> send_throws (ThrownForeign OtherThrown) s
             | Inr _ \<Rightarrow>
                 s\<lparr>se_peer := Some PNew, se_watch := Some (watchConnection PNew), sn_at := SAnswering key\<rparr>)
      | _ \<Rightarrow> s)"

definition sender_answered :: "jsstr \<Rightarrow> jsstr \<Rightarrow> sender_session \<Rightarrow> sender_session" where
  "sender_answered key sdp s =
     (case link_send (Answer key sdp) (se_link s) of
        (Inl e, lk) \<Rightarrow> send_throws e (s\<lparr>se_link := lk\<rparr>)
      | (Inr i, lk) \<Rightarrow> s\<lparr>se_link := lk, sn_at := SAnswerSend i\<rparr>)"

definition sender_close :: "sender_session \<Rightarrow> sender_session" where
  "sender_close s = session_close sender_onState s"

definition sender_drained :: "direct_failure option \<Rightarrow> sender_session \<Rightarrow> sender_session" where
  "sender_drained outcome s = (sender_close s)\<lparr>sn_at := SOver outcome\<rparr>"

subsection \<open>Answering restarts\<close>

definition session_sender_fail :: "direct_failure \<Rightarrow> sender_session \<Rightarrow> sender_session" where
  "session_sender_fail e s = session_fail sender_onState e s"

definition noMoreRestarts :: "sender_session \<Rightarrow> sender_session" where
  "noMoreRestarts s =
     (let s1 = s\<lparr>sn_restartsPossible := False\<rparr>
      in if se_peer s1 = Some PFailed then watch_gives_up sender_onState s1 else s1)"

definition loop_fails :: "direct_failure \<Rightarrow> sender_session \<Rightarrow> sender_session" where
  "loop_fails e s = (session_sender_fail e s)\<lparr>sn_loop := LoopOver\<rparr>"

definition loop_read_throws :: "direct_failure \<Rightarrow> sender_session \<Rightarrow> sender_session" where
  "loop_read_throws k s =
     (if k = DProtocol \<or> k = DUnsupported then loop_fails k s else (noMoreRestarts s)\<lparr>sn_loop := LoopOver\<rparr>)"

definition answerRestarts_read :: "unicode \<Rightarrow> foreign_error + bytes \<Rightarrow> sender_session \<Rightarrow> sender_session" where
  "answerRestarts_read uc res s =
     (case link_read uc None res (se_link s) of
        (Inl k, lk) \<Rightarrow>
          let s1 = s\<lparr>se_link := lk\<rparr> in
          if tells_stop (se_link s) lk then s1\<lparr>sn_loop := LoopTelling k\<rparr> else loop_read_throws k s1
      | (Inr (m, idx), lk) \<Rightarrow>
          (case m of
             StopMessage r \<Rightarrow> loop_fails (failureForPeerStop r) (s\<lparr>se_link := lk\<rparr>)
           | Restart sdp \<Rightarrow>
               if idx = lk_sent lk then s\<lparr>se_link := lk, sn_loop := LoopAnswering idx\<rparr>
               else
                 let lk' = link_stop Failed lk; s1 = s\<lparr>se_link := lk'\<rparr> in
                 if tells_stop lk lk' then s1\<lparr>sn_loop := LoopTelling DProtocol\<rparr> else loop_fails DProtocol s1
           | _ \<Rightarrow>
               let lk' = link_stop Failed lk; s1 = s\<lparr>se_link := lk'\<rparr> in
               if tells_stop lk lk' then s1\<lparr>sn_loop := LoopTelling DProtocol\<rparr> else loop_fails DProtocol s1))"

text \<open>The answer to a restart could not be made or sent.\<close>

definition answer_throws :: "thrown \<Rightarrow> sender_session \<Rightarrow> sender_session" where
  "answer_throws e s =
     (let k = exchangeFailure e
      in if k = DNetwork \<or> k = DExpired then (noMoreRestarts s)\<lparr>sn_loop := LoopOver\<rparr> else loop_fails k s)"

definition answerRestarts_answered :: "jsstr \<Rightarrow> sender_session \<Rightarrow> sender_session" where
  "answerRestarts_answered sdp s =
     (case link_send (RestartAnswer sdp) (se_link s) of
        (Inl e, lk) \<Rightarrow> answer_throws e (s\<lparr>se_link := lk\<rparr>)
      | (Inr i, lk) \<Rightarrow> s\<lparr>se_link := lk, sn_loop := LoopSending i\<rparr>)"

subsection \<open>What the exchange has taken\<close>

text \<open>The exchange settles the message it was carrying; whoever awaits that message goes on.\<close>

definition sender_main_settled :: "nat \<Rightarrow> direct_message \<Rightarrow> foreign_error option \<Rightarrow> sender_session \<Rightarrow> sender_session" where
  "sender_main_settled i m res s =
     (case sn_at s of
        STelling k \<Rightarrow> if is_stop m then call_throws (ThrownDirect k) s else s
      | SOfferSend j \<Rightarrow>
          if j \<noteq> i then s
          else (case res of
                  None \<Rightarrow> s\<lparr>sn_at := SOfferRead\<rparr>
                | Some e \<Rightarrow> call_throws (ThrownDirect (exchangeFailure (ThrownForeign e))) s)
      | SAnswerSend j \<Rightarrow>
          if j \<noteq> i then s
          else (case res of
                  None \<Rightarrow> s\<lparr>sn_at := SChannel, sn_loop := LoopReading\<rparr>
                | Some e \<Rightarrow> send_throws (ThrownDirect (exchangeFailure (ThrownForeign e))) s)
      | _ \<Rightarrow> s)"

definition sender_loop_settled :: "nat \<Rightarrow> direct_message \<Rightarrow> foreign_error option \<Rightarrow> sender_session \<Rightarrow> sender_session" where
  "sender_loop_settled i m res s =
     (case sn_loop s of
        LoopTelling k \<Rightarrow> if is_stop m then loop_read_throws k s else s
      | LoopSending j \<Rightarrow>
          if j \<noteq> i then s
          else (case res of
                  None \<Rightarrow> s\<lparr>sn_loop := LoopReading\<rparr>
                | Some e \<Rightarrow> answer_throws (ThrownDirect (exchangeFailure (ThrownForeign e))) s)
      | _ \<Rightarrow> s)"

definition sender_settled :: "foreign_error option \<Rightarrow> sender_session \<Rightarrow> sender_session" where
  "sender_settled res s =
     (case lk_busy (se_link s) of
        None \<Rightarrow> s
      | Some (i, m) \<Rightarrow>
          let s1 = s\<lparr>se_link := link_settle (se_link s)\<rparr>
          in if sn_loop s1 = NoLoop then sender_main_settled i m res s1 else sender_loop_settled i m res s1)"

subsection \<open>Events\<close>

datatype sender_event =
    CallReadInvite | CallOffer jsstr int jsstr | CallSend int bool
  | SenderReads "foreign_error + bytes" | LoopReads "foreign_error + bytes"
  | Encoded jsstr jsstr jsstr | EncodingFails thrown
  | PeerAnswered jsstr | PeerAnswerFails foreign_error | RestartAnswered jsstr | RestartAnswerFails foreign_error
  | ChannelOpens | ChannelFails | PathKnown | TransferDone | TransferFails transfer_failure | WatchFailed | Drained
  | SenderStop stop_reason bool | StopCloses | SenderClose | PeerStateIs peer_state | ConnectClock | FailedClock
  | Pump | Settled "foreign_error option"

text \<open>
  One event. The three calls are made in their order, each once and after the one before; an event
  that nothing awaits changes nothing.
\<close>

fun sender_step :: "unicode \<Rightarrow> (rtc_configuration \<Rightarrow> bool option) \<Rightarrow> sender_session \<Rightarrow> sender_event \<Rightarrow> sender_session" where
  "sender_step uc construct s CallReadInvite = (if sn_at s = SNew then s\<lparr>sn_at := SReadInvite\<rparr> else s)"
| "sender_step uc construct s (CallOffer name sz type) = (if sn_at s = SInvited then sender_offer name sz type s else s)"
| "sender_step uc construct s (CallSend fileSize hide) = (if sn_at s = SAccepted then sender_send fileSize hide s else s)"
| "sender_step uc construct s (SenderReads res) =
     (if sn_at s = SReadInvite then sender_readInvite uc res s
      else if sn_at s = SOfferRead then sender_offerRead uc res s else s)"
| "sender_step uc construct s (LoopReads res) = (if sn_loop s = LoopReading then answerRestarts_read uc res s else s)"
| "sender_step uc construct s (Encoded name type key) =
     (case sn_at s of SEncoding hide fileSize \<Rightarrow> sender_encoded construct name type key hide fileSize s | _ \<Rightarrow> s)"
| "sender_step uc construct s (EncodingFails e) = (case sn_at s of SEncoding _ _ \<Rightarrow> send_throws e s | _ \<Rightarrow> s)"
| "sender_step uc construct s (PeerAnswered sdp) = (case sn_at s of SAnswering key \<Rightarrow> sender_answered key sdp s | _ \<Rightarrow> s)"
| "sender_step uc construct s (PeerAnswerFails e) =
     (case sn_at s of SAnswering _ \<Rightarrow> send_throws (ThrownForeign e) s | _ \<Rightarrow> s)"
| "sender_step uc construct s (RestartAnswered sdp) =
     (case sn_loop s of LoopAnswering _ \<Rightarrow> answerRestarts_answered sdp s | _ \<Rightarrow> s)"
| "sender_step uc construct s (RestartAnswerFails e) =
     (case sn_loop s of LoopAnswering _ \<Rightarrow> answer_throws (ThrownForeign e) s | _ \<Rightarrow> s)"
| "sender_step uc construct s ChannelOpens = (if sn_at s = SChannel then s\<lparr>se_channel := True, sn_at := SPath\<rparr> else s)"
| "sender_step uc construct s ChannelFails = (if sn_at s = SChannel then send_throws (ThrownForeign OtherThrown) s else s)"
| "sender_step uc construct s PathKnown = (if sn_at s = SPath then s\<lparr>sn_at := STransfer\<rparr> else s)"
| "sender_step uc construct s TransferDone =
     (if sn_at s = STransfer then send_finally None (s\<lparr>se_finished := True\<rparr>) else s)"
| "sender_step uc construct s (TransferFails e) = (if sn_at s = STransfer then send_throws (ThrownTransfer e) s else s)"
| "sender_step uc construct s WatchFailed =
     (case se_watchFailed s of
        Some k \<Rightarrow> if sn_at s \<in> {SChannel, SPath, STransfer} then send_throws (ThrownDirect k) s else s
      | None \<Rightarrow> s)"
| "sender_step uc construct s Drained = (case sn_at s of SDraining outcome \<Rightarrow> sender_drained outcome s | _ \<Rightarrow> s)"
| "sender_step uc construct s (SenderStop reason immediate) = session_stop sender_onState reason immediate s"
| "sender_step uc construct s StopCloses = session_stop_closes sender_onState s"
| "sender_step uc construct s SenderClose = sender_close s"
| "sender_step uc construct s (PeerStateIs st) = session_peer_state sender_onState st s"
| "sender_step uc construct s ConnectClock = session_timer sender_onState ConnectTimer s"
| "sender_step uc construct s FailedClock = session_timer sender_onState FailedTimer s"
| "sender_step uc construct s Pump = session_pump s"
| "sender_step uc construct s (Settled res) = sender_settled res s"

definition sender_run :: "unicode \<Rightarrow> (rtc_configuration \<Rightarrow> bool option) \<Rightarrow> jsstr list \<Rightarrow> sender_event list \<Rightarrow> sender_session" where
  "sender_run uc construct allow es = foldl (sender_step uc construct) (page_start allow) es"

subsection \<open>The table of events is kept\<close>

definition sender_kept where
  "sender_kept s = (sn_at s, sn_loop s, sn_invite s, sn_manifest s, sn_offerSdp s, se_channel s, se_finished s)"

interpretation sh: session_hook sender_onState sender_kept
  by unfold_locales (simp_all add: sender_onState_def sender_kept_def)

text \<open>How many messages the running call has sent by now, while the answer is not among them.\<close>

fun sent_at :: "sender_at \<Rightarrow> nat option" where
  "sent_at SNew = Some 0"
| "sent_at SReadInvite = Some 0"
| "sent_at SInvited = Some 0"
| "sent_at (SOfferSend _) = Some 1"
| "sent_at SOfferRead = Some 1"
| "sent_at SAccepted = Some 1"
| "sent_at (SEncoding _ _) = Some 1"
| "sent_at (SAnswering _) = Some 1"
| "sent_at _ = None"

fun loop_idx :: "answering \<Rightarrow> nat option" where
  "loop_idx (LoopAnswering i) = Some i"
| "loop_idx _ = None"

definition sender_ok :: "sender_session \<Rightarrow> bool" where
  "sender_ok s \<longleftrightarrow> keeps_table Page (se_link s) \<and>
     (\<forall>n. sent_at (sn_at s) = Some n \<longrightarrow> sn_loop s = NoLoop \<and> (lk_stopped (se_link s) \<or> lk_sent (se_link s) = n)) \<and>
     (\<forall>i. loop_idx (sn_loop s) = Some i \<longrightarrow> 2 \<le> i \<and> i \<le> 6 \<and> (lk_stopped (se_link s) \<or> lk_sent (se_link s) = i))"

text \<open>A step that takes no message but a stop, and moves to no place where more is promised.\<close>

definition hushed :: "sender_session \<Rightarrow> sender_session \<Rightarrow> bool" where
  "hushed s t \<longleftrightarrow> (keeps_table Page (se_link s) \<longrightarrow> keeps_table Page (se_link t)) \<and> quiet (se_link s) (se_link t) \<and>
     (sent_at (sn_at t) = sent_at (sn_at s) \<and> sn_loop t = sn_loop s \<or>
      sent_at (sn_at t) = None \<and> (sn_loop t = sn_loop s \<or> loop_idx (sn_loop t) = None))"

lemma hushed_ok: "sender_ok s \<Longrightarrow> hushed s t \<Longrightarrow> sender_ok t"
  by (auto simp: sender_ok_def hushed_def quiet_def) (metis)+

lemma hushed_at: "hushed s t \<Longrightarrow> sent_at a = None \<Longrightarrow> hushed s (t\<lparr>sn_at := a\<rparr>)"
  by (auto simp: hushed_def)

lemma hushed_loop: "hushed s t \<Longrightarrow> sent_at (sn_at t) = None \<Longrightarrow> loop_idx l = None \<Longrightarrow> hushed s (t\<lparr>sn_loop := l\<rparr>)"
  by (auto simp: hushed_def)

lemma hushed_trans: "hushed s t \<Longrightarrow> hushed t u \<Longrightarrow> hushed s u"
  by (auto simp: hushed_def quiet_def)

lemma hushed_kept:
  assumes "sh.ends_at_most s t"
  shows "hushed s t"
  using assms sh.ends_keeps_table[OF assms, of Page] by (auto simp: hushed_def sh.ends_at_most_def sender_kept_def quiet_def end_quiet)

lemma hushed_end: "hushed s (sender_end k s)"
  using keeps_stop[of Page "se_link s"] stop_quiet(2)[of "se_link s"] by (auto simp: hushed_def sender_end_def)

lemma hushed_call_throws: "hushed s (call_throws e s)"
  using hushed_at[OF hushed_end] by (simp add: call_throws_def Let_def)

lemma hushed_send_throws: "hushed s (send_throws e s)"
proof -
  define k where "k = (case se_failure s of Some f \<Rightarrow> f | None \<Rightarrow> failureForTransfer e)"
  show ?thesis using hushed_end[of s k] by (auto simp: send_throws_def send_finally_def k_def[symmetric] hushed_def)
qed

text \<open>A session that goes on from a link which took no message.\<close>

lemma hushed_from:
  assumes "hushed (s\<lparr>se_link := lk\<rparr>) t" "keeps_table Page (se_link s) \<longrightarrow> keeps_table Page lk" "quiet (se_link s) lk"
  shows "hushed s t"
  using assms by (auto simp: hushed_def quiet_def)

lemma hushed_after_read:
  assumes "link_read uc mx res (se_link s) = (r, lk)" "hushed (s\<lparr>se_link := lk\<rparr>) t"
  shows "hushed s t"
  using keeps_read[of Page "se_link s" uc mx res] read_quiet[of "se_link s" uc mx res] assms by (auto intro: hushed_from)

lemma hushed_refl [simp]: "hushed s s"
  by (simp add: hushed_def)

lemma hushed_read_throws:
  assumes "link_read uc mx res (se_link s) = (r, lk)"
  shows "hushed s (read_throws k lk s)"
  by (rule hushed_after_read[OF assms]) (auto simp: read_throws_def Let_def hushed_call_throws hushed_at)

lemma read_legal:
  assumes "link_read uc mx res lk = (Inr (m, i), lk')"
  shows "event_name m \<in> set (allowedEvents (other_side (lk_us lk)) i)"
  using assms encode_decodeMessage
  by (fastforce simp: link_read_def Let_def valid_message_def split: sum.splits if_splits)

lemma send_quiet:
  assumes "link_send m lk = (Inl e, lk')"
  shows "lk' = lk"
  using assms by (auto simp: link_send_def split: if_splits sum.splits)

lemma send_takes:
  assumes "link_send m lk = (Inr i, lk')"
  shows "i = lk_sent lk" "lk_sent lk' = lk_sent lk + 1" "lk_stopped lk' = lk_stopped lk" "\<not> lk_ended lk"
    "\<not> is_stop m \<Longrightarrow> \<not> lk_stopped lk" "link_log lk' = link_log lk @ [(i, m)]"
  using assms by (auto simp: link_send_def link_log_def split: if_splits sum.splits)

lemma ok_readInvite:
  assumes "sn_at s = SReadInvite"
  shows "hushed s (sender_readInvite uc res s)"
proof -
  obtain r lk where rd: "link_read uc None res (se_link s) = (r, lk)" by (cases "link_read uc None res (se_link s)")
  show ?thesis
  proof (cases r)
    case (Inl k)
    then show ?thesis using hushed_read_throws[OF rd] rd by (simp add: sender_readInvite_def)
  next
    case (Inr mi)
    obtain m i where "mi = (m, i)" by (cases mi)
    then show ?thesis using assms rd Inr hushed_call_throws
      by (cases m) (auto simp: sender_readInvite_def intro!: hushed_after_read[OF rd], auto simp: hushed_def)
  qed
qed

lemma ok_offerRead:
  assumes "sn_at s = SOfferRead"
  shows "hushed s (sender_offerRead uc res s)"
proof -
  obtain r lk where rd: "link_read uc None res (se_link s) = (r, lk)" by (cases "link_read uc None res (se_link s)")
  show ?thesis
  proof (cases r)
    case (Inl k)
    then show ?thesis using hushed_read_throws[OF rd] rd by (simp add: sender_offerRead_def)
  next
    case (Inr mi)
    obtain m i where "mi = (m, i)" by (cases mi)
    then show ?thesis using assms rd Inr hushed_call_throws keeps_end[of Page lk] end_quiet(1)[of lk]
      by (cases m) (auto simp: sender_offerRead_def intro!: hushed_after_read[OF rd], auto simp: hushed_def)
  qed
qed

lemma ok_offer:
  assumes "sender_ok s" "sn_at s = SInvited"
  shows "sender_ok (sender_offer name sz type s)"
proof (cases "sn_invite s")
  case (Some v)
  obtain h ice i mx where v: "v = (h, ice, i, mx)" by (cases v)
  obtain r lk where sd: "link_send (Manifest name sz type) (se_link s) = (r, lk)" by (cases "link_send (Manifest name sz type) (se_link s)")
  have n: "sn_loop s = NoLoop" "lk_stopped (se_link s) \<or> lk_sent (se_link s) = 0" using assms by (auto simp: sender_ok_def)
  have k: "keeps_table Page lk"
    using keeps_send[of Page "se_link s" "Manifest name sz type"] assms(1) n sd
    by (auto simp: sender_ok_def table_allows_def allowedEvents_def)
  show ?thesis
  proof (cases "sz > mx")
    case True
    then show ?thesis using hushed_ok[OF assms(1) hushed_call_throws] Some v by (simp add: sender_offer_def)
  next
    case False
    show ?thesis
    proof (cases r)
      case (Inl e)
      have lk: "lk = se_link s" using send_quiet sd Inl by blast
      have "hushed s (call_throws e (s\<lparr>sn_manifest := Some (name, sz, type), se_link := lk\<rparr>))"
        by (rule hushed_trans[OF _ hushed_call_throws]) (simp add: lk hushed_def)
      then show ?thesis using hushed_ok[OF assms(1)] Some v False sd Inl by (simp add: sender_offer_def)
    next
      case (Inr j)
      then show ?thesis using send_takes[of "Manifest name sz type" "se_link s" j lk] sd n k Some v False
        by (auto simp: sender_offer_def sender_ok_def)
    qed
  qed
qed (use assms in \<open>simp add: sender_offer_def\<close>)

lemma hushed_encoded:
  assumes "sn_at s = SEncoding hide fileSize"
  shows "hushed s (sender_encoded construct name type key hide fileSize s)"
  using assms hushed_send_throws
  by (auto simp: sender_encoded_def split: option.splits sum.splits peer_error.splits) (simp add: hushed_def)

lemma ok_answered:
  assumes "sender_ok s" "sn_at s = SAnswering key"
  shows "sender_ok (sender_answered key sdp s)"
proof -
  obtain r lk where sd: "link_send (Answer key sdp) (se_link s) = (r, lk)" by (cases "link_send (Answer key sdp) (se_link s)")
  have n: "sn_loop s = NoLoop" "lk_stopped (se_link s) \<or> lk_sent (se_link s) = 1" using assms by (auto simp: sender_ok_def)
  have k: "keeps_table Page lk"
    using keeps_send[of Page "se_link s" "Answer key sdp"] assms(1) n sd by (auto simp: sender_ok_def table_allows_def allowedEvents_def)
  show ?thesis
  proof (cases r)
    case (Inl e)
    then have "lk = se_link s" using send_quiet sd by blast
    then show ?thesis using hushed_ok[OF assms(1) hushed_send_throws] sd Inl by (simp add: sender_answered_def)
  next
    case (Inr j)
    then show ?thesis using sd n k by (auto simp: sender_answered_def sender_ok_def)
  qed
qed

text \<open>The loop runs beside a call that has sent its answer.\<close>

definition late :: "sender_session \<Rightarrow> bool" where
  "late s \<longleftrightarrow> sent_at (sn_at s) = None"

lemma hushed_fail: "late s \<Longrightarrow> hushed s (loop_fails e s)"
  using hushed_kept[OF sh.fail_keeps[of s e]] sh.fail_keeps[of s e] unfolding loop_fails_def session_sender_fail_def
  by (intro hushed_loop) (auto simp: late_def sh.ends_at_most_def sender_kept_def)

lemma hushed_noMore: "late s \<Longrightarrow> hushed s ((noMoreRestarts s)\<lparr>sn_loop := LoopOver\<rparr>)"
proof -
  assume l: "late s"
  let ?s = "s\<lparr>sn_restartsPossible := False\<rparr>"
  have "hushed s ?s" by (simp add: hushed_def)
  moreover have "hushed ?s (noMoreRestarts s)" "sn_at (noMoreRestarts s) = sn_at s"
    using hushed_kept[OF sh.gives_up_keeps[of ?s]] sh.gives_up_keeps[of ?s]
    by (auto simp: noMoreRestarts_def Let_def sh.ends_at_most_def sender_kept_def)
  ultimately show ?thesis using l by (metis hushed_loop hushed_trans late_def loop_idx.simps(6))
qed

lemma hushed_loop_throws: "late s \<Longrightarrow> hushed s (loop_read_throws k s)"
  by (simp add: loop_read_throws_def hushed_fail hushed_noMore)

lemma hushed_answer_throws: "late s \<Longrightarrow> hushed s (answer_throws e s)"
  by (simp add: answer_throws_def Let_def hushed_fail hushed_noMore)

lemma late_link [simp]: "late (s\<lparr>se_link := lk\<rparr>) = late s"
  by (simp add: late_def)

text \<open>A message of the wrong kind or at the wrong index: the loop stops the exchange and fails.\<close>

lemma hushed_wrong:
  assumes "late s"
  shows "hushed (s\<lparr>se_link := lk\<rparr>)
    (if tells_stop lk (link_stop r lk) then s\<lparr>se_link := link_stop r lk, sn_loop := LoopTelling k\<rparr> else loop_fails k (s\<lparr>se_link := link_stop r lk\<rparr>))"
proof -
  have "hushed (s\<lparr>se_link := link_stop r lk\<rparr>) (loop_fails k (s\<lparr>se_link := link_stop r lk\<rparr>))" using assms by (simp add: hushed_fail)
  moreover have "hushed (s\<lparr>se_link := lk\<rparr>) (s\<lparr>se_link := link_stop r lk\<rparr>)"
    using keeps_stop[of Page lk r] stop_quiet(2)[of lk r] by (simp add: hushed_def)
  ultimately show ?thesis using assms by (auto intro: hushed_trans) (auto simp: hushed_def late_def)
qed

lemma read_index:
  assumes "link_read uc mx res lk = (Inr (Restart sdp, i), lk')" "lk_us lk = Page"
  shows "2 \<le> i \<and> i \<le> 6"
  using read_legal[OF assms(1)] assms(2) by (auto simp: other_side_def allowedEvents_def split: if_splits)

lemma ok_loop_read:
  assumes "sender_ok s" "late s"
  shows "sender_ok (answerRestarts_read uc res s)"
proof -
  obtain r lk where rd: "link_read uc None res (se_link s) = (r, lk)" by (cases "link_read uc None res (se_link s)")
  note after = hushed_ok[OF assms(1) hushed_after_read[OF rd]]
  have k: "keeps_table Page lk" using keeps_read[of Page "se_link s" uc None res] assms(1) rd by (simp add: sender_ok_def)
  show ?thesis
  proof (cases r)
    case (Inl k)
    have "hushed (s\<lparr>se_link := lk\<rparr>) (s\<lparr>se_link := lk, sn_loop := LoopTelling k\<rparr>)" using assms(2) by (simp add: hushed_def late_def)
    then show ?thesis using rd Inl assms(2) hushed_loop_throws by (auto simp: answerRestarts_read_def Let_def intro: after)
  next
    case (Inr mi)
    obtain m i where mi: "mi = (m, i)" by (cases mi)
    note rd' = rd[unfolded Inr mi]
    have wrong: "sender_ok (if tells_stop lk (link_stop Failed lk) then s\<lparr>se_link := link_stop Failed lk, sn_loop := LoopTelling DProtocol\<rparr>
      else loop_fails DProtocol (s\<lparr>se_link := link_stop Failed lk\<rparr>))" by (rule after[OF hushed_wrong[OF assms(2)]])
    show ?thesis
    proof (cases "\<exists>sdp. m = Restart sdp \<and> i = lk_sent lk")
      case True
      then show ?thesis using rd' k read_index[of uc None res "se_link s" _ i lk] assms(1,2)
        by (auto simp: answerRestarts_read_def sender_ok_def late_def keeps_table_def)
    next
      case False
      then show ?thesis using rd' wrong after[OF hushed_fail[of "s\<lparr>se_link := lk\<rparr>"]] assms(2)
        by (cases m) (auto simp: answerRestarts_read_def Let_def)
    qed
  qed
qed

lemma ok_loop_answered:
  assumes "sender_ok s" "late s" "sn_loop s = LoopAnswering j"
  shows "sender_ok (answerRestarts_answered sdp s)"
proof -
  obtain r lk where sd: "link_send (RestartAnswer sdp) (se_link s) = (r, lk)" by (cases "link_send (RestartAnswer sdp) (se_link s)")
  have n: "2 \<le> j" "j \<le> 6" "lk_stopped (se_link s) \<or> lk_sent (se_link s) = j" using assms by (auto simp: sender_ok_def)
  have k: "keeps_table Page lk"
    using keeps_send[of Page "se_link s" "RestartAnswer sdp"] assms(1) n sd by (auto simp: sender_ok_def table_allows_def allowedEvents_def)
  show ?thesis
  proof (cases r)
    case (Inl e)
    then have "lk = se_link s" using send_quiet sd by blast
    then show ?thesis using hushed_ok[OF assms(1) hushed_answer_throws[OF assms(2)]] sd Inl by (simp add: answerRestarts_answered_def)
  next
    case (Inr i)
    then show ?thesis using sd n k assms(2) by (auto simp: answerRestarts_answered_def sender_ok_def late_def)
  qed
qed

lemma ok_settle_link: "sender_ok s \<Longrightarrow> hushed s (s\<lparr>se_link := link_settle (se_link s)\<rparr>)"
  using keeps_settle[of Page "se_link s"] by (simp add: hushed_def quiet_def settle_quiet)

lemma ok_main_settled: "sn_loop s = NoLoop \<Longrightarrow> hushed s (sender_main_settled i m res s)"
  using hushed_call_throws hushed_send_throws
  by (auto simp: sender_main_settled_def split: sender_at.splits option.splits) (simp_all add: hushed_def)

lemma ok_loop_settled: "late s \<Longrightarrow> hushed s (sender_loop_settled i m res s)"
  using hushed_loop_throws hushed_answer_throws
  by (auto simp: sender_loop_settled_def split: answering.splits option.splits) (simp_all add: hushed_def late_def)

lemma loop_late: "sender_ok s \<Longrightarrow> sn_loop s \<noteq> NoLoop \<Longrightarrow> late s"
  by (cases "sent_at (sn_at s)") (auto simp: sender_ok_def late_def)

lemma ok_settled:
  assumes "sender_ok s"
  shows "sender_ok (sender_settled res s)"
proof (cases "lk_busy (se_link s)")
  case (Some im)
  obtain i m where im: "im = (i, m)" by (cases im)
  let ?s = "s\<lparr>se_link := link_settle (se_link s)\<rparr>"
  have ok: "sender_ok ?s" by (rule hushed_ok[OF assms ok_settle_link[OF assms]])
  show ?thesis
  proof (cases "sn_loop s = NoLoop")
    case True
    then show ?thesis using hushed_ok[OF ok ok_main_settled] Some im by (simp add: sender_settled_def)
  next
    case False
    then have "late ?s" using loop_late[OF assms] by simp
    then show ?thesis using hushed_ok[OF ok ok_loop_settled] Some im False by (simp add: sender_settled_def)
  qed
qed (use assms in \<open>simp add: sender_settled_def\<close>)

text \<open>The steps that run inside a call in one place.\<close>

lemma ok_step_calls:
  assumes "sender_ok s"
  shows "sender_ok (sender_step uc construct s CallReadInvite)"
    and "sender_ok (sender_step uc construct s (CallOffer name sz type))"
    and "sender_ok (sender_step uc construct s (CallSend fileSize hide))"
    and "sender_ok (sender_step uc construct s (SenderReads res))"
    and "sender_ok (sender_step uc construct s (LoopReads res))"
proof -
  show "sender_ok (sender_step uc construct s CallReadInvite)" using assms by (simp add: sender_ok_def)
  show "sender_ok (sender_step uc construct s (CallOffer name sz type))" using assms ok_offer[OF assms] by simp
  have "sn_at s = SAccepted \<Longrightarrow> hushed s (sender_send fileSize hide s)" by (simp add: sender_send_def hushed_def)
  then show "sender_ok (sender_step uc construct s (CallSend fileSize hide))" using assms hushed_ok[OF assms] by simp
  show "sender_ok (sender_step uc construct s (SenderReads res))"
    using assms hushed_ok[OF assms ok_readInvite] hushed_ok[OF assms ok_offerRead] by simp
  show "sender_ok (sender_step uc construct s (LoopReads res))"
    using assms ok_loop_read[OF assms] loop_late[OF assms] by simp
qed

lemma ok_step_waits:
  assumes "sender_ok s"
  shows "sender_ok (sender_step uc construct s (Encoded name type key))"
    and "sender_ok (sender_step uc construct s (EncodingFails e))"
    and "sender_ok (sender_step uc construct s (PeerAnswered sdp))"
    and "sender_ok (sender_step uc construct s (PeerAnswerFails fe))"
    and "sender_ok (sender_step uc construct s (RestartAnswered sdp))"
    and "sender_ok (sender_step uc construct s (RestartAnswerFails fe))"
proof -
  note throws = hushed_ok[OF assms hushed_send_throws]
  show "sender_ok (sender_step uc construct s (Encoded name type key))"
    using assms hushed_ok[OF assms hushed_encoded] by (cases "sn_at s") simp_all
  show "sender_ok (sender_step uc construct s (EncodingFails e))" "sender_ok (sender_step uc construct s (PeerAnswerFails fe))"
    using assms throws by (cases "sn_at s"; simp)+
  show "sender_ok (sender_step uc construct s (PeerAnswered sdp))" using assms ok_answered[OF assms] by (cases "sn_at s") simp_all
  show "sender_ok (sender_step uc construct s (RestartAnswered sdp))" "sender_ok (sender_step uc construct s (RestartAnswerFails fe))"
    using assms ok_loop_answered[OF assms] hushed_ok[OF assms hushed_answer_throws] loop_late[OF assms] by (cases "sn_loop s"; simp)+
qed

lemma ok_step_channel:
  assumes "sender_ok s"
  shows "sender_ok (sender_step uc construct s ChannelOpens)"
    and "sender_ok (sender_step uc construct s ChannelFails)"
    and "sender_ok (sender_step uc construct s PathKnown)"
    and "sender_ok (sender_step uc construct s TransferDone)"
    and "sender_ok (sender_step uc construct s (TransferFails te))"
    and "sender_ok (sender_step uc construct s WatchFailed)"
proof -
  note throws = hushed_ok[OF assms hushed_send_throws]
  show "sender_ok (sender_step uc construct s ChannelFails)" "sender_ok (sender_step uc construct s (TransferFails te))"
    "sender_ok (sender_step uc construct s WatchFailed)" using assms throws by (auto split: option.splits)
  show "sender_ok (sender_step uc construct s ChannelOpens)" "sender_ok (sender_step uc construct s PathKnown)"
    "sender_ok (sender_step uc construct s TransferDone)" using assms by (auto simp: sender_ok_def send_finally_def)
qed

lemma ok_step_around:
  assumes "sender_ok s"
  shows "sender_ok (sender_step uc construct s Drained)"
    and "sender_ok (sender_step uc construct s (SenderStop reason imm))"
    and "sender_ok (sender_step uc construct s StopCloses)"
    and "sender_ok (sender_step uc construct s SenderClose)"
    and "sender_ok (sender_step uc construct s (PeerStateIs st))"
    and "sender_ok (sender_step uc construct s ConnectClock)"
    and "sender_ok (sender_step uc construct s FailedClock)"
    and "sender_ok (sender_step uc construct s Pump)"
    and "sender_ok (sender_step uc construct s (Settled fr))"
proof -
  note ends = hushed_ok[OF assms hushed_kept]
  have "hushed s (session_stop sender_onState reason imm s)"
    using sh.stop_keeps_table[of Page s reason imm] sh.stop_keeps(1)[of reason imm s]
      stop_quiet(2)[of "se_link s" reason] end_quiet(1)[of "link_stop reason (se_link s)"] sh.stop_keeps(2)[of reason imm s]
    by (auto simp: hushed_def sender_kept_def quiet_def end_quiet)
  then show "sender_ok (sender_step uc construct s (SenderStop reason imm))" using hushed_ok[OF assms] by simp
  show "sender_ok (sender_step uc construct s Drained)"
    using hushed_ok[OF assms hushed_at[OF hushed_kept[OF sh.close_ends]]] assms
    by (auto simp: sender_drained_def sender_close_def split: sender_at.splits)
  have "hushed s (session_pump s)" using keeps_pump[of Page "se_link s"] by (simp add: session_pump_def hushed_def quiet_def pump_quiet)
  then show "sender_ok (sender_step uc construct s Pump)" using hushed_ok[OF assms] by simp
  show "sender_ok (sender_step uc construct s StopCloses)" "sender_ok (sender_step uc construct s SenderClose)"
    "sender_ok (sender_step uc construct s (PeerStateIs st))" "sender_ok (sender_step uc construct s ConnectClock)"
    "sender_ok (sender_step uc construct s FailedClock)" "sender_ok (sender_step uc construct s (Settled fr))"
    using ends sh.stop_closes_keeps sh.close_ends sh.peer_state_keeps sh.timer_keeps ok_settled[OF assms] by (auto simp: sender_close_def)
qed

lemma ok_step: "sender_ok s \<Longrightarrow> sender_ok (sender_step uc construct s e)"
  by (cases e) (simp_all only: ok_step_calls ok_step_waits ok_step_channel ok_step_around)

lemma ok_run: "sender_ok (sender_run uc construct allow es)"
proof -
  have "sender_ok s \<Longrightarrow> sender_ok (foldl (sender_step uc construct) s es)" for s by (induction es arbitrary: s) (auto simp: ok_step)
  moreover have "sender_ok (page_start allow)" using keeps_start[of Page allow] by (simp add: sender_ok_def page_start_def) (simp add: link_start_def)
  ultimately show ?thesis by (simp add: sender_run_def)
qed

end
