(* ===== verification/Session_Send_Order.thy ===== *)
theory Session_Send_Order
  imports Session_Send
begin

text \<open>
  The order of the page's end of a session: no byte of the file moves before the manifest has left,
  the receiver accepted and the answer has left; and a session that is over has let go of everything.
\<close>

text \<open>How far the running call has come.\<close>

fun stage :: "sender_at \<Rightarrow> nat" where
  "stage (SOfferSend _) = 1"
| "stage SOfferRead = 1"
| "stage SAccepted = 2"
| "stage (SEncoding _ _) = 2"
| "stage (SAnswering _) = 2"
| "stage (SAnswerSend _) = 3"
| "stage SChannel = 4"
| "stage SPath = 4"
| "stage STransfer = 4"
| "stage _ = 0"

definition manifest_out :: "sender_session \<Rightarrow> bool" where
  "manifest_out s \<longleftrightarrow> (\<exists>hide ice i mx name sz type. sn_invite s = Some (hide, ice, i, mx) \<and> sn_manifest s = Some (name, sz, type) \<and>
     sz \<le> mx \<and> prefix [(0, Manifest name sz type)] (link_log (se_link s)))"

definition answer_out :: "sender_session \<Rightarrow> bool" where
  "answer_out s \<longleftrightarrow> (\<exists>m key sdp. prefix [(0, m), (1, Answer key sdp)] (link_log (se_link s)))"

definition reached :: "sender_session \<Rightarrow> nat \<Rightarrow> bool" where
  "reached s n \<longleftrightarrow> (1 \<le> n \<longrightarrow> manifest_out s) \<and> (2 \<le> n \<longrightarrow> sn_offerSdp s \<noteq> None) \<and> (3 \<le> n \<longrightarrow> answer_out s) \<and>
     (4 \<le> n \<longrightarrow> 2 \<le> length (lk_wire (se_link s)))"

definition story :: "sender_session \<Rightarrow> bool" where
  "story s \<longleftrightarrow> reached s (stage (sn_at s)) \<and> (\<forall>i. sn_at s = SAnswerSend i \<longrightarrow> i = 1) \<and> (se_finished s \<longrightarrow> reached s 4) \<and>
     (\<forall>outcome. sn_at s = SOver outcome \<longrightarrow> lk_ended (se_link s) \<and> let_go s \<and> (outcome = None \<longleftrightarrow> se_finished s)) \<and>
     (\<forall>outcome. sn_at s = SDraining outcome \<longrightarrow> unwatched s \<and> (outcome = None \<longleftrightarrow> se_finished s)) \<and>
     (se_finished s \<longrightarrow> sn_at s = SDraining None \<or> sn_at s = SOver None)"

text \<open>A step that keeps what the story rests on, and stays in its place or leaves for a failed one.\<close>

definition same_story :: "sender_session \<Rightarrow> sender_session \<Rightarrow> bool" where
  "same_story s t \<longleftrightarrow> log_grows (se_link s) (se_link t) \<and> sn_invite t = sn_invite s \<and> sn_manifest t = sn_manifest s \<and>
     sn_offerSdp t = sn_offerSdp s \<and> se_finished t = se_finished s \<and> (let_go s \<longrightarrow> let_go t) \<and>
     (unwatched s \<longrightarrow> unwatched t)"

definition follows :: "sender_session \<Rightarrow> sender_session \<Rightarrow> bool" where
  "follows s t \<longleftrightarrow> same_story s t \<and>
     (sn_at t = sn_at s \<or>
      stage (sn_at t) = 0 \<and> \<not> se_finished s \<and> (\<forall>outcome. sn_at t \<noteq> SOver outcome) \<and>
      (\<forall>outcome. sn_at t = SDraining outcome \<longrightarrow> unwatched t \<and> outcome \<noteq> None))"

lemma reached_grows:
  assumes "same_story s t" "reached s n"
  shows "reached t n"
proof -
  have p: "prefix xs (link_log (se_link s)) \<Longrightarrow> prefix xs (link_log (se_link t))" for xs
    using assms(1) by (auto simp: same_story_def log_grows_def intro: prefix_order.trans)
  have "manifest_out s \<Longrightarrow> manifest_out t" using assms(1) p unfolding manifest_out_def same_story_def by auto
  moreover have "answer_out s \<Longrightarrow> answer_out t" using p unfolding answer_out_def by blast
  ultimately show ?thesis using assms unfolding reached_def same_story_def log_grows_def by auto
qed

lemma reached_zero [simp]: "reached s 0"
  by (simp add: reached_def)

lemma story_follows:
  assumes "story s" "follows s t"
  shows "story t"
proof -
  have ss: "same_story s t" using assms(2) by (simp add: follows_def)
  note grown = reached_grows[OF ss]
  consider (same) "sn_at t = sn_at s" | (left) "stage (sn_at t) = 0" "\<not> se_finished t" "\<forall>outcome. sn_at t \<noteq> SOver outcome"
      "\<forall>outcome. sn_at t = SDraining outcome \<longrightarrow> unwatched t \<and> outcome \<noteq> None"
    using assms(2) ss by (auto simp: follows_def same_story_def)
  then show ?thesis
  proof cases
    case same
    have "se_finished t = se_finished s" "let_go s \<longrightarrow> let_go t" "unwatched s \<longrightarrow> unwatched t" "lk_ended (se_link s) \<longrightarrow> lk_ended (se_link t)"
      using ss by (simp_all add: same_story_def log_grows_def)
    then show ?thesis using assms(1) grown same unfolding story_def by simp
  next
    case left
    then have "\<forall>i. sn_at t \<noteq> SAnswerSend i" by auto
    then show ?thesis using left unfolding story_def by auto
  qed
qed

lemma same_story_refl [simp]: "same_story s s"
  by (simp add: same_story_def)

lemma same_story_trans: "same_story s t \<Longrightarrow> same_story t u \<Longrightarrow> same_story s u"
  unfolding same_story_def by (metis log_grows_trans)

lemma same_story_link: "log_grows (se_link s) lk \<Longrightarrow> same_story s (s\<lparr>se_link := lk\<rparr>)"
  by (simp add: same_story_def)

lemma same_story_marks [simp]:
  "same_story s (t\<lparr>sn_at := a\<rparr>) = same_story s t" "same_story s (t\<lparr>sn_loop := l\<rparr>) = same_story s t"
  "same_story s (t\<lparr>sn_restartsPossible := b\<rparr>) = same_story s t" "same_story (s\<lparr>sn_restartsPossible := b\<rparr>) t = same_story s t"
  by (simp_all add: same_story_def let_go_def unwatched_def)

subsection \<open>Steps that keep the story\<close>

lemma same_story_kept:
  assumes "sh.ends_at_most s t" "let_go s \<longrightarrow> let_go t" "unwatched s \<longrightarrow> unwatched t"
  shows "same_story s t \<and> sn_at t = sn_at s"
  using assms sh.ends_grows[OF assms(1)] by (auto simp: same_story_def sh.ends_at_most_def sender_kept_def)

lemma story_end: "same_story s (sender_end k s)" "sn_at (sender_end k s) = sn_at s" "se_watch (sender_end k s) = se_watch s"
  by (auto simp: sender_end_def same_story_link)

lemma follows_call_throws: "\<not> se_finished s \<Longrightarrow> follows s (call_throws e s)"
  using story_end(1)[of s] by (simp add: follows_def call_throws_def Let_def)

lemma unwatched_finally: "unwatched (send_finally outcome t)"
  by (auto simp: send_finally_def unwatched_def watch_halt_def)

lemma let_go_iff: "let_go s \<longleftrightarrow> se_peer s \<in> {None, Some PClosed} \<and> unwatched s"
  by (simp add: let_go_def unwatched_def)

lemma same_story_finally:
  assumes "same_story s t"
  shows "same_story s (send_finally outcome t)"
proof -
  have "se_peer (send_finally outcome t) = se_peer t" "se_link (send_finally outcome t) = se_link t" "sn_invite (send_finally outcome t) = sn_invite t"
    "sn_manifest (send_finally outcome t) = sn_manifest t" "sn_offerSdp (send_finally outcome t) = sn_offerSdp t"
    "se_finished (send_finally outcome t) = se_finished t" by (simp_all add: send_finally_def)
  then show ?thesis using assms by (simp add: same_story_def let_go_iff unwatched_finally)
qed

lemma follows_send_throws:
  assumes "\<not> se_finished s"
  shows "follows s (send_throws e s)"
  using assms same_story_finally[OF story_end(1)] unfolding send_throws_def Let_def follows_def
  by (simp add: unwatched_finally) (simp add: send_finally_def)

lemma follows_from:
  assumes "log_grows (se_link s) lk" "follows (s\<lparr>se_link := lk\<rparr>) t"
  shows "follows s t"
  using assms same_story_trans[OF same_story_link[OF assms(1)], of t] by (auto simp: follows_def)

lemma read_grows: "link_read uc mx res lk = (r, lk') \<Longrightarrow> log_grows lk lk'"
  using log_grows_read[of lk uc mx res] by simp

lemma send_grows: "link_send m lk = (r, lk') \<Longrightarrow> log_grows lk lk'"
  using log_grows_ops(1)[of lk m] by simp

lemma follows_read_throws:
  assumes "link_read uc mx res (se_link s) = (r, lk)" "\<not> se_finished s"
  shows "follows s (read_throws k lk s)"
proof (rule follows_from[OF read_grows[OF assms(1)]])
  show "follows (s\<lparr>se_link := lk\<rparr>) (read_throws k lk s)"
    using assms(2) follows_call_throws[of "s\<lparr>se_link := lk\<rparr>"] by (simp add: read_throws_def Let_def) (simp add: follows_def)
qed

text \<open>The loop and the events around a call leave it where it is.\<close>

lemma follows_stay: "same_story s t \<Longrightarrow> sn_at t = sn_at s \<Longrightarrow> follows s t"
  by (simp add: follows_def)

lemma stay_fail: "same_story s (loop_fails e s) \<and> sn_at (loop_fails e s) = sn_at s"
  using same_story_kept[OF sh.fail_keeps[of s e]] sh.event_let_go(3)[of s e] unwatched_ops(8)[of s sender_onState e]
  by (simp add: loop_fails_def session_sender_fail_def)

lemma stay_noMore: "same_story s (noMoreRestarts s) \<and> sn_at (noMoreRestarts s) = sn_at s"
proof -
  let ?s = "s\<lparr>sn_restartsPossible := False\<rparr>"
  have "same_story ?s (watch_gives_up sender_onState ?s) \<and> sn_at (watch_gives_up sender_onState ?s) = sn_at ?s"
    using same_story_kept[OF sh.gives_up_keeps[of ?s]] sh.close_let_go(4)[of ?s] unwatched_ops(4)[of ?s sender_onState] by simp
  then show ?thesis by (simp add: noMoreRestarts_def Let_def)
qed

lemma stay_loop_throws: "same_story s (loop_read_throws k s) \<and> sn_at (loop_read_throws k s) = sn_at s"
  by (simp add: loop_read_throws_def stay_fail stay_noMore)

lemma stay_answer_throws: "same_story s (answer_throws e s) \<and> sn_at (answer_throws e s) = sn_at s"
  by (simp add: answer_throws_def Let_def stay_fail stay_noMore)

lemma stay_loop_read: "same_story s (answerRestarts_read uc res s) \<and> sn_at (answerRestarts_read uc res s) = sn_at s"
proof -
  obtain r lk where rd: "link_read uc None res (se_link s) = (r, lk)" by (cases "link_read uc None res (se_link s)")
  have g: "log_grows (se_link s) lk" "log_grows (se_link s) (link_stop Failed lk)"
    using read_grows[OF rd] log_grows_trans[OF read_grows[OF rd] log_grows_ops(2)] by auto
  have from_lk: "same_story s t \<and> sn_at t = sn_at s"
    if "log_grows (se_link s) lk'" "same_story (s\<lparr>se_link := lk'\<rparr>) t \<and> sn_at t = sn_at (s\<lparr>se_link := lk'\<rparr>)" for lk' t
    using that same_story_trans[OF same_story_link[OF that(1)], of t] by simp
  note ends = from_lk[OF g(1)] from_lk[OF g(2)]
  show ?thesis
  proof (cases r)
    case (Inl k)
    then show ?thesis using rd ends(1)[OF stay_loop_throws, of k] same_story_link[OF g(1)] by (simp add: answerRestarts_read_def Let_def)
  next
    case (Inr mi)
    obtain m i where "mi = (m, i)" by (cases mi)
    then show ?thesis using rd Inr ends(1)[OF stay_fail] ends(2)[OF stay_fail] same_story_link[OF g(1)] same_story_link[OF g(2)]
      by (cases m) (simp_all add: answerRestarts_read_def Let_def)
  qed
qed

lemma stay_loop_answered: "same_story s (answerRestarts_answered sdp s) \<and> sn_at (answerRestarts_answered sdp s) = sn_at s"
proof -
  obtain r lk where sd: "link_send (RestartAnswer sdp) (se_link s) = (r, lk)" by (cases "link_send (RestartAnswer sdp) (se_link s)")
  note g = same_story_link[OF send_grows[OF sd]]
  show ?thesis using sd g same_story_trans[OF g] stay_answer_throws[of "s\<lparr>se_link := lk\<rparr>"]
    by (cases r) (auto simp: answerRestarts_answered_def)
qed

lemma stay_loop_settled: "same_story s (sender_loop_settled i m res s) \<and> sn_at (sender_loop_settled i m res s) = sn_at s"
  using stay_loop_throws stay_answer_throws by (cases "sn_loop s") (auto simp: sender_loop_settled_def split: option.splits)

lemma stay_session:
  "same_story s (session_stop sender_onState r imm s) \<and> sn_at (session_stop sender_onState r imm s) = sn_at s"
  "same_story s (session_stop_closes sender_onState s) \<and> sn_at (session_stop_closes sender_onState s) = sn_at s"
  "same_story s (session_close sender_onState s) \<and> sn_at (session_close sender_onState s) = sn_at s"
  "same_story s (session_peer_state sender_onState st s) \<and> sn_at (session_peer_state sender_onState st s) = sn_at s"
  "same_story s (session_timer sender_onState t s) \<and> sn_at (session_timer sender_onState t s) = sn_at s"
  "same_story s (session_pump s) \<and> sn_at (session_pump s) = sn_at s"
proof -
  show "same_story s (session_stop sender_onState r imm s) \<and> sn_at (session_stop sender_onState r imm s) = sn_at s"
    using sh.stop_keeps(1)[of r imm s] sh.stop_grows[of s r imm] sh.event_let_go(4)[of s r imm] unwatched_ops(9)[of s sender_onState r imm]
    by (simp add: same_story_def sender_kept_def)
  note l = sh.close_let_go(5)[of s] sh.close_let_go(2)[of s] sh.event_let_go(1)[of s st] sh.event_let_go(2)[of s t]
  note u = unwatched_ops(5,2)[of s sender_onState] unwatched_ops(6)[of s sender_onState st] unwatched_ops(7)[of s sender_onState t]
  show "same_story s (session_stop_closes sender_onState s) \<and> sn_at (session_stop_closes sender_onState s) = sn_at s"
    "same_story s (session_close sender_onState s) \<and> sn_at (session_close sender_onState s) = sn_at s"
    "same_story s (session_peer_state sender_onState st s) \<and> sn_at (session_peer_state sender_onState st s) = sn_at s"
    "same_story s (session_timer sender_onState t s) \<and> sn_at (session_timer sender_onState t s) = sn_at s"
    using same_story_kept[OF sh.stop_closes_keeps] same_story_kept[OF sh.close_ends] same_story_kept[OF sh.peer_state_keeps]
      same_story_kept[OF sh.timer_keeps] l u by blast+
  show "same_story s (session_pump s) \<and> sn_at (session_pump s) = sn_at s" by (simp add: session_pump_def same_story_link)
qed

subsection \<open>Steps that carry the story on\<close>

lemma story_fresh:
  assumes "stage (sn_at t) = 0" "\<not> se_finished t" "\<And>outcome. sn_at t \<noteq> SOver outcome" "\<And>outcome. sn_at t \<noteq> SDraining outcome"
  shows "story t"
  using assms by (auto simp: story_def)

lemma story_carry:
  assumes "reached t (stage (sn_at t))" "\<not> se_finished t" "0 < stage (sn_at t)" "\<And>i. sn_at t = SAnswerSend i \<Longrightarrow> i = 1"
  shows "story t"
  using assms by (auto simp: story_def)

lemma finished_at: "story s \<Longrightarrow> se_finished s \<Longrightarrow> sn_at s = SDraining None \<or> sn_at s = SOver None"
  by (simp add: story_def)

lemma unfinished: "story s \<Longrightarrow> (\<And>outcome. sn_at s \<noteq> SOver outcome) \<Longrightarrow> (\<And>outcome. sn_at s \<noteq> SDraining outcome) \<Longrightarrow> \<not> se_finished s"
  by (auto simp: story_def)

lemma reached_cong:
  "se_link t = se_link s \<Longrightarrow> sn_invite t = sn_invite s \<Longrightarrow> sn_manifest t = sn_manifest s \<Longrightarrow> sn_offerSdp t = sn_offerSdp s \<Longrightarrow> reached t n = reached s n"
  by (simp add: reached_def manifest_out_def answer_out_def)

lemma reached_stage: "story s \<Longrightarrow> n \<le> stage (sn_at s) \<Longrightarrow> reached s n"
  by (auto simp: story_def reached_def)

lemma log_length: "sender_ok s \<Longrightarrow> length (link_log (se_link s)) = lk_sent (se_link s)"
  by (metis diff_zero keeps_table_def length_map length_upt link_ok_def sender_ok_def)

lemma story_readInvite:
  assumes "story s" "sn_at s = SReadInvite"
  shows "story (sender_readInvite uc res s)"
proof -
  have fin: "\<not> se_finished s" using unfinished[OF assms(1)] assms(2) by simp
  obtain r lk where rd: "link_read uc None res (se_link s) = (r, lk)" by (cases "link_read uc None res (se_link s)")
  note throws = story_follows[OF assms(1) follows_from[OF read_grows[OF rd] follows_call_throws]]
  show ?thesis
  proof (cases r)
    case (Inl k)
    then show ?thesis using story_follows[OF assms(1) follows_read_throws[OF rd fin]] rd by (simp add: sender_readInvite_def)
  next
    case (Inr mi)
    obtain m i where "mi = (m, i)" by (cases mi)
    then show ?thesis using rd Inr fin throws by (cases m) (simp_all add: sender_readInvite_def, simp add: story_fresh)
  qed
qed

lemma story_offerRead:
  assumes "story s" "sn_at s = SOfferRead"
  shows "story (sender_offerRead uc res s)"
proof -
  have fin: "\<not> se_finished s" using unfinished[OF assms(1)] assms(2) by simp
  obtain r lk where rd: "link_read uc None res (se_link s) = (r, lk)" by (cases "link_read uc None res (se_link s)")
  note throws = story_follows[OF assms(1) follows_from[OF read_grows[OF rd] follows_call_throws]]
  have "reached (s\<lparr>se_link := lk\<rparr>) 1" using reached_grows[OF same_story_link[OF read_grows[OF rd]]] reached_stage[OF assms(1)] assms(2) by simp
  then have acc: "story (s\<lparr>se_link := lk, sn_offerSdp := Some sdp, sn_at := SAccepted\<rparr>)" for sdp
    using fin by (intro story_carry) (simp_all add: reached_def manifest_out_def)
  show ?thesis
  proof (cases r)
    case (Inl k)
    then show ?thesis using story_follows[OF assms(1) follows_read_throws[OF rd fin]] rd by (simp add: sender_offerRead_def)
  next
    case (Inr mi)
    obtain m i where "mi = (m, i)" by (cases mi)
    then show ?thesis using rd Inr fin throws acc by (cases m) (simp_all add: sender_offerRead_def, simp add: story_fresh)
  qed
qed

lemma story_offer:
  assumes "sender_ok s" "story s" "sn_at s = SInvited"
  shows "story (sender_offer name sz type s)"
proof (cases "sn_invite s")
  case (Some v)
  obtain h ice i mx where v: "v = (h, ice, i, mx)" by (cases v)
  let ?m = "Manifest name sz type"
  obtain r lk where sd: "link_send ?m (se_link s) = (r, lk)" by (cases "link_send ?m (se_link s)")
  have fin: "\<not> se_finished s" using unfinished[OF assms(2)] assms(3) by simp
  have thr: "\<not> se_finished t \<Longrightarrow> story (call_throws e t)" for t e
    using story_end(1)[of t] by (intro story_fresh) (auto simp: call_throws_def Let_def same_story_def)
  show ?thesis
  proof (cases r)
    case (Inl e)
    then show ?thesis using sd v Some thr fin by (simp add: sender_offer_def)
  next
    case (Inr j)
    note tk = send_takes[OF sd[unfolded Inr]]
    have "lk_sent (se_link s) = 0" using assms(1,3) tk(5) by (auto simp: sender_ok_def)
    then have "link_log lk = [(0, ?m)]" using log_length[OF assms(1)] tk(1,6) by simp
    then have "\<not> mx < sz \<Longrightarrow> story (s\<lparr>sn_manifest := Some (name, sz, type), se_link := lk, sn_at := SOfferSend j\<rparr>)"
      using fin Some v by (intro story_carry) (simp_all add: reached_def manifest_out_def)
    then show ?thesis using sd v Some Inr thr fin by (simp add: sender_offer_def)
  qed
qed (use assms in \<open>simp add: sender_offer_def\<close>)

lemma story_answered:
  assumes "sender_ok s" "story s" "sn_at s = SAnswering key"
  shows "story (sender_answered key sdp s)"
proof -
  obtain r lk where sd: "link_send (Answer key sdp) (se_link s) = (r, lk)" by (cases "link_send (Answer key sdp) (se_link s)")
  have fin: "\<not> se_finished s" using unfinished[OF assms(2)] assms(3) by simp
  show ?thesis
  proof (cases r)
    case (Inl e)
    then show ?thesis using sd send_quiet story_follows[OF assms(2) follows_send_throws[OF fin]] by (fastforce simp: sender_answered_def)
  next
    case (Inr j)
    note tk = send_takes[OF sd[unfolded Inr]]
    have one: "lk_sent (se_link s) = 1" using assms(1,3) tk(5) by (auto simp: sender_ok_def)
    have two: "reached s 2" using reached_stage[OF assms(2)] assms(3) by simp
    then obtain m where "prefix [(0, m)] (link_log (se_link s))" by (auto simp: reached_def manifest_out_def)
    then have "link_log (se_link s) = [(0, m)]" using one log_length[OF assms(1)] by (auto simp: prefix_def)
    then have "answer_out (s\<lparr>se_link := lk\<rparr>)" using tk(1,6) one by (auto simp: answer_out_def)
    moreover have "reached (s\<lparr>se_link := lk\<rparr>) 2" using reached_grows[OF same_story_link[OF send_grows[OF sd]] two] .
    ultimately have "story (s\<lparr>se_link := lk, sn_at := SAnswerSend j\<rparr>)"
      using fin one tk(1) by (intro story_carry) (simp_all add: reached_def manifest_out_def answer_out_def)
    then show ?thesis using sd Inr by (simp add: sender_answered_def)
  qed
qed

lemma busy_wire:
  assumes "link_ok lk" "lk_busy lk = Some (i, m)"
  shows "length (lk_wire lk) = i + 1"
proof -
  have w: "lk_wire lk \<noteq> []" "last (lk_wire lk) = (i, m)" using assms by (auto simp: link_ok_def)
  have f: "map fst (lk_wire lk) @ map fst (lk_chain lk) = [0..<lk_sent lk]" using assms(1) by (simp add: link_ok_def link_log_def)
  let ?n = "length (lk_wire lk) - 1"
  have "length (lk_wire lk) + length (lk_chain lk) = lk_sent lk" using arg_cong[OF f, of length] by simp
  then have "([0..<lk_sent lk]) ! ?n = ?n" using w(1) by (cases "lk_wire lk") auto
  then have "fst (lk_wire lk ! ?n) = ?n" using f[symmetric] w(1) by (simp add: nth_append)
  then show ?thesis using w by (simp add: last_conv_nth)
qed

lemma story_settled:
  assumes "sender_ok s" "story s"
  shows "story (sender_settled res s)"
proof (cases "lk_busy (se_link s)")
  case (Some im)
  obtain i m where im: "im = (i, m)" by (cases im)
  let ?s = "s\<lparr>se_link := link_settle (se_link s)\<rparr>"
  have st: "story ?s" using story_follows[OF assms(2)] by (simp add: follows_stay same_story_link)
  have fin: "\<not> se_finished s" if "0 < stage (sn_at s) \<or> (\<exists>k. sn_at s = STelling k)" using that finished_at[OF assms(2)] by fastforce
  have wire: "length (lk_wire (link_settle (se_link s))) = i + 1"
    using busy_wire[of "se_link s" i m] assms(1) Some im log_grows_ops(5)[of "se_link s"]
    by (auto simp: sender_ok_def keeps_table_def link_settle_def)
  have main: "story (sender_main_settled i m res ?s)"
  proof (cases "sn_at s")
    case (SOfferSend j)
    have r: "reached ?s 1" using reached_stage[OF st] SOfferSend by simp
    then have "story (?s\<lparr>sn_at := SOfferRead\<rparr>)" using fin SOfferSend by (intro story_carry) (simp_all add: reached_def manifest_out_def)
    then show ?thesis using st fin SOfferSend story_follows[OF st follows_call_throws] by (simp add: sender_main_settled_def split: option.splits)
  next
    case (SAnswerSend j)
    have "j = 1" "reached ?s 3" using st reached_stage[OF st, of 3] SAnswerSend by (auto simp: story_def)
    then have "j = i \<Longrightarrow> story (?s\<lparr>sn_at := SChannel, sn_loop := LoopReading\<rparr>)"
      using fin SAnswerSend wire by (intro story_carry) (simp_all add: reached_def manifest_out_def answer_out_def)
    then show ?thesis using st fin SAnswerSend story_follows[OF st follows_send_throws] by (simp add: sender_main_settled_def split: option.splits)
  next
    case (STelling k)
    then show ?thesis using st fin story_follows[OF st follows_call_throws] by (simp add: sender_main_settled_def)
  qed (use st in \<open>simp_all add: sender_main_settled_def\<close>)
  show ?thesis using main story_follows[OF st follows_stay] stay_loop_settled[of ?s i m res] Some im by (simp add: sender_settled_def Let_def)
qed (use assms in \<open>simp add: sender_settled_def\<close>)

lemma story_encoded:
  assumes "story s" "sn_at s = SEncoding hide fileSize"
  shows "story (sender_encoded construct name type key hide fileSize s)"
proof -
  have fin: "\<not> se_finished s" using unfinished[OF assms(1)] assms(2) by simp
  have "reached s 2" using reached_stage[OF assms(1)] assms(2) by simp
  then have "story (s\<lparr>se_peer := p, se_watch := w, sn_at := SAnswering key\<rparr>)" for p w
    using fin by (intro story_carry) (simp_all add: reached_def manifest_out_def)
  then show ?thesis using story_follows[OF assms(1) follows_send_throws[OF fin]] assms(1)
    by (simp add: sender_encoded_def split: option.splits sum.splits peer_error.splits prod.splits)
qed

lemma story_drained:
  assumes "story s" "sn_at s = SDraining outcome"
  shows "story (sender_drained outcome s)"
proof -
  let ?t = "session_close sender_onState s"
  have u: "unwatched s" and o: "outcome = None \<longleftrightarrow> se_finished s" using assms by (auto simp: story_def)
  have "let_go ?t" using unwatched_ops(2)[OF u, of sender_onState] sh.close_keeps(3)[of s] by (auto simp: let_go_iff)
  moreover have "lk_ended (se_link ?t)" by (simp add: sh.close_keeps(2)) (simp add: link_end_def)
  moreover have "se_finished ?t = se_finished s" using stay_session(3)[of s] by (simp add: same_story_def)
  moreover have "se_finished s \<Longrightarrow> reached ?t 4" using reached_grows[OF conjunct1[OF stay_session(3)[of s]]] assms(1) by (simp add: story_def)
  ultimately show ?thesis using o
    by (auto simp: story_def sender_drained_def sender_close_def let_go_def reached_def manifest_out_def answer_out_def)
qed

text \<open>The steps of the transfer: every place from the channel on has the same story.\<close>

lemma story_transfer:
  assumes "story s"
  shows "sn_at s = SChannel \<Longrightarrow> story (s\<lparr>se_channel := True, sn_at := SPath\<rparr>)"
    and "sn_at s = SPath \<Longrightarrow> story (s\<lparr>sn_at := STransfer\<rparr>)"
    and "sn_at s = STransfer \<Longrightarrow> story (send_finally None (s\<lparr>se_finished := True\<rparr>))"
    and "sn_at s \<in> {SChannel, SPath, STransfer} \<Longrightarrow> story (send_throws e s)"
proof -
  have r: "reached s 4" "\<not> se_finished s" if "sn_at s \<in> {SChannel, SPath, STransfer}"
    using that reached_stage[OF assms, of 4] unfinished[OF assms] by auto
  show "story (s\<lparr>se_channel := True, sn_at := SPath\<rparr>)" if "sn_at s = SChannel"
    using r that by (intro story_carry) (simp_all add: reached_def manifest_out_def answer_out_def)
  show "story (s\<lparr>sn_at := STransfer\<rparr>)" if "sn_at s = SPath"
    using r that by (intro story_carry) (simp_all add: reached_def manifest_out_def answer_out_def)
  show "story (send_throws e s)" if "sn_at s \<in> {SChannel, SPath, STransfer}"
    using story_follows[OF assms follows_send_throws[OF r(2)[OF that]]] .
  show "story (send_finally None (s\<lparr>se_finished := True\<rparr>))" if "sn_at s = STransfer"
    using r(1) that unwatched_finally[of None "s\<lparr>se_finished := True\<rparr>"]
    by (simp add: story_def) (simp add: send_finally_def reached_def manifest_out_def answer_out_def)
qed

lemma story_step:
  assumes "sender_ok s" "story s"
  shows "story (sender_step uc construct s e)"
proof -
  note stay = story_follows[OF assms(2) follows_stay]
  have fin: "\<not> se_finished s" if "0 < stage (sn_at s) \<or> sn_at s = SNew" using that finished_at[OF assms(2)] by fastforce
  note throws = story_follows[OF assms(2) follows_send_throws[OF fin]]
  show ?thesis
  proof (cases e)
    case CallReadInvite
    then show ?thesis using assms(2) fin by (simp add: story_fresh)
  next
    case (CallSend fileSize hide)
    have "sn_at s = SAccepted \<Longrightarrow> story (s\<lparr>se_run := Some False, sn_at := SEncoding hide fileSize\<rparr>)"
      using fin reached_stage[OF assms(2), of 2] by (intro story_carry) (simp_all add: reached_def manifest_out_def)
    then show ?thesis using CallSend assms(2) by (simp add: sender_send_def)
  next
    case (Encoded name type key)
    then show ?thesis using assms(2) story_encoded[OF assms(2)] by (cases "sn_at s") simp_all
  next
    case (EncodingFails x)
    then show ?thesis using assms(2) throws by (cases "sn_at s") simp_all
  next
    case (PeerAnswerFails x)
    then show ?thesis using assms(2) throws by (cases "sn_at s") simp_all
  next
    case (PeerAnswered sdp)
    then show ?thesis using assms(2) story_answered[OF assms] by (cases "sn_at s") simp_all
  next
    case (RestartAnswered sdp)
    then show ?thesis using assms(2) stay stay_loop_answered by (cases "sn_loop s") simp_all
  next
    case (RestartAnswerFails x)
    then show ?thesis using assms(2) stay stay_answer_throws by (cases "sn_loop s") simp_all
  next
    case Drained
    then show ?thesis using assms(2) story_drained[OF assms(2)] by (cases "sn_at s") simp_all
  next
    case WatchFailed
    then show ?thesis using assms(2) story_transfer(4)[OF assms(2)] by (simp split: option.splits)
  qed (use assms(2) stay stay_session stay_loop_read story_offer[OF assms] story_readInvite[OF assms(2)] story_offerRead[OF assms(2)]
      story_transfer[OF assms(2)] story_settled[OF assms] in \<open>simp_all add: sender_close_def\<close>)
qed

lemma story_run: "story (sender_run uc construct allow es)"
proof (induction es rule: rev_induct)
  case Nil
  then show ?case by (simp add: sender_run_def page_start_def story_def)
next
  case (snoc e es)
  then show ?case using story_step[OF ok_run] by (simp add: sender_run_def)
qed

text \<open>
  Property C7: whatever the exchange, the connection and the person do, the page moves bytes of the
  file, and says that the file was sent, only after the receiver's invitation was read, a manifest
  of a file no larger than the invitation allows was the first message handed to the exchange, the
  receiver accepted it, and an answer with the key was the second. When the send is over, however it
  ended, the exchange has ended, the peer is closed, the watch over it is off, and it ended well
  exactly if the receiver said the file was kept.
\<close>

theorem sender_sends_after_accept:
  "let s = sender_run uc construct allow es in
    (sn_at s = STransfer \<or> se_finished s \<longrightarrow>
      (\<exists>hide ice i mx name sz type offer key sdp rest. sn_invite s = Some (hide, ice, i, mx) \<and> sn_manifest s = Some (name, sz, type) \<and>
         sz \<le> mx \<and> sn_offerSdp s = Some offer \<and> lk_wire (se_link s) = (0, Manifest name sz type) # (1, Answer key sdp) # rest)) \<and>
    (\<forall>outcome. sn_at s = SOver outcome \<longrightarrow>
       lk_ended (se_link s) \<and> se_peer s \<in> {None, Some PClosed} \<and> (\<forall>w. se_watch s = Some w \<longrightarrow> w_stopped w) \<and>
       (outcome = None \<longleftrightarrow> se_finished s))"
proof -
  define s where "s = sender_run uc construct allow es"
  have st: "story s" unfolding s_def by (rule story_run)
  have wire: "\<exists>hide ice i mx name sz type offer key sdp rest. sn_invite s = Some (hide, ice, i, mx) \<and> sn_manifest s = Some (name, sz, type) \<and>
         sz \<le> mx \<and> sn_offerSdp s = Some offer \<and> lk_wire (se_link s) = (0, Manifest name sz type) # (1, Answer key sdp) # rest"
    if "sn_at s = STransfer \<or> se_finished s"
  proof -
    have r: "reached s 4" using st that by (auto simp: story_def)
    then obtain hide ice i mx name sz type offer where d: "sn_invite s = Some (hide, ice, i, mx)" "sn_manifest s = Some (name, sz, type)"
      "sz \<le> mx" "sn_offerSdp s = Some offer" "prefix [(0, Manifest name sz type)] (link_log (se_link s))" by (auto simp: reached_def manifest_out_def)
    from r obtain m key sdp where a: "prefix [(0, m), (1, Answer key sdp)] (link_log (se_link s))" by (auto simp: reached_def answer_out_def)
    obtain x y rest where w: "lk_wire (se_link s) = x # y # rest" using r by (auto simp: reached_def numeral_2_eq_2 Suc_le_length_iff)
    then have "x = (0, Manifest name sz type)" "y = (1, Answer key sdp)" using d(5) a by (auto simp: link_log_def)
    then show ?thesis using d w by blast
  qed
  show ?thesis unfolding Let_def s_def[symmetric] using wire st by (auto simp: story_def let_go_def)
qed

subsection \<open>A send from the invitation to the transfer\<close>

definition sample_sdp :: jsstr where
  "sample_sdp = js ''v=0'' @ crlf @ js ''m=application 9 UDP/DTLS/SCTP webrtc-datachannel'' @ crlf @ js ''a=fingerprint:sha-256 '' @ crlf"

abbreviation plain_tables :: unicode where "plain_tables \<equiv> \<lparr>nfc = id, lower = id\<rparr>"

lemma short_message_encodes:
  assumes "case canonicalJson (message_json m) of Inl _ \<Rightarrow> False | Inr t \<Rightarrow> length t < 1000"
  shows "\<exists>bs. encodeMessage m = Inr bs"
proof -
  obtain t where t: "canonicalJson (message_json m) = Inr t" "length t < 1000" using assms by (auto split: sum.splits)
  then have "length (utf8_encode t) \<le> messageBytes LIMITS" using utf8_encode_length[of t] by simp
  then show ?thesis using t by (simp add: encodeMessage_def)
qed

lemma sample_messages_short:
  "list_all (\<lambda>m. case canonicalJson (message_json m) of Inl _ \<Rightarrow> False | Inr t \<Rightarrow> length t < 1000)
     [Manifest (js ''a'') 1 [], Answer [] [], Accept sample_sdp]"
  by code_simp

lemma sample_accept_valid:
  "valid_message plain_tables \<lparr>sender = Drop, index = 1, iceAllowlist = DEFAULT_DIRECT_ICE_URLS, maxOffered = None\<rparr> (Accept sample_sdp)"
  by code_simp

definition sample_send :: "bytes \<Rightarrow> bytes \<Rightarrow> sender_event list" where
  "sample_send invitation acceptance =
     [CallReadInvite, SenderReads (Inr invitation), CallOffer (js ''a'') 1 [], Pump, Settled None, SenderReads (Inr acceptance),
      CallSend 1 False, Encoded (js ''a'') [] [], PeerAnswered [], Pump, Settled None, ChannelOpens, PathKnown]"

lemma sample_send_runs:
  "\<exists>a b. sn_at (sender_run plain_tables (\<lambda>_. None) DEFAULT_DIRECT_ICE_URLS (sample_send a b)) = STransfer"
proof -
  obtain a where a: "decodeMessage plain_tables sample_context a = Inr sample_invite" using sample_decoded ..
  obtain m1 m2 b where e: "encodeMessage (Manifest (js ''a'') 1 []) = Inr m1" "encodeMessage (Answer [] []) = Inr m2"
    "encodeMessage (Accept sample_sdp) = Inr b"
    using sample_messages_short short_message_encodes[of "Manifest (js ''a'') 1 []"] short_message_encodes[of "Answer [] []"]
      short_message_encodes[of "Accept sample_sdp"] by auto
  have b: "decodeMessage plain_tables \<lparr>sender = Drop, index = 1, iceAllowlist = DEFAULT_DIRECT_ICE_URLS, maxOffered = None\<rparr> b = Inr (Accept sample_sdp)"
    by (rule decode_encodeMessage[OF sample_accept_valid e(3)])
  have "sn_at (sender_run plain_tables (\<lambda>_. None) DEFAULT_DIRECT_ICE_URLS (sample_send a b)) = STransfer"
    using a b e(1,2)
    by (simp add: sample_context_def sample_invite_def sender_run_def sample_send_def page_start_def link_start_def sender_readInvite_def link_read_def other_side_def
        sender_offer_def link_send_def session_pump_def link_pump_def sender_settled_def sender_main_settled_def link_settle_def
        sender_offerRead_def sender_send_def sender_encoded_def openConnection_def buildRtcConfiguration_def sender_answered_def
        del: LIMITS_def)
  then show ?thesis by blast
qed

theorem sender_sends_after_accept_witness:
  "\<exists>a b name sz type key sdp rest. lk_wire (se_link (sender_run plain_tables (\<lambda>_. None) DEFAULT_DIRECT_ICE_URLS (sample_send a b))) =
     (0, Manifest name sz type) # (1, Answer key sdp) # rest"
proof -
  obtain a b where "sn_at (sender_run plain_tables (\<lambda>_. None) DEFAULT_DIRECT_ICE_URLS (sample_send a b)) = STransfer"
    using sample_send_runs by blast
  then have "sn_at (sender_run plain_tables (\<lambda>_. None) DEFAULT_DIRECT_ICE_URLS (sample_send a b)) = STransfer \<or>
    se_finished (sender_run plain_tables (\<lambda>_. None) DEFAULT_DIRECT_ICE_URLS (sample_send a b))" ..
  from mp[OF conjunct1[OF sender_sends_after_accept[of plain_tables "\<lambda>_. None" DEFAULT_DIRECT_ICE_URLS "sample_send a b", unfolded Let_def]] this]
  show ?thesis by (elim exE conjE) (intro exI, assumption)
qed

end
