(* ===== verification/Session_Receive.thy ===== *)
theory Session_Receive
  imports Session_Send_Order Envelope
begin

text \<open>
  Drop's end of a direct send (\<open>ReceiverSession\<close> of \<open>src/direct/session.ts\<close>): the invitation, the
  manifest, declining or accepting, the transfer into the sink, and the ICE restarts beside it.
\<close>

datatype receiver_at =
    VNew | VInviteSend nat | VInvited | VReadManifest | VTelling direct_failure | VManifest | VDeclineSend nat | VDeclined
  | VFailed direct_failure | VOffering | VAcceptSend nat | VReadAnswer | VAcceptTelling direct_failure | VApplying jsstr
  | VMakingSink | VChannel | VReceiving | VAborting thrown | VDraining "direct_failure option" | VOver "direct_failure option"

text \<open>Where the loop that reads restart answers is; it holds the restart whose answer it applies.\<close>

datatype reading = NoReader | AnswersReading | AnswersTelling direct_failure | AnswersApplying nat | AnswersOver

text \<open>Where the restart that has its turn is.\<close>

datatype restart_turn = NoTurn | TurnOffers | TurnSends nat | TurnWaits

text \<open>
  A restart that is waited for has the index it took and its number; \<open>rv_waited\<close> is how the waiting
  of the last restart ended. \<open>rv_queue\<close> counts the restarts in the chain whose turn has not come.
\<close>

record receiver_session = session +
  rv_invite :: "(bool \<times> ice_server list \<times> jsstr \<times> int) option"
  rv_manifest :: "(jsstr \<times> int \<times> jsstr) option"
  rv_sink :: bool
  rv_at :: receiver_at
  rv_answers :: reading
  rv_restartsUsed :: nat
  rv_pendingRestart :: "(nat \<times> nat) option"
  rv_waited :: "bool option"
  rv_queue :: nat
  rv_turn :: restart_turn
  rv_restartTimer :: timer

definition drop_start :: receiver_session where
  "drop_start =
     \<lparr>se_link = link_start Drop [], se_peer = None, se_channel = False, se_run = None, se_failure = None,
      se_watch = None, se_watchFailed = None, se_finished = False, se_closing = False,
      rv_invite = None, rv_manifest = None, rv_sink = False, rv_at = VNew, rv_answers = NoReader, rv_restartsUsed = 0,
      rv_pendingRestart = None, rv_waited = None, rv_queue = 0, rv_turn = NoTurn, rv_restartTimer = NoTimer\<rparr>"

definition scheduleRestart :: "peer_state \<Rightarrow> receiver_session \<Rightarrow> receiver_session" where
  "scheduleRestart st s =
     (if st = PConnected \<or> st = PClosed then s\<lparr>rv_restartTimer := NoTimer\<rparr>
      else if st \<noteq> PFailed \<and> st \<noteq> PDisconnected then s
      else if rv_restartTimer s \<noteq> NoTimer \<and> st \<noteq> PFailed then s
      else s\<lparr>rv_restartTimer := Armed\<rparr>)"

definition drop_end :: "direct_failure \<Rightarrow> receiver_session \<Rightarrow> receiver_session" where
  "drop_end k s =
     (if k = DCancelled then s\<lparr>se_link := link_stop Cancelled (se_link s)\<rparr>
      else if k = DProtocol \<or> k = DVerification \<or> k = DStorage then s\<lparr>se_link := link_stop Failed (se_link s)\<rparr>
      else s)"

definition receiver_call_throws :: "thrown \<Rightarrow> receiver_session \<Rightarrow> receiver_session" where
  "receiver_call_throws e s = (let k = failureForTransfer e in (drop_end k s)\<lparr>rv_at := VFailed k\<rparr>)"

definition receiver_invitation :: "bool \<Rightarrow> ice_server list \<Rightarrow> jsstr \<Rightarrow> int \<Rightarrow> receiver_session \<Rightarrow> receiver_session" where
  "receiver_invitation hide ice i mx s =
     (let s1 = s\<lparr>rv_invite := Some (hide, ice, i, mx)\<rparr> in
      (case link_send (Invite hide ice i mx) (se_link s) of
         (Inl e, lk) \<Rightarrow> receiver_call_throws e (s1\<lparr>se_link := lk\<rparr>)
       | (Inr j, lk) \<Rightarrow> s1\<lparr>se_link := lk, rv_at := VInviteSend j\<rparr>))"

definition receiver_readManifest :: "unicode \<Rightarrow> foreign_error + bytes \<Rightarrow> receiver_session \<Rightarrow> receiver_session" where
  "receiver_readManifest uc res s =
     (case rv_invite s of
        None \<Rightarrow> s
      | Some (_, _, _, mx) \<Rightarrow>
          (case link_read uc (Some mx) res (se_link s) of
             (Inl k, lk) \<Rightarrow>
               let s1 = s\<lparr>se_link := lk\<rparr> in
               if tells_stop (se_link s) lk then s1\<lparr>rv_at := VTelling k\<rparr> else receiver_call_throws (ThrownDirect k) s1
           | (Inr (StopMessage r, _), lk) \<Rightarrow> receiver_call_throws (ThrownDirect (failureForPeerStop r)) (s\<lparr>se_link := lk\<rparr>)
           | (Inr (Manifest name sz type, _), lk) \<Rightarrow> s\<lparr>se_link := lk, rv_manifest := Some (name, sz, type), rv_at := VManifest\<rparr>
           | (Inr _, lk) \<Rightarrow> receiver_call_throws (ThrownDirect DProtocol) (s\<lparr>se_link := lk\<rparr>)))"

definition receiver_decline :: "receiver_session \<Rightarrow> receiver_session" where
  "receiver_decline s =
     (case link_send Decline (se_link s) of
        (Inl e, lk) \<Rightarrow> s\<lparr>se_link := link_end lk, rv_at := VDeclined\<rparr>
      | (Inr j, lk) \<Rightarrow> s\<lparr>se_link := lk, rv_at := VDeclineSend j\<rparr>)"

subsection \<open>Accepting\<close>

definition receive_finally :: "direct_failure option \<Rightarrow> receiver_session \<Rightarrow> receiver_session" where
  "receive_finally outcome s =
     s\<lparr>se_watch := map_option watch_halt (se_watch s), rv_restartTimer := cleared_timer (rv_restartTimer s), rv_at := VDraining outcome\<rparr>"

definition receive_ends :: "thrown \<Rightarrow> receiver_session \<Rightarrow> receiver_session" where
  "receive_ends e s =
     (let k = (case se_failure s of Some f \<Rightarrow> f | None \<Rightarrow> failureForTransfer e)
      in receive_finally (Some k) (drop_end k s))"

text \<open>A sink that was made is aborted first.\<close>

definition receive_throws :: "thrown \<Rightarrow> receiver_session \<Rightarrow> receiver_session" where
  "receive_throws e s = (if rv_sink s then s\<lparr>rv_at := VAborting e\<rparr> else receive_ends e s)"

definition receiver_accept ::
  "unicode \<Rightarrow> (rtc_configuration \<Rightarrow> bool option) \<Rightarrow> ice_server list \<Rightarrow> bool \<Rightarrow> receiver_session \<Rightarrow> receiver_session" where
  "receiver_accept uc ctor ice hide s =
     (case (rv_invite s, rv_manifest s) of
        (Some _, Some (name, sz, type)) \<Rightarrow>
          let s1 = s\<lparr>se_run := Some False\<rparr> in
          (case envelopeBytes uc name type (nat sz) of
             Inl _ \<Rightarrow> receive_throws (ThrownForeign OtherThrown) s1
           | Inr _ \<Rightarrow>
               (case openConnection ctor ice hide of
                  Inl NoRelayError \<Rightarrow> receive_throws (ThrownDirect DNoRelay) s1
                | Inl (ConstructorThrew _) \<Rightarrow> receive_throws (ThrownForeign OtherThrown) s1
                | Inr _ \<Rightarrow> s1\<lparr>se_peer := Some PNew, se_watch := Some (watchConnection PNew), rv_at := VOffering\<rparr>))
      | _ \<Rightarrow> s)"

definition receiver_offered :: "jsstr \<Rightarrow> receiver_session \<Rightarrow> receiver_session" where
  "receiver_offered sdp s =
     (case link_send (Accept sdp) (se_link s) of
        (Inl e, lk) \<Rightarrow> receive_throws e (s\<lparr>se_link := lk\<rparr>)
      | (Inr j, lk) \<Rightarrow> s\<lparr>se_link := lk, rv_at := VAcceptSend j\<rparr>)"

definition receiver_answerRead :: "unicode \<Rightarrow> foreign_error + bytes \<Rightarrow> receiver_session \<Rightarrow> receiver_session" where
  "receiver_answerRead uc res s =
     (case link_read uc None res (se_link s) of
        (Inl k, lk) \<Rightarrow>
          let s1 = s\<lparr>se_link := lk\<rparr> in
          if tells_stop (se_link s) lk then s1\<lparr>rv_at := VAcceptTelling k\<rparr> else receive_throws (ThrownDirect k) s1
      | (Inr (StopMessage r, _), lk) \<Rightarrow> receive_throws (ThrownDirect (failureForPeerStop r)) (s\<lparr>se_link := lk\<rparr>)
      | (Inr (Answer key sdp, _), lk) \<Rightarrow> s\<lparr>se_link := lk, rv_at := VApplying key\<rparr>
      | (Inr _, lk) \<Rightarrow> receive_throws (ThrownDirect DProtocol) (s\<lparr>se_link := lk\<rparr>))"

definition receiver_close :: "receiver_session \<Rightarrow> receiver_session" where
  "receiver_close s = session_close scheduleRestart s"

subsection \<open>Restarts\<close>

text \<open>A restart that is waited for is resolved or rejected; only the last one still has a waiter.\<close>

definition settle_restart :: "nat \<Rightarrow> bool \<Rightarrow> receiver_session \<Rightarrow> receiver_session" where
  "settle_restart n b s = (if n = rv_restartsUsed s \<and> rv_waited s = None then s\<lparr>rv_waited := Some b\<rparr> else s)"

definition reject_pending :: "receiver_session \<Rightarrow> receiver_session" where
  "reject_pending s =
     (case rv_pendingRestart s of
        None \<Rightarrow> s
      | Some (_, n) \<Rightarrow> (settle_restart n False s)\<lparr>rv_pendingRestart := None\<rparr>)"

definition drop_fail :: "direct_failure \<Rightarrow> receiver_session \<Rightarrow> receiver_session" where
  "drop_fail e s = session_fail scheduleRestart e (reject_pending s)"

definition restartIce :: "receiver_session \<Rightarrow> receiver_session" where
  "restartIce s = s\<lparr>rv_queue := rv_queue s + 1\<rparr>"

definition restart_timer_fires :: "receiver_session \<Rightarrow> receiver_session" where
  "restart_timer_fires s =
     (if rv_restartTimer s \<noteq> Armed then s
      else
        let s1 = s\<lparr>rv_restartTimer := NoTimer\<rparr>
        in if rv_restartsUsed s1 < restarts LIMITS then restartIce s1 else s1)"

text \<open>A restart's turn comes: \<open>restartOnce\<close> up to the offer.\<close>

definition restartOnce :: "receiver_session \<Rightarrow> receiver_session" where
  "restartOnce s =
     (if se_peer s = None \<or> se_finished s \<or> lk_ended (se_link s) \<or> se_peer s = Some PClosed then s
      else if rv_restartsUsed s \<ge> restarts LIMITS then s
      else s\<lparr>rv_restartsUsed := rv_restartsUsed s + 1, rv_turn := TurnOffers\<rparr>)"

definition restart_turn_comes :: "receiver_session \<Rightarrow> receiver_session" where
  "restart_turn_comes s =
     (if rv_turn s = NoTurn \<and> 0 < rv_queue s then restartOnce (s\<lparr>rv_queue := rv_queue s - 1\<rparr>) else s)"

definition restart_offered :: "jsstr \<Rightarrow> receiver_session \<Rightarrow> receiver_session" where
  "restart_offered sdp s =
     (let s1 = s\<lparr>rv_pendingRestart := Some (lk_sent (se_link s), rv_restartsUsed s), rv_waited := None\<rparr> in
      (case link_send (Restart sdp) (se_link s) of
         (Inl e, lk) \<Rightarrow> s1\<lparr>se_link := lk, rv_turn := NoTurn\<rparr>
       | (Inr j, lk) \<Rightarrow> s1\<lparr>se_link := lk, rv_turn := TurnSends j\<rparr>))"

definition answers_throw :: "direct_failure \<Rightarrow> receiver_session \<Rightarrow> receiver_session" where
  "answers_throw k s =
     (let s1 = (reject_pending s)\<lparr>rv_answers := AnswersOver\<rparr>
      in if k = DProtocol \<or> k = DUnsupported then drop_fail k s1 else s1)"

definition readAnswers :: "unicode \<Rightarrow> foreign_error + bytes \<Rightarrow> receiver_session \<Rightarrow> receiver_session" where
  "readAnswers uc res s =
     (case link_read uc None res (se_link s) of
        (Inl k, lk) \<Rightarrow>
          let s1 = s\<lparr>se_link := lk\<rparr> in
          if tells_stop (se_link s) lk then s1\<lparr>rv_answers := AnswersTelling k\<rparr> else answers_throw k s1
      | (Inr (m, idx), lk) \<Rightarrow>
          (case (m, rv_pendingRestart s) of
             (StopMessage r, _) \<Rightarrow> drop_fail (failureForPeerStop r) (s\<lparr>se_link := lk, rv_answers := AnswersOver\<rparr>)
           | (RestartAnswer sdp, Some (j, n)) \<Rightarrow>
               if j = idx then s\<lparr>se_link := lk, rv_pendingRestart := None, rv_answers := AnswersApplying n\<rparr>
               else
                 let lk' = link_stop Failed lk; s1 = s\<lparr>se_link := lk'\<rparr> in
                 if tells_stop lk lk' then s1\<lparr>rv_answers := AnswersTelling DProtocol\<rparr> else answers_throw DProtocol s1
           | _ \<Rightarrow>
               let lk' = link_stop Failed lk; s1 = s\<lparr>se_link := lk'\<rparr> in
               if tells_stop lk lk' then s1\<lparr>rv_answers := AnswersTelling DProtocol\<rparr> else answers_throw DProtocol s1))"

subsection \<open>What the exchange has taken\<close>

definition receiver_main_settled :: "nat \<Rightarrow> direct_message \<Rightarrow> foreign_error option \<Rightarrow> receiver_session \<Rightarrow> receiver_session" where
  "receiver_main_settled i m res s =
     (case rv_at s of
        VInviteSend j \<Rightarrow>
          if j \<noteq> i then s
          else (case res of
                  None \<Rightarrow> s\<lparr>rv_at := VInvited\<rparr>
                | Some e \<Rightarrow> receiver_call_throws (ThrownDirect (exchangeFailure (ThrownForeign e))) s)
      | VTelling k \<Rightarrow> if is_stop m then receiver_call_throws (ThrownDirect k) s else s
      | VDeclineSend j \<Rightarrow> if j \<noteq> i then s else s\<lparr>se_link := link_end (se_link s), rv_at := VDeclined\<rparr>
      | VAcceptSend j \<Rightarrow>
          if j \<noteq> i then s
          else (case res of
                  None \<Rightarrow> s\<lparr>rv_at := VReadAnswer\<rparr>
                | Some e \<Rightarrow> receive_throws (ThrownDirect (exchangeFailure (ThrownForeign e))) s)
      | VAcceptTelling k \<Rightarrow> if is_stop m then receive_throws (ThrownDirect k) s else s
      | _ \<Rightarrow> s)"

definition receiver_turn_settled :: "nat \<Rightarrow> foreign_error option \<Rightarrow> receiver_session \<Rightarrow> receiver_session" where
  "receiver_turn_settled i res s =
     (case rv_turn s of
        TurnSends j \<Rightarrow> if j \<noteq> i then s else s\<lparr>rv_turn := (if res = None then TurnWaits else NoTurn)\<rparr>
      | _ \<Rightarrow> s)"

definition receiver_loop_settled :: "direct_message \<Rightarrow> receiver_session \<Rightarrow> receiver_session" where
  "receiver_loop_settled m s =
     (case rv_answers s of AnswersTelling k \<Rightarrow> if is_stop m then answers_throw k s else s | _ \<Rightarrow> s)"

definition receiver_settled :: "foreign_error option \<Rightarrow> receiver_session \<Rightarrow> receiver_session" where
  "receiver_settled res s =
     (case lk_busy (se_link s) of
        None \<Rightarrow> s
      | Some (i, m) \<Rightarrow>
          receiver_loop_settled m (receiver_turn_settled i res
            (receiver_main_settled i m res (s\<lparr>se_link := link_settle (se_link s)\<rparr>))))"

subsection \<open>Events\<close>

datatype receiver_event =
    CallInvitation bool "ice_server list" jsstr int | CallReadManifest | CallDecline | CallAccept "ice_server list" bool
  | ReceiverReads "foreign_error + bytes" | AnswersRead "foreign_error + bytes"
  | PeerOffered jsstr | PeerOfferFails foreign_error | AnswerApplied | AnswerFails foreign_error
  | SinkMade | SinkFails foreign_error | ReceiveChannelOpens | ReceiveChannelFails | ReceiveDone | ReceiveFails transfer_failure
  | ReceiveWatchFailed | SinkAborted | ReceiveDrained
  | RestartIce | RestartClock | RestartTurn | RestartOffered jsstr | RestartOfferFails | RestartApplied bool | RestartTurnEnds
  | ReceiverStop stop_reason bool | ReceiverStopCloses | ReceiverClose | ReceiverPeerState peer_state
  | ReceiverConnectClock | ReceiverFailedClock | ReceiverPump | ReceiverSettled "foreign_error option"

text \<open>One event; as on the page's end, the calls are made in their order and each once.\<close>

fun receiver_step :: "unicode \<Rightarrow> (rtc_configuration \<Rightarrow> bool option) \<Rightarrow> receiver_session \<Rightarrow> receiver_event \<Rightarrow> receiver_session" where
  "receiver_step uc ctor s (CallInvitation hide ice i mx) = (if rv_at s = VNew then receiver_invitation hide ice i mx s else s)"
| "receiver_step uc ctor s CallReadManifest = (if rv_at s = VInvited then s\<lparr>rv_at := VReadManifest\<rparr> else s)"
| "receiver_step uc ctor s CallDecline = (if rv_at s = VManifest then receiver_decline s else s)"
| "receiver_step uc ctor s (CallAccept ice hide) = (if rv_at s = VManifest then receiver_accept uc ctor ice hide s else s)"
| "receiver_step uc ctor s (ReceiverReads res) =
     (if rv_at s = VReadManifest then receiver_readManifest uc res s
      else if rv_at s = VReadAnswer then receiver_answerRead uc res s else s)"
| "receiver_step uc ctor s (AnswersRead res) = (if rv_answers s = AnswersReading then readAnswers uc res s else s)"
| "receiver_step uc ctor s (PeerOffered sdp) = (if rv_at s = VOffering then receiver_offered sdp s else s)"
| "receiver_step uc ctor s (PeerOfferFails e) = (if rv_at s = VOffering then receive_throws (ThrownForeign e) s else s)"
| "receiver_step uc ctor s AnswerApplied = (case rv_at s of VApplying _ \<Rightarrow> s\<lparr>rv_at := VMakingSink\<rparr> | _ \<Rightarrow> s)"
| "receiver_step uc ctor s (AnswerFails e) = (case rv_at s of VApplying _ \<Rightarrow> receive_throws (ThrownForeign e) s | _ \<Rightarrow> s)"
| "receiver_step uc ctor s SinkMade =
     (if rv_at s = VMakingSink then s\<lparr>rv_sink := True, rv_answers := AnswersReading, rv_at := VChannel\<rparr> else s)"
| "receiver_step uc ctor s (SinkFails e) = (if rv_at s = VMakingSink then receive_throws (ThrownForeign e) s else s)"
| "receiver_step uc ctor s ReceiveChannelOpens = (if rv_at s = VChannel then s\<lparr>se_channel := True, rv_at := VReceiving\<rparr> else s)"
| "receiver_step uc ctor s ReceiveChannelFails = (if rv_at s = VChannel then receive_throws (ThrownForeign OtherThrown) s else s)"
| "receiver_step uc ctor s ReceiveDone =
     (if rv_at s = VReceiving then receive_finally None (s\<lparr>se_finished := True\<rparr>) else s)"
| "receiver_step uc ctor s (ReceiveFails e) = (if rv_at s = VReceiving then receive_throws (ThrownTransfer e) s else s)"
| "receiver_step uc ctor s ReceiveWatchFailed =
     (case se_watchFailed s of
        Some k \<Rightarrow> if rv_at s \<in> {VChannel, VReceiving} then receive_throws (ThrownDirect k) s else s
      | None \<Rightarrow> s)"
| "receiver_step uc ctor s SinkAborted = (case rv_at s of VAborting e \<Rightarrow> receive_ends e s | _ \<Rightarrow> s)"
| "receiver_step uc ctor s ReceiveDrained =
     (case rv_at s of VDraining outcome \<Rightarrow> (receiver_close s)\<lparr>rv_at := VOver outcome\<rparr> | _ \<Rightarrow> s)"
| "receiver_step uc ctor s RestartIce = restartIce s"
| "receiver_step uc ctor s RestartClock = restart_timer_fires s"
| "receiver_step uc ctor s RestartTurn = restart_turn_comes s"
| "receiver_step uc ctor s (RestartOffered sdp) = (if rv_turn s = TurnOffers then restart_offered sdp s else s)"
| "receiver_step uc ctor s RestartOfferFails = (if rv_turn s = TurnOffers then s\<lparr>rv_turn := NoTurn\<rparr> else s)"
| "receiver_step uc ctor s (RestartApplied b) =
     (case rv_answers s of AnswersApplying n \<Rightarrow> (settle_restart n b s)\<lparr>rv_answers := AnswersReading\<rparr> | _ \<Rightarrow> s)"
| "receiver_step uc ctor s RestartTurnEnds =
     (if rv_turn s = TurnWaits \<and> rv_waited s \<noteq> None then s\<lparr>rv_turn := NoTurn\<rparr> else s)"
| "receiver_step uc ctor s (ReceiverStop reason immediate) = session_stop scheduleRestart reason immediate s"
| "receiver_step uc ctor s ReceiverStopCloses = session_stop_closes scheduleRestart s"
| "receiver_step uc ctor s ReceiverClose = receiver_close s"
| "receiver_step uc ctor s (ReceiverPeerState st) = session_peer_state scheduleRestart st s"
| "receiver_step uc ctor s ReceiverConnectClock = session_timer scheduleRestart ConnectTimer s"
| "receiver_step uc ctor s ReceiverFailedClock = session_timer scheduleRestart FailedTimer s"
| "receiver_step uc ctor s ReceiverPump = session_pump s"
| "receiver_step uc ctor s (ReceiverSettled res) = receiver_settled res s"

definition receiver_run :: "unicode \<Rightarrow> (rtc_configuration \<Rightarrow> bool option) \<Rightarrow> receiver_event list \<Rightarrow> receiver_session" where
  "receiver_run uc ctor es = foldl (receiver_step uc ctor) drop_start es"

subsection \<open>The table of events and the restarts\<close>

definition receiver_kept where
  "receiver_kept s = (rv_at s, rv_turn s, rv_restartsUsed s, se_finished s)"

interpretation rh: session_hook scheduleRestart receiver_kept
  by unfold_locales (simp_all add: scheduleRestart_def receiver_kept_def)

text \<open>How many messages the running call has sent by now, while the accept is not among them.\<close>

fun sent_of :: "receiver_at \<Rightarrow> nat option" where
  "sent_of VNew = Some 0"
| "sent_of (VInviteSend _) = Some 1"
| "sent_of VInvited = Some 1"
| "sent_of VReadManifest = Some 1"
| "sent_of VManifest = Some 1"
| "sent_of VOffering = Some 1"
| "sent_of _ = None"

definition receiver_ok :: "receiver_session \<Rightarrow> bool" where
  "receiver_ok s \<longleftrightarrow> keeps_table Drop (se_link s) \<and>
     (\<forall>n. sent_of (rv_at s) = Some n \<longrightarrow> lk_stopped (se_link s) \<or> lk_sent (se_link s) = n) \<and>
     rv_restartsUsed s \<le> 5 \<and> (lk_stopped (se_link s) \<or> lk_sent (se_link s) \<le> 2 + rv_restartsUsed s) \<and>
     (rv_turn s = TurnOffers \<longrightarrow> 1 \<le> rv_restartsUsed s \<and>
        (lk_stopped (se_link s) \<or> 2 \<le> lk_sent (se_link s) \<and> lk_sent (se_link s) \<le> 1 + rv_restartsUsed s))"

text \<open>Before there is a peer.\<close>

definition early :: "receiver_at \<Rightarrow> bool" where
  "early a \<longleftrightarrow> sent_of a \<noteq> None \<and> a \<noteq> VOffering"

text \<open>A step that takes no message but a stop.\<close>

definition mild :: "receiver_session \<Rightarrow> receiver_session \<Rightarrow> bool" where
  "mild s t \<longleftrightarrow> adds_stop (se_link s) (se_link t) \<and> quiet (se_link s) (se_link t) \<and>
     (sent_of (rv_at t) = sent_of (rv_at s) \<or> sent_of (rv_at t) = None) \<and> rv_restartsUsed t = rv_restartsUsed s \<and>
     (rv_turn t = rv_turn s \<or> rv_turn t \<noteq> TurnOffers) \<and>
     (early (rv_at t) \<longrightarrow> early (rv_at s) \<and> (se_peer s = None \<longrightarrow> se_peer t = None)) \<and>
     (se_peer s = None \<longrightarrow> se_peer t = None \<or> sent_of (rv_at s) = Some 1)"

lemma early_simps [simp]:
  "early VNew" "early (VInviteSend n)" "early VInvited" "early VReadManifest" "early VManifest" "\<not> early VOffering"
  "sent_of a = None \<Longrightarrow> \<not> early a"
  by (simp_all add: early_def)

lemma mild_ok: "receiver_ok s \<Longrightarrow> mild s t \<Longrightarrow> receiver_ok t"
  using adds_stop_keeps[of "se_link s" "se_link t" Drop] by (auto simp: receiver_ok_def mild_def quiet_def)

lemma mild_refl [simp]: "mild s s"
  by (simp add: mild_def)

lemma mild_trans:
  assumes "mild s t" "mild t u"
  shows "mild s u"
proof -
  have st: "adds_stop (se_link s) (se_link t)" "quiet (se_link s) (se_link t)" "sent_of (rv_at t) = sent_of (rv_at s) \<or> sent_of (rv_at t) = None"
    "rv_restartsUsed t = rv_restartsUsed s" "rv_turn t = rv_turn s \<or> rv_turn t \<noteq> TurnOffers"
    "early (rv_at t) \<longrightarrow> early (rv_at s) \<and> (se_peer s = None \<longrightarrow> se_peer t = None)"
    "se_peer s = None \<longrightarrow> se_peer t = None \<or> sent_of (rv_at s) = Some 1" using assms(1) by (simp_all add: mild_def)
  have tu: "adds_stop (se_link t) (se_link u)" "quiet (se_link t) (se_link u)" "sent_of (rv_at u) = sent_of (rv_at t) \<or> sent_of (rv_at u) = None"
    "rv_restartsUsed u = rv_restartsUsed t" "rv_turn u = rv_turn t \<or> rv_turn u \<noteq> TurnOffers"
    "early (rv_at u) \<longrightarrow> early (rv_at t) \<and> (se_peer t = None \<longrightarrow> se_peer u = None)"
    "se_peer t = None \<longrightarrow> se_peer u = None \<or> sent_of (rv_at t) = Some 1" using assms(2) by (simp_all add: mild_def)
  have "adds_stop (se_link s) (se_link u)" by (rule adds_stop_trans[OF st(1) tu(1)])
  moreover have "quiet (se_link s) (se_link u)" using st(2) tu(2) by (auto simp: quiet_def)
  moreover have "sent_of (rv_at u) = sent_of (rv_at s) \<or> sent_of (rv_at u) = None" using st(3) tu(3) by auto
  moreover have "rv_turn u = rv_turn s \<or> rv_turn u \<noteq> TurnOffers" using st(5) tu(5) by auto
  moreover have "early (rv_at u) \<longrightarrow> early (rv_at s) \<and> (se_peer s = None \<longrightarrow> se_peer u = None)" using st(6) tu(6) by blast
  moreover have "se_peer s = None \<longrightarrow> se_peer u = None \<or> sent_of (rv_at s) = Some 1" using st(3,7) tu(7) by auto
  ultimately show ?thesis using st(4) tu(4) by (simp add: mild_def)
qed

lemma mild_marks [simp]:
  "mild s (t\<lparr>rv_answers := a\<rparr>) = mild s t" "mild s (t\<lparr>rv_pendingRestart := p\<rparr>) = mild s t" "mild s (t\<lparr>rv_waited := w\<rparr>) = mild s t"
  "mild s (t\<lparr>rv_queue := n\<rparr>) = mild s t" "mild s (t\<lparr>rv_restartTimer := x\<rparr>) = mild s t" "mild s (t\<lparr>rv_sink := b\<rparr>) = mild s t"
  "mild s (t\<lparr>se_run := r\<rparr>) = mild s t" "mild s (t\<lparr>se_watch := wa\<rparr>) = mild s t"
  "mild s (t\<lparr>se_channel := b\<rparr>) = mild s t" "mild s (t\<lparr>se_finished := b\<rparr>) = mild s t" "mild s (t\<lparr>rv_manifest := mf\<rparr>) = mild s t"
  "mild s (t\<lparr>rv_invite := iv\<rparr>) = mild s t"
  by (simp_all add: mild_def)

lemma mild_at: "mild s t \<Longrightarrow> sent_of a = None \<Longrightarrow> mild s (t\<lparr>rv_at := a\<rparr>)"
  by (auto simp: mild_def)

lemma mild_turn: "mild s t \<Longrightarrow> u \<noteq> TurnOffers \<Longrightarrow> mild s (t\<lparr>rv_turn := u\<rparr>)"
  by (auto simp: mild_def)

lemma mild_kept:
  assumes "rh.ends_at_most s t"
  shows "mild s t"
  using assms by (auto simp: mild_def rh.ends_at_most_def receiver_kept_def quiet_def end_quiet)

lemma mild_link: "adds_stop (se_link s) lk \<Longrightarrow> quiet (se_link s) lk \<Longrightarrow> mild s (s\<lparr>se_link := lk\<rparr>)"
  by (simp add: mild_def)

lemma mild_receiver_end: "mild s (drop_end k s)"
  using stop_quiet(2)[of "se_link s"] by (auto simp: mild_def drop_end_def)

lemma mild_call_throws: "mild s (receiver_call_throws e s)"
  by (simp add: receiver_call_throws_def Let_def mild_at mild_receiver_end)

lemma mild_finally: "mild s t \<Longrightarrow> mild s (receive_finally outcome t)"
  by (simp add: receive_finally_def mild_at)

lemma mild_receive_ends: "mild s (receive_ends e s)"
  by (simp add: receive_ends_def Let_def mild_finally mild_receiver_end)

lemma mild_receive_throws: "mild s (receive_throws e s)"
  by (simp add: receive_throws_def mild_receive_ends mild_at)

lemma mild_read:
  assumes "link_read uc mx res (se_link s) = (r, lk)"
  shows "mild s (s\<lparr>se_link := lk\<rparr>)"
  using adds_stop_read[of "se_link s" uc mx res] read_quiet[of "se_link s" uc mx res] assms by (simp add: mild_link)

lemma mild_stop_link: "mild s (s\<lparr>se_link := link_stop r (se_link s)\<rparr>)"
  by (rule mild_link) (simp_all add: stop_quiet)

lemma mild_end_link: "mild s (s\<lparr>se_link := link_end (se_link s)\<rparr>)"
  by (rule mild_link) (simp_all add: end_quiet)

lemma mild_reject: "mild s (reject_pending s)"
  by (auto simp: reject_pending_def settle_restart_def split: option.splits)

lemma mild_fail: "mild s (drop_fail e s)"
  unfolding drop_fail_def by (rule mild_trans[OF mild_reject mild_kept[OF rh.fail_keeps]])

lemma mild_answers_throw: "mild s (answers_throw k s)"
proof -
  have "mild s ((reject_pending s)\<lparr>rv_answers := AnswersOver\<rparr>)" by (simp add: mild_reject)
  then show ?thesis using mild_trans[OF _ mild_fail] by (simp add: answers_throw_def Let_def)
qed

text \<open>Continuing from a link that was read.\<close>

lemma mild_readManifest: "rv_at s = VReadManifest \<Longrightarrow> mild s (receiver_readManifest uc res s)"
proof (cases "rv_invite s")
  case (Some v)
  assume at: "rv_at s = VReadManifest"
  obtain h ice i mx where v: "v = (h, ice, i, mx)" by (cases v)
  obtain r lk where rd: "link_read uc (Some mx) res (se_link s) = (r, lk)" by (cases "link_read uc (Some mx) res (se_link s)")
  note throws = mild_trans[OF mild_read[OF rd] mild_call_throws]
  have got: "mild s (s\<lparr>se_link := lk, rv_manifest := mf, rv_at := VManifest\<rparr>)" for mf using at mild_read[OF rd] by (simp add: mild_def)
  show ?thesis
  proof (cases r)
    case (Inl k)
    then show ?thesis using rd v Some throws mild_at[OF mild_read[OF rd]] by (simp add: receiver_readManifest_def Let_def)
  next
    case (Inr mi)
    obtain m j where "mi = (m, j)" by (cases mi)
    then show ?thesis using rd v Some Inr throws got by (cases m) (simp_all add: receiver_readManifest_def)
  qed
qed (simp add: receiver_readManifest_def)

lemma mild_answerRead: "mild s (receiver_answerRead uc res s)"
proof -
  obtain r lk where rd: "link_read uc None res (se_link s) = (r, lk)" by (cases "link_read uc None res (se_link s)")
  note throws = mild_trans[OF mild_read[OF rd] mild_receive_throws]
  show ?thesis
  proof (cases r)
    case (Inl k)
    then show ?thesis using rd throws mild_at[OF mild_read[OF rd]] by (simp add: receiver_answerRead_def Let_def)
  next
    case (Inr mi)
    obtain m j where "mi = (m, j)" by (cases mi)
    then show ?thesis using rd Inr throws mild_at[OF mild_read[OF rd]] by (cases m) (simp_all add: receiver_answerRead_def)
  qed
qed

lemma mild_readAnswers: "mild s (readAnswers uc res s)"
proof -
  obtain r lk where rd: "link_read uc None res (se_link s) = (r, lk)" by (cases "link_read uc None res (se_link s)")
  note read = mild_read[OF rd]
  have stopped: "mild s (s\<lparr>se_link := link_stop Failed lk\<rparr>)" using mild_trans[OF read mild_stop_link[of "s\<lparr>se_link := lk\<rparr>" Failed]] by simp
  have fails: "mild s (drop_fail k (s\<lparr>se_link := lk, rv_answers := AnswersOver\<rparr>))" for k
    by (rule mild_trans[OF _ mild_fail]) (simp add: read)
  note throws = mild_trans[OF read mild_answers_throw] mild_trans[OF stopped mild_answers_throw]
  show ?thesis
  proof (cases r)
    case (Inl k)
    then show ?thesis using rd read throws(1) by (simp add: readAnswers_def Let_def)
  next
    case (Inr mi)
    obtain m j where "mi = (m, j)" by (cases mi)
    then show ?thesis using rd Inr read stopped fails throws
      by (cases m) (simp_all add: readAnswers_def Let_def split: option.splits prod.splits)
  qed
qed

lemma mild_accept: "rv_at s = VManifest \<Longrightarrow> mild s (receiver_accept uc ctor ice hide s)"
proof -
  assume at: "rv_at s = VManifest"
  have t: "mild s (receive_throws e (s\<lparr>se_run := Some False\<rparr>))" for e by (rule mild_trans[OF _ mild_receive_throws]) simp
  have o: "mild s (s\<lparr>se_run := Some False, se_peer := pe, se_watch := w, rv_at := VOffering\<rparr>)" for pe w using at by (simp add: mild_def)
  show ?thesis
  proof (cases "rv_invite s = None \<or> rv_manifest s = None")
    case False
    then obtain iv name sz type where d: "rv_invite s = Some iv" "rv_manifest s = Some (name, sz, type)" by auto
    show ?thesis
    proof (cases "openConnection ctor ice hide")
      case (Inl e)
      then show ?thesis using t d by (cases e; cases "envelopeBytes uc name type (nat sz)") (simp_all add: receiver_accept_def Let_def)
    next
      case (Inr c)
      then show ?thesis using t o d by (cases "envelopeBytes uc name type (nat sz)") (simp_all add: receiver_accept_def Let_def)
    qed
  qed (auto simp: receiver_accept_def split: option.splits)
qed

text \<open>The messages an end takes: one more than before, where the table allows it.\<close>

lemma receiver_sends:
  assumes "receiver_ok s" "\<not> is_stop m" "link_send m (se_link s) = (r, lk)"
    "\<not> lk_stopped (se_link s) \<Longrightarrow> table_allows Drop (lk_sent (se_link s)) m"
  shows "keeps_table Drop lk" "isl r \<Longrightarrow> lk = se_link s"
    "\<not> isl r \<Longrightarrow> \<not> lk_stopped (se_link s) \<and> \<not> lk_stopped lk \<and> lk_sent lk = lk_sent (se_link s) + 1"
proof -
  show "keeps_table Drop lk" using keeps_send[of Drop "se_link s" m] assms by (simp add: receiver_ok_def)
  show "isl r \<Longrightarrow> lk = se_link s" using assms(3) send_quiet by (cases r) auto
  show "\<not> isl r \<Longrightarrow> \<not> lk_stopped (se_link s) \<and> \<not> lk_stopped lk \<and> lk_sent lk = lk_sent (se_link s) + 1"
  proof (cases r)
    case (Inr j)
    note tk = send_takes[OF assms(3)[unfolded Inr]]
    show ?thesis using tk(5)[OF assms(2)] tk(2,3) by simp
  qed simp
qed

lemma ok_invitation:
  assumes "receiver_ok s" "rv_at s = VNew"
  shows "receiver_ok (receiver_invitation hide ice i mx s)"
proof -
  obtain r lk where sd: "link_send (Invite hide ice i mx) (se_link s) = (r, lk)" by (cases "link_send (Invite hide ice i mx) (se_link s)")
  have n: "lk_stopped (se_link s) \<or> lk_sent (se_link s) = 0" using assms(1,2) by (auto simp: receiver_ok_def)
  then have "\<not> lk_stopped (se_link s) \<Longrightarrow> table_allows Drop (lk_sent (se_link s)) (Invite hide ice i mx)"
    by (auto simp: table_allows_def allowedEvents_def)
  note sent = receiver_sends[OF assms(1) _ sd this, simplified]
  show ?thesis
  proof (cases r)
    case (Inl e)
    have "mild s (receiver_call_throws e (s\<lparr>rv_invite := Some (hide, ice, i, mx), se_link := lk\<rparr>))"
      by (rule mild_trans[OF _ mild_call_throws]) (use sent(2) Inl in \<open>simp add: mild_def\<close>)
    then show ?thesis using mild_ok[OF assms(1)] sd Inl by (simp add: receiver_invitation_def Let_def)
  next
    case (Inr j)
    then show ?thesis using sent sd n assms by (auto simp: receiver_invitation_def receiver_ok_def)
  qed
qed

lemma ok_decline:
  assumes "receiver_ok s" "rv_at s = VManifest"
  shows "receiver_ok (receiver_decline s)"
proof -
  obtain r lk where sd: "link_send Decline (se_link s) = (r, lk)" by (cases "link_send Decline (se_link s)")
  have n: "lk_stopped (se_link s) \<or> lk_sent (se_link s) = 1" using assms(1,2) by (auto simp: receiver_ok_def)
  then have "\<not> lk_stopped (se_link s) \<Longrightarrow> table_allows Drop (lk_sent (se_link s)) Decline" by (auto simp: table_allows_def allowedEvents_def)
  note sent = receiver_sends[OF assms(1) _ sd this, simplified]
  show ?thesis
  proof (cases r)
    case (Inl e)
    then have "mild s (receiver_decline s)" using sent(2) sd mild_at[OF mild_end_link] by (simp add: receiver_decline_def)
    then show ?thesis by (rule mild_ok[OF assms(1)])
  next
    case (Inr j)
    then show ?thesis using sent sd n assms by (auto simp: receiver_decline_def receiver_ok_def)
  qed
qed

lemma ok_offered:
  assumes "receiver_ok s" "rv_at s = VOffering"
  shows "receiver_ok (receiver_offered sdp s)"
proof -
  obtain r lk where sd: "link_send (Accept sdp) (se_link s) = (r, lk)" by (cases "link_send (Accept sdp) (se_link s)")
  have n: "lk_stopped (se_link s) \<or> lk_sent (se_link s) = 1" using assms by (auto simp: receiver_ok_def)
  then have "\<not> lk_stopped (se_link s) \<Longrightarrow> table_allows Drop (lk_sent (se_link s)) (Accept sdp)" by (auto simp: table_allows_def allowedEvents_def)
  note sent = receiver_sends[OF assms(1) _ sd this, simplified]
  show ?thesis
  proof (cases r)
    case (Inl e)
    then show ?thesis using mild_ok[OF assms(1) mild_receive_throws] sent(2) sd by (simp add: receiver_offered_def)
  next
    case (Inr j)
    then show ?thesis using sent sd n assms by (auto simp: receiver_offered_def receiver_ok_def)
  qed
qed

lemma ok_restart_offered:
  assumes "receiver_ok s" "rv_turn s = TurnOffers"
  shows "receiver_ok (restart_offered sdp s)"
proof -
  obtain r lk where sd: "link_send (Restart sdp) (se_link s) = (r, lk)" by (cases "link_send (Restart sdp) (se_link s)")
  have n: "lk_stopped (se_link s) \<or> 2 \<le> lk_sent (se_link s) \<and> lk_sent (se_link s) \<le> 1 + rv_restartsUsed s" "rv_restartsUsed s \<le> 5"
    using assms by (auto simp: receiver_ok_def)
  then have "\<not> lk_stopped (se_link s) \<Longrightarrow> table_allows Drop (lk_sent (se_link s)) (Restart sdp)" by (auto simp: table_allows_def allowedEvents_def)
  note sent = receiver_sends[OF assms(1) _ sd this, simplified]
  have early: "\<not> lk_stopped (se_link s) \<Longrightarrow> sent_of (rv_at s) = None" using n(1) assms(1) by (cases "rv_at s") (auto simp: receiver_ok_def)
  show ?thesis
  proof (cases r)
    case (Inl e)
    then have "mild s (restart_offered sdp s)" using sent(2) sd by (simp add: restart_offered_def mild_def)
    then show ?thesis by (rule mild_ok[OF assms(1)])
  next
    case (Inr j)
    then show ?thesis using sent sd n assms early by (simp add: restart_offered_def receiver_ok_def)
  qed
qed

text \<open>Whether the accept has been taken by the link.\<close>

definition accept_out :: "receiver_session \<Rightarrow> bool" where
  "accept_out s \<longleftrightarrow> list_ex (\<lambda>(i, m). i = 1 \<and> event_name m = ''accept'') (link_log (se_link s))"

lemma accept_out_sent:
  assumes "receiver_ok s" "accept_out s"
  shows "2 \<le> lk_sent (se_link s)"
proof -
  obtain x where "x \<in> set (link_log (se_link s))" "fst x = 1" using assms(2) by (auto simp: accept_out_def list_ex_iff)
  then have "1 \<in> set (map fst (link_log (se_link s)))" by (metis image_eqI list.set_map)
  moreover have "map fst (link_log (se_link s)) = [0..<lk_sent (se_link s)]" using assms(1) by (simp add: receiver_ok_def keeps_table_def link_ok_def)
  ultimately show ?thesis by simp
qed

lemma ok_turn_comes:
  assumes "receiver_ok s" "accept_out s"
  shows "receiver_ok (restart_turn_comes s)"
proof -
  have b: "receiver_ok (s\<lparr>rv_queue := q\<rparr>)" for q using mild_ok[OF assms(1)] by simp
  have "rv_restartsUsed s < 5 \<Longrightarrow> receiver_ok (s\<lparr>rv_queue := q, rv_restartsUsed := rv_restartsUsed s + 1, rv_turn := TurnOffers\<rparr>)" for q
    using assms(1) accept_out_sent[OF assms] unfolding receiver_ok_def by simp linarith
  then show ?thesis using b assms(1) by (simp add: restart_turn_comes_def restartOnce_def)
qed

lemma mild_main_settled: "mild s (receiver_main_settled i m res s)"
proof -
  have "mild s (s\<lparr>se_link := link_end (se_link s), rv_at := VDeclined\<rparr>)" by (simp add: mild_at mild_end_link)
  then show ?thesis using mild_call_throws mild_receive_throws
    by (cases "rv_at s"; cases res) (simp_all add: receiver_main_settled_def mild_at, simp add: mild_def)
qed

lemma mild_turn_settled: "mild s (receiver_turn_settled i res s)"
  by (cases "rv_turn s") (simp_all add: receiver_turn_settled_def mild_turn)

lemma mild_loop_settled: "mild s (receiver_loop_settled m s)"
  by (cases "rv_answers s") (simp_all add: receiver_loop_settled_def mild_answers_throw)

lemma mild_settled: "mild s (receiver_settled res s)"
proof (cases "lk_busy (se_link s)")
  case (Some im)
  obtain i m where im: "im = (i, m)" by (cases im)
  have "mild s (s\<lparr>se_link := link_settle (se_link s)\<rparr>)"
    by (rule mild_link) (simp_all add: quiet_def settle_quiet)
  from mild_trans[OF this mild_trans[OF mild_main_settled mild_trans[OF mild_turn_settled mild_loop_settled]]]
  show ?thesis using Some im by (simp add: receiver_settled_def)
qed (simp add: receiver_settled_def)

lemma mild_stop: "mild s (session_stop scheduleRestart r imm s)"
proof -
  have "adds_stop (se_link s) (link_end (link_stop r (se_link s)))" by (rule adds_stop_trans[OF adds_stop_ops(1) adds_stop_ops(2)])
  then show ?thesis using rh.stop_keeps(1,2)[of r imm s] rh.stop_keeps(3)[of s r imm] stop_quiet(2)[of "se_link s" r]
    by (auto simp: mild_def receiver_kept_def quiet_def end_quiet)
qed

lemma mild_restart_clock: "mild s (restart_timer_fires s)"
  by (simp add: restart_timer_fires_def Let_def restartIce_def)

text \<open>Every step is mild but those that may take a message and the turn of a restart.\<close>

fun takes_message :: "receiver_event \<Rightarrow> bool" where
  "takes_message (CallInvitation hide ice i mx) = True"
| "takes_message CallDecline = True"
| "takes_message (PeerOffered sdp) = True"
| "takes_message (RestartOffered sdp) = True"
| "takes_message RestartTurn = True"
| "takes_message e = False"

lemma mild_step:
  assumes "\<not> takes_message e"
  shows "mild s (receiver_step uc ctor s e)"
proof -
  have sink: "rv_at s = VMakingSink \<Longrightarrow> mild s (s\<lparr>rv_sink := True, rv_answers := AnswersReading, rv_at := VChannel\<rparr>)"
    "mild s (s\<lparr>se_channel := True, rv_at := VReceiving\<rparr>)" by (simp_all add: mild_at)
  have fin: "mild s (receive_finally None (s\<lparr>se_finished := True\<rparr>))" by (simp add: mild_finally)
  have pump: "mild s (session_pump s)" unfolding session_pump_def by (rule mild_link) (simp_all add: quiet_def pump_quiet)
  have applied: "mild s ((settle_restart n b s)\<lparr>rv_answers := AnswersReading\<rparr>)" for n b by (simp add: settle_restart_def)
  have over: "mild s ((receiver_close s)\<lparr>rv_at := VOver outcome\<rparr>)" for outcome
    unfolding receiver_close_def by (simp add: mild_at mild_kept[OF rh.close_ends])
  note session = mild_kept[OF rh.stop_closes_keeps] mild_kept[OF rh.close_ends] mild_kept[OF rh.peer_state_keeps]
    mild_kept[OF rh.timer_keeps] mild_stop pump mild_settled
  show ?thesis
  proof (cases e)
    case (AnswerFails x)
    then show ?thesis using mild_receive_throws by (cases "rv_at s") simp_all
  next
    case AnswerApplied
    then show ?thesis by (cases "rv_at s") (simp_all add: mild_at)
  next
    case SinkAborted
    then show ?thesis using mild_receive_ends by (cases "rv_at s") simp_all
  next
    case ReceiveDrained
    then show ?thesis using over by (cases "rv_at s") simp_all
  next
    case (RestartApplied b)
    then show ?thesis using applied by (cases "rv_answers s") simp_all
  next
    case ReceiveWatchFailed
    then show ?thesis using mild_receive_throws by (simp split: option.splits)
  next
    case CallReadManifest
    then show ?thesis by (simp add: mild_def)
  qed (use assms mild_receive_throws session sink fin mild_accept mild_readManifest mild_answerRead mild_readAnswers mild_restart_clock
      in \<open>simp_all add: receiver_close_def restartIce_def mild_turn\<close>)
qed

subsection \<open>Whatever restarts are asked for\<close>

text \<open>
  \<open>restartIce\<close> may be called, and a restart may have its turn, while \<open>accept\<close> still waits for the
  offer: the restart is then message 1, ahead of the accept.
\<close>

definition restart_first :: "link \<Rightarrow> bool" where
  "restart_first lk \<longleftrightarrow> list_ex (\<lambda>(i, m). i = 1 \<and> event_name m = ''restart'') (link_log lk)"

definition in_table :: "link \<Rightarrow> bool" where
  "in_table lk \<longleftrightarrow> (\<forall>x \<in> set (link_log lk). table_allows Drop (fst x) (snd x) \<or> 1 \<le> fst x \<and> restart_first lk)"

definition call_messages :: "receiver_at \<Rightarrow> nat" where
  "call_messages a = (case sent_of a of Some n \<Rightarrow> n | None \<Rightarrow> 2)"

text \<open>The messages the calls have sent and the restarts that were started are all there is but a stop.\<close>

definition drop_ok :: "receiver_session \<Rightarrow> bool" where
  "drop_ok s \<longleftrightarrow> lk_us (se_link s) = Drop \<and> link_ok (se_link s) \<and> in_table (se_link s) \<and> rv_restartsUsed s \<le> 5 \<and>
     (early (rv_at s) \<longrightarrow> se_peer s = None \<and> rv_restartsUsed s = 0 \<and> rv_turn s \<noteq> TurnOffers) \<and>
     (lk_stopped (se_link s) \<or>
       lk_sent (se_link s) + (if rv_turn s = TurnOffers then 1 else 0) \<le> call_messages (rv_at s) + rv_restartsUsed s \<and>
       (early (rv_at s) \<longrightarrow> lk_sent (se_link s) = call_messages (rv_at s)) \<and>
       (rv_at s = VOffering \<or> rv_turn s = TurnOffers \<or> se_peer s \<noteq> None \<longrightarrow> 1 \<le> lk_sent (se_link s)) \<and>
       (rv_at s = VOffering \<and> 2 \<le> lk_sent (se_link s) \<longrightarrow> restart_first (se_link s)))"

lemma restart_first_adds: "adds_stop lk lk' \<Longrightarrow> restart_first lk \<Longrightarrow> restart_first lk'"
  by (auto simp: restart_first_def adds_stop_def list_ex_iff)

lemma in_table_adds: "adds_stop lk lk' \<Longrightarrow> link_ok lk \<Longrightarrow> in_table lk \<Longrightarrow> in_table lk'"
proof -
  assume a: "adds_stop lk lk'" "link_ok lk" "in_table lk"
  have "table_allows Drop (fst x) (snd x)" if x: "x \<in> set (link_log lk')" "x \<notin> set (link_log lk)" for x
  proof -
    have "is_stop (snd x)" using x a(1) by (simp add: adds_stop_def)
    then obtain i r where "x = (i, StopMessage r)" by (cases x; cases "snd x") simp_all
    moreover have "fst x < 8" using taken_index[OF _ x(1)] a by (simp add: adds_stop_def)
    ultimately show ?thesis by (simp add: stop_allowed)
  qed
  then show ?thesis using a(3) restart_first_adds[OF a(1)] unfolding in_table_def by blast
qed

lemma mild_drop_ok:
  assumes "drop_ok s" "mild s t"
  shows "drop_ok t"
proof -
  have l: "adds_stop (se_link s) (se_link t)" "lk_stopped (se_link t) \<or> \<not> lk_stopped (se_link s) \<and> lk_sent (se_link t) = lk_sent (se_link s)"
    using assms(2) by (auto simp: mild_def quiet_def)
  have at: "sent_of (rv_at t) = sent_of (rv_at s) \<or> sent_of (rv_at t) = None" "early (rv_at t) \<Longrightarrow> early (rv_at s)"
    "rv_restartsUsed t = rv_restartsUsed s" "rv_turn t = TurnOffers \<Longrightarrow> rv_turn s = TurnOffers"
    "early (rv_at t) \<Longrightarrow> se_peer s = None \<Longrightarrow> se_peer t = None" "se_peer t \<noteq> None \<Longrightarrow> se_peer s = None \<Longrightarrow> sent_of (rv_at s) = Some 1"
    using assms(2) by (auto simp: mild_def)
  have cm: "call_messages (rv_at s) \<le> call_messages (rv_at t)" using at(1) by (cases "rv_at s") (auto simp: call_messages_def)
  have one: "1 \<le> lk_sent (se_link s) \<and> (rv_at s \<noteq> VOffering \<longrightarrow> lk_sent (se_link s) = 1)"
    if "sent_of (rv_at s) = Some 1" "\<not> lk_stopped (se_link s)"
    using assms(1) that by (cases "rv_at s = VOffering") (auto simp: drop_ok_def early_def call_messages_def)
  have rest: "lk_sent (se_link t) + (if rv_turn t = TurnOffers then 1 else 0) \<le> call_messages (rv_at t) + rv_restartsUsed t"
    "early (rv_at t) \<longrightarrow> lk_sent (se_link t) = call_messages (rv_at t)"
    "rv_at t = VOffering \<or> rv_turn t = TurnOffers \<or> se_peer t \<noteq> None \<longrightarrow> 1 \<le> lk_sent (se_link t)"
    "rv_at t = VOffering \<and> 2 \<le> lk_sent (se_link t) \<longrightarrow> restart_first (se_link t)" if ns: "\<not> lk_stopped (se_link t)"
  proof -
    have s: "\<not> lk_stopped (se_link s)" "lk_sent (se_link t) = lk_sent (se_link s)" using ns l(2) by auto
    then have d: "lk_sent (se_link s) + (if rv_turn s = TurnOffers then 1 else 0) \<le> call_messages (rv_at s) + rv_restartsUsed s"
      "early (rv_at s) \<Longrightarrow> lk_sent (se_link s) = call_messages (rv_at s)"
      "rv_turn s = TurnOffers \<or> se_peer s \<noteq> None \<Longrightarrow> 1 \<le> lk_sent (se_link s)"
      "rv_at s = VOffering \<Longrightarrow> 2 \<le> lk_sent (se_link s) \<Longrightarrow> restart_first (se_link s)" using assms(1) by (auto simp: drop_ok_def)
    have offering: "rv_at t = VOffering \<Longrightarrow> sent_of (rv_at s) = Some 1" using at(1) by auto
    show "lk_sent (se_link t) + (if rv_turn t = TurnOffers then 1 else 0) \<le> call_messages (rv_at t) + rv_restartsUsed t"
      using d(1) cm at(3,4) s(2) by (auto split: if_splits)
    show "early (rv_at t) \<longrightarrow> lk_sent (se_link t) = call_messages (rv_at t)"
      using d(2) at(1,2) s(2) by (auto simp: early_def call_messages_def)
    show "rv_at t = VOffering \<or> rv_turn t = TurnOffers \<or> se_peer t \<noteq> None \<longrightarrow> 1 \<le> lk_sent (se_link t)"
      using offering one s d(3) at(4,6) by metis
    show "rv_at t = VOffering \<and> 2 \<le> lk_sent (se_link t) \<longrightarrow> restart_first (se_link t)"
      using offering one s d(4) restart_first_adds[OF l(1)] by fastforce
  qed
  have "lk_us (se_link t) = Drop" "link_ok (se_link t)" "in_table (se_link t)"
    using assms(1) l(1) in_table_adds[OF l(1)] by (auto simp: drop_ok_def adds_stop_def)
  moreover have "rv_restartsUsed t \<le> 5" "early (rv_at t) \<longrightarrow> se_peer t = None \<and> rv_restartsUsed t = 0 \<and> rv_turn t \<noteq> TurnOffers"
    using assms(1) at(2-5) unfolding drop_ok_def by metis+
  ultimately show ?thesis using rest unfolding drop_ok_def by blast
qed

lemma in_table_takes:
  assumes "in_table lk" "link_log lk' = link_log lk @ [(n, m)]" "table_allows Drop n m \<or> 1 \<le> n \<and> restart_first lk'"
  shows "in_table lk'"
  using assms by (auto simp: in_table_def restart_first_def)

text \<open>A message that is taken, when it is in its place or a restart is ahead of it.\<close>

lemma drop_sends:
  assumes "drop_ok s" "\<not> is_stop m" "link_send m (se_link s) = (r, lk)"
    "\<not> lk_stopped (se_link s) \<Longrightarrow> table_allows Drop (lk_sent (se_link s)) m \<or>
       1 \<le> lk_sent (se_link s) \<and> (restart_first (se_link s) \<or> lk_sent (se_link s) = 1 \<and> event_name m = ''restart'')"
  shows "isl r \<Longrightarrow> lk = se_link s"
    "\<not> isl r \<Longrightarrow> lk_us lk = Drop \<and> link_ok lk \<and> in_table lk \<and> \<not> lk_stopped (se_link s) \<and> \<not> lk_stopped lk \<and>
       lk_sent lk = lk_sent (se_link s) + 1 \<and> (restart_first (se_link s) \<longrightarrow> restart_first lk) \<and>
       (lk_sent (se_link s) = 1 \<and> event_name m = ''restart'' \<longrightarrow> restart_first lk)"
proof -
  show "isl r \<Longrightarrow> lk = se_link s" using assms(3) send_quiet by (cases r) auto
  show "lk_us lk = Drop \<and> link_ok lk \<and> in_table lk \<and> \<not> lk_stopped (se_link s) \<and> \<not> lk_stopped lk \<and>
       lk_sent lk = lk_sent (se_link s) + 1 \<and> (restart_first (se_link s) \<longrightarrow> restart_first lk) \<and>
       (lk_sent (se_link s) = 1 \<and> event_name m = ''restart'' \<longrightarrow> restart_first lk)" if "\<not> isl r"
  proof -
    obtain j where r: "r = Inr j" using \<open>\<not> isl r\<close> by (cases r) auto
    note tk = send_takes[OF assms(3)[unfolded r]]
    have log: "link_log lk = link_log (se_link s) @ [(lk_sent (se_link s), m)]"
      using assms(3) r by (auto simp: link_send_def log_take split: if_splits sum.splits)
    have st: "\<not> lk_stopped (se_link s)" "\<not> lk_stopped lk" "lk_sent lk = lk_sent (se_link s) + 1" using tk(5)[OF assms(2)] tk(2,3) by simp_all
    have rf: "restart_first (se_link s) \<longrightarrow> restart_first lk" "lk_sent (se_link s) = 1 \<and> event_name m = ''restart'' \<longrightarrow> restart_first lk"
      by (simp_all add: restart_first_def log)
    have "in_table (se_link s)" using assms(1) by (simp add: drop_ok_def)
    then have "in_table lk" by (rule in_table_takes[OF _ log]) (use assms(4)[OF st(1)] rf in blast)
    moreover have "link_ok lk" "lk_us lk = Drop"
      using link_ok_send[of "se_link s" m] link_us(1)[of m "se_link s"] assms(1-3) by (simp_all add: drop_ok_def)
    ultimately show ?thesis using st rf by blast
  qed
qed

lemma drop_invitation:
  assumes "drop_ok s" "rv_at s = VNew"
  shows "drop_ok (receiver_invitation hide ice i mx s)"
proof -
  obtain r lk where sd: "link_send (Invite hide ice i mx) (se_link s) = (r, lk)" by (cases "link_send (Invite hide ice i mx) (se_link s)")
  have n: "lk_stopped (se_link s) \<or> lk_sent (se_link s) = 0" using assms by (auto simp: drop_ok_def call_messages_def)
  then have "\<not> lk_stopped (se_link s) \<Longrightarrow> table_allows Drop (lk_sent (se_link s)) (Invite hide ice i mx)"
    by (auto simp: table_allows_def allowedEvents_def)
  note sent = drop_sends[OF assms(1) _ sd disjI1[OF this], simplified]
  show ?thesis
  proof (cases r)
    case (Inl e)
    have "mild s (receiver_call_throws e (s\<lparr>rv_invite := Some (hide, ice, i, mx), se_link := lk\<rparr>))"
      by (rule mild_trans[OF _ mild_call_throws]) (use sent(1) Inl in \<open>simp add: mild_def\<close>)
    then show ?thesis using mild_drop_ok[OF assms(1)] sd Inl by (simp add: receiver_invitation_def Let_def)
  next
    case (Inr j)
    then show ?thesis using sent(2) sd n assms by (auto simp: receiver_invitation_def drop_ok_def call_messages_def)
  qed
qed

lemma drop_decline:
  assumes "drop_ok s" "rv_at s = VManifest"
  shows "drop_ok (receiver_decline s)"
proof -
  obtain r lk where sd: "link_send Decline (se_link s) = (r, lk)" by (cases "link_send Decline (se_link s)")
  have n: "lk_stopped (se_link s) \<or> lk_sent (se_link s) = 1" using assms by (auto simp: drop_ok_def call_messages_def)
  then have "\<not> lk_stopped (se_link s) \<Longrightarrow> table_allows Drop (lk_sent (se_link s)) Decline" by (auto simp: table_allows_def allowedEvents_def)
  note sent = drop_sends[OF assms(1) _ sd disjI1[OF this], simplified]
  show ?thesis
  proof (cases r)
    case (Inl e)
    then have "mild s (receiver_decline s)" using sent(1) sd mild_at[OF mild_end_link] by (simp add: receiver_decline_def)
    then show ?thesis by (rule mild_drop_ok[OF assms(1)])
  next
    case (Inr j)
    then show ?thesis using sent(2) sd n assms by (auto simp: receiver_decline_def drop_ok_def call_messages_def)
  qed
qed

lemma drop_offered:
  assumes "drop_ok s" "rv_at s = VOffering"
  shows "drop_ok (receiver_offered sdp s)"
proof -
  obtain r lk where sd: "link_send (Accept sdp) (se_link s) = (r, lk)" by (cases "link_send (Accept sdp) (se_link s)")
  have n: "lk_stopped (se_link s) \<or> 1 \<le> lk_sent (se_link s) \<and> (2 \<le> lk_sent (se_link s) \<longrightarrow> restart_first (se_link s))"
    using assms by (auto simp: drop_ok_def)
  have "table_allows Drop (lk_sent (se_link s)) (Accept sdp) \<or> 1 \<le> lk_sent (se_link s) \<and> restart_first (se_link s)"
    if "\<not> lk_stopped (se_link s)"
    using n that by (cases "lk_sent (se_link s) = 1") (auto simp: table_allows_def allowedEvents_def)
  then have place: "\<not> lk_stopped (se_link s) \<Longrightarrow> table_allows Drop (lk_sent (se_link s)) (Accept sdp) \<or>
      1 \<le> lk_sent (se_link s) \<and> (restart_first (se_link s) \<or> lk_sent (se_link s) = 1 \<and> event_name (Accept sdp) = ''restart'')" by blast
  note sent = drop_sends[OF assms(1) _ sd place, simplified]
  show ?thesis
  proof (cases r)
    case (Inl e)
    then show ?thesis using mild_drop_ok[OF assms(1) mild_receive_throws] sent(1) sd by (simp add: receiver_offered_def)
  next
    case (Inr j)
    then show ?thesis using sent(2) sd n assms by (auto simp: receiver_offered_def drop_ok_def call_messages_def)
  qed
qed

lemma drop_restart_offered:
  assumes "drop_ok s" "rv_turn s = TurnOffers"
  shows "drop_ok (restart_offered sdp s)"
proof -
  obtain r lk where sd: "link_send (Restart sdp) (se_link s) = (r, lk)" by (cases "link_send (Restart sdp) (se_link s)")
  have late: "\<not> early (rv_at s)" "rv_restartsUsed s \<le> 5" using assms by (auto simp: drop_ok_def)
  have n: "lk_stopped (se_link s) \<or> 1 \<le> lk_sent (se_link s) \<and> lk_sent (se_link s) + 1 \<le> call_messages (rv_at s) + rv_restartsUsed s \<and>
      (rv_at s = VOffering \<and> 2 \<le> lk_sent (se_link s) \<longrightarrow> restart_first (se_link s))"
    using assms by (auto simp: drop_ok_def)
  have "call_messages (rv_at s) \<le> 2" by (cases "rv_at s") (simp_all add: call_messages_def)
  then have "\<not> lk_stopped (se_link s) \<Longrightarrow> lk_sent (se_link s) \<noteq> 1 \<Longrightarrow> table_allows Drop (lk_sent (se_link s)) (Restart sdp)"
    using n late(2) by (auto simp: table_allows_def allowedEvents_def)
  then have place: "\<not> lk_stopped (se_link s) \<Longrightarrow> table_allows Drop (lk_sent (se_link s)) (Restart sdp) \<or>
      1 \<le> lk_sent (se_link s) \<and> (restart_first (se_link s) \<or> lk_sent (se_link s) = 1 \<and> event_name (Restart sdp) = ''restart'')" by (cases "lk_sent (se_link s) = 1") auto
  note sent = drop_sends[OF assms(1) _ sd place, simplified]
  show ?thesis
  proof (cases r)
    case (Inl e)
    then have "mild s (restart_offered sdp s)" using sent(1) sd by (simp add: restart_offered_def mild_def)
    then show ?thesis by (rule mild_drop_ok[OF assms(1)])
  next
    case (Inr j)
    have "rv_at s = VOffering \<longrightarrow> restart_first lk" using sent(2) Inr n by (cases "lk_sent (se_link s) = 1") auto
    then show ?thesis using sent(2) sd n late assms Inr by (auto simp: restart_offered_def drop_ok_def)
  qed
qed

lemma drop_turn_comes:
  assumes "drop_ok s"
  shows "drop_ok (restart_turn_comes s)"
proof -
  have b: "drop_ok (s\<lparr>rv_queue := q\<rparr>)" for q using assms by (simp add: drop_ok_def)
  have "drop_ok (s\<lparr>rv_queue := q, rv_restartsUsed := rv_restartsUsed s + 1, rv_turn := TurnOffers\<rparr>)"
    if "se_peer s \<noteq> None" "rv_restartsUsed s < 5" "rv_turn s = NoTurn" for q
    using assms that by (auto simp: drop_ok_def)
  then show ?thesis using b assms by (simp add: restart_turn_comes_def restartOnce_def)
qed

lemma drop_ok_step:
  assumes "drop_ok s"
  shows "drop_ok (receiver_step uc ctor s e)"
proof (cases "takes_message e")
  case True
  then show ?thesis
    using assms drop_invitation[OF assms] drop_decline[OF assms] drop_offered[OF assms] drop_restart_offered[OF assms] drop_turn_comes[OF assms]
    by (cases e) simp_all
qed (rule mild_drop_ok[OF assms mild_step])

lemma drop_ok_run: "drop_ok (receiver_run uc ctor es)"
proof -
  have "drop_ok s \<Longrightarrow> drop_ok (foldl (receiver_step uc ctor) s es)" for s by (induction es arbitrary: s) (simp_all add: drop_ok_step)
  moreover have "drop_ok drop_start" using link_ok_start[of Drop "[]"]
    by (simp add: drop_ok_def drop_start_def call_messages_def) (simp add: link_start_def in_table_def link_log_def)
  ultimately show ?thesis by (simp add: receiver_run_def)
qed

subsection \<open>When no restart is ahead of the accept\<close>

text \<open>
  The connection cannot fail before the offer is made, and nobody asks for a restart then: no
  restart has its turn before the accept is taken.
\<close>

fun restarts_wait :: "unicode \<Rightarrow> (rtc_configuration \<Rightarrow> bool option) \<Rightarrow> receiver_session \<Rightarrow> receiver_event list \<Rightarrow> bool" where
  "restarts_wait uc ctor s [] = True"
| "restarts_wait uc ctor s (e # es) =
     ((e = RestartTurn \<longrightarrow> accept_out s) \<and> restarts_wait uc ctor (receiver_step uc ctor s e) es)"

lemma receiver_ok_step:
  assumes "receiver_ok s" "e = RestartTurn \<Longrightarrow> accept_out s"
  shows "receiver_ok (receiver_step uc ctor s e)"
proof (cases "takes_message e")
  case True
  then show ?thesis
    using assms ok_invitation[OF assms(1)] ok_decline[OF assms(1)] ok_offered[OF assms(1)] ok_restart_offered[OF assms(1)] ok_turn_comes[OF assms(1)]
    by (cases e) simp_all
qed (rule mild_ok[OF assms(1) mild_step])

lemma receiver_ok_run:
  assumes "restarts_wait uc ctor drop_start es"
  shows "receiver_ok (receiver_run uc ctor es)"
proof -
  have "receiver_ok s \<Longrightarrow> restarts_wait uc ctor s es \<Longrightarrow> receiver_ok (foldl (receiver_step uc ctor) s es)" for s
    by (induction es arbitrary: s) (simp_all add: receiver_ok_step)
  moreover have "receiver_ok drop_start" using keeps_start[of Drop "[]"] by (simp add: receiver_ok_def drop_start_def) (simp add: link_start_def)
  ultimately show ?thesis using assms by (simp add: receiver_run_def)
qed

lemma keeps_wire: "keeps_table sd lk \<Longrightarrow> (i, m) \<in> set (lk_wire lk) \<Longrightarrow> table_allows sd i m"
proof -
  assume "keeps_table sd lk" "(i, m) \<in> set (lk_wire lk)"
  then have "(i, m) \<in> set (link_log lk)" "\<forall>x \<in> set (link_log lk). table_allows sd (fst x) (snd x)" by (simp_all add: keeps_table_def link_log_def)
  then show ?thesis by fastforce
qed

text \<open>What was taken before a message that has gone has gone too.\<close>

lemma gone_before:
  assumes "link_ok lk" "x \<in> set (link_log lk)" "y \<in> set (lk_wire lk)" "fst x \<le> fst y"
  shows "x \<in> set (lk_wire lk)"
proof (rule ccontr)
  assume "x \<notin> set (lk_wire lk)"
  then have x: "fst x \<in> fst ` set (lk_chain lk)" using assms(2) by (auto simp: link_log_def)
  have "sorted (map fst (lk_wire lk) @ map fst (lk_chain lk))" "distinct (map fst (lk_wire lk) @ map fst (lk_chain lk))"
    using assms(1) unfolding link_ok_def link_log_def map_append by (metis sorted_upt, metis distinct_upt)
  then show False using x assms(3,4) unfolding sorted_append distinct_append set_map by (metis IntI antisym empty_iff imageI)
qed

lemma restart_gone:
  assumes "link_ok lk" "restart_first lk" "(i, m) \<in> set (lk_wire lk)" "1 \<le> i"
  shows "\<exists>sdp. (1, Restart sdp) \<in> set (lk_wire lk)"
proof -
  obtain m' where m': "(1, m') \<in> set (link_log lk)" "event_name m' = ''restart''" using assms(2) by (auto simp: restart_first_def list_ex_iff)
  then have "(1, m') \<in> set (lk_wire lk)" using gone_before[OF assms(1) m'(1) assms(3)] assms(4) by simp
  moreover obtain sdp where "m' = Restart sdp" using m'(2) by (cases m') simp_all
  ultimately show ?thesis by blast
qed

lemma restart_too_soon: "\<not> restarts_wait uc ctor s es \<Longrightarrow> \<exists>a b. es = a @ RestartTurn # b \<and> \<not> accept_out (foldl (receiver_step uc ctor) s a)"
proof (induction es arbitrary: s)
  case (Cons e es)
  show ?case
  proof (cases "e = RestartTurn \<and> \<not> accept_out s")
    case True
    then show ?thesis by (intro exI[of _ "[]"] exI[of _ es]) simp
  next
    case False
    then have "\<not> restarts_wait uc ctor (receiver_step uc ctor s e) es" using Cons.prems by auto
    from Cons.IH[OF this] obtain a b where "es = a @ RestartTurn # b" "\<not> accept_out (foldl (receiver_step uc ctor) (receiver_step uc ctor s e) a)" by blast
    then show ?thesis by (intro exI[of _ "e # a"] exI[of _ b]) simp
  qed
qed simp

text \<open>
  Property C6: every message the page's session hands to the exchange is one the table of events
  allows the page at that index, whatever arrives, fails, is called or is stopped. The same holds of
  Drop's session with two exceptions: a stop asked for before the invitation takes the invitation's
  place, and once Drop's message 1 is a restart instead of the accept it and what follows need not be
  in the table. The second exception happens only when a restart has its turn before the accept is
  taken, which a call of \<open>restartIce\<close> while \<open>accept\<close> waits for the offer brings about.
\<close>

theorem session_messages_legal:
  "(\<forall>i m. (i, m) \<in> set (lk_wire (se_link (sender_run uc ctor allow es))) \<longrightarrow> event_name m \<in> set (allowedEvents Page i)) \<and>
   (\<forall>i m. (i, m) \<in> set (lk_wire (se_link (receiver_run uc ctor rs))) \<longrightarrow>
      event_name m \<in> set (allowedEvents Drop i) \<or> i = 0 \<and> is_stop m \<or>
      1 \<le> i \<and> (\<exists>sdp. (1, Restart sdp) \<in> set (lk_wire (se_link (receiver_run uc ctor rs))))) \<and>
   (\<forall>sdp. (1, Restart sdp) \<in> set (lk_wire (se_link (receiver_run uc ctor rs))) \<longrightarrow>
      (\<exists>a b. rs = a @ RestartTurn # b \<and> \<not> accept_out (receiver_run uc ctor a)))"
proof (intro conjI allI impI)
  show "event_name m \<in> set (allowedEvents Page i)" if "(i, m) \<in> set (lk_wire (se_link (sender_run uc ctor allow es)))" for i m
    using ok_run[of uc ctor allow es] keeps_wire that unfolding sender_ok_def by (fastforce simp: table_allows_def)
next
  fix i m
  let ?lk = "se_link (receiver_run uc ctor rs)"
  assume m: "(i, m) \<in> set (lk_wire ?lk)"
  have ok: "link_ok ?lk" "in_table ?lk" using drop_ok_run[of uc ctor rs] by (simp_all add: drop_ok_def)
  have "(i, m) \<in> set (link_log ?lk)" using m by (simp add: link_log_def)
  then have "table_allows Drop i m \<or> 1 \<le> i \<and> restart_first ?lk" using ok(2) unfolding in_table_def by fastforce
  then show "event_name m \<in> set (allowedEvents Drop i) \<or> i = 0 \<and> is_stop m \<or> 1 \<le> i \<and> (\<exists>sdp. (1, Restart sdp) \<in> set (lk_wire ?lk))"
    using restart_gone[OF ok(1) _ m] by (auto simp: table_allows_def)
next
  fix sdp
  assume r: "(1, Restart sdp) \<in> set (lk_wire (se_link (receiver_run uc ctor rs)))"
  have "\<not> restarts_wait uc ctor drop_start rs"
  proof
    assume "restarts_wait uc ctor drop_start rs"
    from receiver_ok_run[OF this] have "table_allows Drop 1 (Restart sdp)" using keeps_wire r by (fastforce simp: receiver_ok_def)
    then show False by (simp add: table_allows_def allowedEvents_def)
  qed
  from restart_too_soon[OF this] show "\<exists>a b. rs = a @ RestartTurn # b \<and> \<not> accept_out (receiver_run uc ctor a)" by (simp add: receiver_run_def)
qed

text \<open>A session in which Drop has read a manifest and accepts it, and a restart that comes too soon.\<close>

definition sample_id :: jsstr where "sample_id = js ''AAAAAAAAAAAAAAAAAAAAAA''"

definition sample_too_soon :: "bytes \<Rightarrow> receiver_event list" where
  "sample_too_soon manifest = [CallInvitation False [] sample_id 10, ReceiverPump, ReceiverSettled None, CallReadManifest,
     ReceiverReads (Inr manifest), CallAccept [] False, RestartIce, RestartTurn, RestartOffered (js ''s''), ReceiverPump]"

lemma sample_receive_short:
  "list_all (\<lambda>m. case canonicalJson (message_json m) of Inl _ \<Rightarrow> False | Inr t \<Rightarrow> length t < 1000)
     [Invite False [] sample_id 10, Manifest (js ''a'') 3 (js ''text/plain''), Restart (js ''s'')]"
  by code_simp

lemma sample_offered_valid:
  "valid_message plain_tables \<lparr>sender = Page, index = 0, iceAllowlist = [], maxOffered = Some 10\<rparr> (Manifest (js ''a'') 3 (js ''text/plain''))"
  "\<not> isl (envelopeBytes plain_tables (js ''a'') (js ''text/plain'') 3)"
  by code_simp+

lemma sample_too_soon_runs:
  "\<exists>bs. let lk = se_link (receiver_run plain_tables (\<lambda>_. None) (sample_too_soon bs)) in
     lk_wire lk = [(0, Invite False [] sample_id 10), (1, Restart (js ''s''))] \<and> lk_chain lk = [] \<and> lk_sent lk = 2 \<and> \<not> lk_stopped lk \<and> \<not> lk_ended lk"
proof -
  obtain m1 m2 bs where e: "encodeMessage (Invite False [] sample_id 10) = Inr m1" "encodeMessage (Restart (js ''s'')) = Inr m2"
    "encodeMessage (Manifest (js ''a'') 3 (js ''text/plain'')) = Inr bs"
    using sample_receive_short short_message_encodes[of "Invite False [] sample_id 10"] short_message_encodes[of "Restart (js ''s'')"]
      short_message_encodes[of "Manifest (js ''a'') 3 (js ''text/plain'')"] by auto
  have b: "decodeMessage plain_tables \<lparr>sender = Page, index = 0, iceAllowlist = [], maxOffered = Some 10\<rparr> bs = Inr (Manifest (js ''a'') 3 (js ''text/plain''))"
    by (rule decode_encodeMessage[OF sample_offered_valid(1) e(3)])
  obtain n where n: "envelopeBytes plain_tables (js ''a'') (js ''text/plain'') 3 = Inr n" using sample_offered_valid(2) by (cases "envelopeBytes plain_tables (js ''a'') (js ''text/plain'') 3") auto
  have "let lk = se_link (receiver_run plain_tables (\<lambda>_. None) (sample_too_soon bs)) in
     lk_wire lk = [(0, Invite False [] sample_id 10), (1, Restart (js ''s''))] \<and> lk_chain lk = [] \<and> lk_sent lk = 2 \<and> \<not> lk_stopped lk \<and> \<not> lk_ended lk"
    using e(1,2) b n
    by (simp add: receiver_run_def sample_too_soon_def drop_start_def link_start_def receiver_invitation_def link_send_def session_pump_def
        link_pump_def receiver_settled_def receiver_main_settled_def receiver_turn_settled_def receiver_loop_settled_def link_settle_def
        receiver_readManifest_def link_read_def other_side_def receiver_accept_def openConnection_def buildRtcConfiguration_def
        watchConnection_def watch_evaluate_def restartIce_def restart_turn_comes_def restartOnce_def restart_offered_def)
  then show ?thesis by blast
qed

theorem session_messages_legal_witness:
  "\<exists>bs. (1, Restart (js ''s'')) \<in> set (lk_wire (se_link (receiver_run plain_tables (\<lambda>_. None) (sample_too_soon bs)))) \<and>
   (\<exists>a b. sample_too_soon bs = a @ RestartTurn # b \<and> \<not> accept_out (receiver_run plain_tables (\<lambda>_. None) a)) \<and>
   event_name (Invite False [] sample_id 10) \<in> set (allowedEvents Drop 0)"
proof -
  obtain bs where w: "lk_wire (se_link (receiver_run plain_tables (\<lambda>_. None) (sample_too_soon bs))) = [(0, Invite False [] sample_id 10), (1, Restart (js ''s''))]"
    using sample_too_soon_runs unfolding Let_def by blast
  have gone: "(0, Invite False [] sample_id 10) \<in> set (lk_wire (se_link (receiver_run plain_tables (\<lambda>_. None) (sample_too_soon bs))))"
    "(1, Restart (js ''s'')) \<in> set (lk_wire (se_link (receiver_run plain_tables (\<lambda>_. None) (sample_too_soon bs))))" by (simp_all add: w)
  note legal = session_messages_legal[of plain_tables "\<lambda>_. None" "[]" "[]" "sample_too_soon bs"]
  have "event_name (Invite False [] sample_id 10) \<in> set (allowedEvents Drop 0)"
    using legal[THEN conjunct2, THEN conjunct1, rule_format, OF gone(1)] by simp
  then show ?thesis using legal[THEN conjunct2, THEN conjunct2, rule_format, OF gone(2)] gone(2) by blast
qed

text \<open>
  Property C8: Drop restarts ICE at most five times, and while neither side has stopped there is
  always room for one more message: in a session that has not ended, on either side, whatever was
  called before and whenever restarts were asked for, a stop is taken by the link as its last message.
\<close>

theorem session_stop_fits:
  "let s = sender_run uc ctor allow es; r = receiver_run uc ctor rs in
    rv_restartsUsed r \<le> 5 \<and>
    (\<forall>lk \<in> {se_link s, se_link r}. \<not> lk_stopped lk \<and> \<not> lk_ended lk \<longrightarrow>
       (\<forall>reason. link_log (link_stop reason lk) = link_log lk @ [(lk_sent lk, StopMessage reason)]))"
proof -
  have fits: "link_log (link_stop reason lk) = link_log lk @ [(lk_sent lk, StopMessage reason)]"
    if "lk_sent lk \<le> 7" "\<not> lk_stopped lk" "\<not> lk_ended lk" for lk reason
    using that encode_stop[of reason] by (auto simp: link_stop_def link_send_def link_log_def)
  have "call_messages a \<le> 2" for a by (cases a) (simp_all add: call_messages_def)
  from this[of "rv_at (receiver_run uc ctor rs)"]
  have "lk_stopped (se_link (receiver_run uc ctor rs)) \<or> lk_sent (se_link (receiver_run uc ctor rs)) \<le> 7" "rv_restartsUsed (receiver_run uc ctor rs) \<le> 5"
    using drop_ok_run[of uc ctor rs] by (auto simp: drop_ok_def split: if_splits)
  moreover have "\<not> lk_stopped (se_link (sender_run uc ctor allow es)) \<Longrightarrow> lk_sent (se_link (sender_run uc ctor allow es)) \<le> 7"
    using ok_run[of uc ctor allow es] keeps_room by (auto simp: sender_ok_def)
  ultimately show ?thesis using fits unfolding Let_def by auto
qed

theorem session_stop_fits_witness:
  "\<exists>bs. link_log (link_stop Cancelled (se_link (receiver_run plain_tables (\<lambda>_. None) (sample_too_soon bs)))) =
     [(0, Invite False [] sample_id 10), (1, Restart (js ''s'')), (2, StopMessage Cancelled)]"
proof -
  obtain bs where w: "let lk = se_link (receiver_run plain_tables (\<lambda>_. None) (sample_too_soon bs)) in
     lk_wire lk = [(0, Invite False [] sample_id 10), (1, Restart (js ''s''))] \<and> lk_chain lk = [] \<and> lk_sent lk = 2 \<and> \<not> lk_stopped lk \<and> \<not> lk_ended lk"
    using sample_too_soon_runs by blast
  have "link_log (se_link (receiver_run plain_tables (\<lambda>_. None) (sample_too_soon bs))) = [(0, Invite False [] sample_id 10), (1, Restart (js ''s''))]"
    using w by (simp add: Let_def link_log_def)
  then show ?thesis using session_stop_fits[of plain_tables "\<lambda>_. None" "[]" "[]" "sample_too_soon bs"] w unfolding Let_def by auto
qed

subsection \<open>The messages outside the table\<close>

text \<open>
  When Drop stops before it has invited, its stop is message 0, and when it restarts before it has
  accepted, the restart is message 1. The page refuses both as a broken protocol: it does not read
  that Drop stopped, and a restart where the accept is awaited ends the send.
\<close>

lemma decode_encoded:
  assumes "encodeMessage m = Inr bs"
  shows "decodeMessage uc ctx bs = read_body uc (norm_members (map (\<lambda>(k, v). (js k, v)) (message_kvs m))) ctx"
proof -
  obtain t where t: "canonicalJson (message_json m) = Inr t" and bs: "bs = utf8_encode t" and l: "length bs \<le> messageBytes LIMITS"
    using assms by (auto simp: encodeMessage_def Let_def split: sum.splits if_splits)
  have "Messages.norm (message_json m) = JObj (norm_members (map (\<lambda>(k, v). (js k, v)) (message_kvs m)))"
    by (simp only: message_json_kvs obj_def norm_object)
  then show ?thesis using canonical_roundtrip[OF t wf_message] l by (simp add: decodeMessage_def bs del: canonicalJson.simps)
qed

theorem early_stop_refused:
  "\<exists>bs lk. lk_wire (se_link (receiver_run uc ctor [ReceiverStop Cancelled True, ReceiverPump])) = [(0, StopMessage Cancelled)] \<and>
     encodeMessage (StopMessage Cancelled) = Inr bs \<and>
     link_read uc None (Inr bs) (link_start Page allow) = (Inl DProtocol, lk)"
proof -
  obtain bs where bs: "encodeMessage (StopMessage Cancelled) = Inr bs" using encode_stop by blast
  then have w: "lk_wire (se_link (receiver_run uc ctor [ReceiverStop Cancelled True, ReceiverPump])) = [(0, StopMessage Cancelled)]"
    by (simp add: receiver_run_def drop_start_def session_stop_def link_start_def link_stop_def link_send_def session_close_def
        close_peer_def link_end_def session_pump_def link_pump_def)
  have "decodeMessage uc \<lparr>sender = Drop, index = 0, iceAllowlist = allow, maxOffered = None\<rparr> bs = Inl (BadFailed ''event not allowed here'')"
    unfolding decode_encoded[OF bs] read_body_def member_message by (simp add: message_kvs_def allowedEvents_def)
  then show ?thesis using w bs by (auto simp: link_read_def link_start_def other_side_def)
qed

theorem early_restart_refused:
  assumes "encodeMessage (Restart sdp) = Inr bs" and "lk_us lk = Page" "lk_received lk = 1" "\<not> lk_ended lk"
  shows "fst (link_read uc mx (Inr bs) lk) = Inl DProtocol"
proof -
  have "decodeMessage uc \<lparr>sender = Drop, index = 1, iceAllowlist = lk_allow lk, maxOffered = mx\<rparr> bs = Inl (BadFailed ''event not allowed here'')"
    unfolding decode_encoded[OF assms(1)] read_body_def member_message by (simp add: message_kvs_def allowedEvents_def)
  then show ?thesis using assms(2-) by (simp add: link_read_def other_side_def Let_def)
qed

end
