(* ===== verification/Blossom.thy ===== *)
theory Blossom
  imports Security Keys Link
begin

text \<open>
  Fetching stored bytes and checking them (\<open>src/core/blossom.ts\<close>), the hash they are checked with
  (\<open>sha256Hex\<close> of \<open>src/core/crypto.ts\<close>), the share descriptor a pairing hands over, and what a
  failed download is called (\<open>src/get/failure.ts\<close>).

  SHA-256, the network and the abort signal are arguments: a response with its chunks, and what the
  signal says at each point where the code waits.
\<close>

subsection \<open>Numbers read from text\<close>

definition is_sign :: "code_unit \<Rightarrow> bool" where
  "is_sign u \<longleftrightarrow> u = 0x2B \<or> u = 0x2D"

text \<open>\<open>Number(text)\<close> of a text without a radix prefix, as far as it is a safe integer; anything else is \<open>Other\<close>.\<close>

definition decimal_number :: "bool \<Rightarrow> jsstr \<Rightarrow> jsnum" where
  "decimal_number neg s =
     (let ds = takeWhile is_digit s; r = dropWhile is_digit s;
          fs = (case r of c # t \<Rightarrow> if c = 0x2E then takeWhile is_digit t else [] | [] \<Rightarrow> []);
          r' = (case r of c # t \<Rightarrow> if c = 0x2E then dropWhile is_digit t else r | [] \<Rightarrow> [])
      in if ds @ fs = [] then Other
         else (case parse_exponent r' of Some (e, []) \<Rightarrow> number_value neg ds fs e | _ \<Rightarrow> Other))"

definition radix_digit :: "nat \<Rightarrow> code_unit \<Rightarrow> nat option" where
  "radix_digit radix u =
     (let n = unat u;
          v = (if 0x30 \<le> n \<and> n \<le> 0x39 then Some (n - 0x30)
               else if 0x61 \<le> n \<and> n \<le> 0x66 then Some (n - 0x57)
               else if 0x41 \<le> n \<and> n \<le> 0x46 then Some (n - 0x37) else None)
      in case v of Some d \<Rightarrow> if d < radix then Some d else None | None \<Rightarrow> None)"

definition radix_number :: "nat \<Rightarrow> jsstr \<Rightarrow> jsnum" where
  "radix_number radix s =
     (if s = [] \<or> \<not> list_all (\<lambda>u. radix_digit radix u \<noteq> None) s then Other
      else let n = foldl (\<lambda>n u. n * radix + the (radix_digit radix u)) 0 s
           in case safe_double n 1 of Some m \<Rightarrow> Whole (int m) | None \<Rightarrow> Other)"

definition js_Number :: "jsstr \<Rightarrow> jsnum" where
  "js_Number text =
     (let s = trim text in
      if s = [] then Whole 0
      else if startsWith s (js ''0x'') \<or> startsWith s (js ''0X'') then radix_number 16 (drop 2 s)
      else if startsWith s (js ''0o'') \<or> startsWith s (js ''0O'') then radix_number 8 (drop 2 s)
      else if startsWith s (js ''0b'') \<or> startsWith s (js ''0B'') then radix_number 2 (drop 2 s)
      else if is_sign (hd s) then decimal_number (hd s = 0x2D) (tl s)
      else decimal_number False s)"

text \<open>\<open>===\<close> with a whole number: minus zero equals zero, and what is no safe integer equals none.\<close>

definition number_is :: "jsnum \<Rightarrow> int \<Rightarrow> bool" where
  "number_is x n \<longleftrightarrow> x = Whole n \<or> x = NegZero \<and> n = 0"

subsection \<open>Hashing\<close>

datatype hash_error = HashCancelled

text \<open>The chunks of a blob's stream, with the signal looked at before and after each read.\<close>

fun updateBlobHash :: "(nat \<Rightarrow> bool) \<Rightarrow> nat \<Rightarrow> bytes \<Rightarrow> bytes list \<Rightarrow> hash_error + nat \<times> bytes" where
  "updateBlobHash aborted n fed [] = (if aborted n \<or> aborted (n + 1) then Inl HashCancelled else Inr (n + 2, fed))"
| "updateBlobHash aborted n fed (c # cs) =
     (if aborted n \<or> aborted (n + 1) then Inl HashCancelled else updateBlobHash aborted (n + 2) (fed @ c) cs)"

definition sha256Hex :: "(bytes \<Rightarrow> bytes) \<Rightarrow> (nat \<Rightarrow> bool) \<Rightarrow> bytes list \<Rightarrow> hash_error + jsstr" where
  "sha256Hex digest aborted chunks =
     bindR (updateBlobHash aborted 0 [] chunks) (\<lambda>(n, fed).
       if aborted n then Inl HashCancelled else Inr (toHex (digest fed)))"

subsection \<open>A verified retrieval\<close>

datatype abort_cause = TimedOut | CallerCancelled

datatype blossom_error =
    BadTimeout | BadAddress security_error | RetrievalHttp nat | RetrievalIntegrity string | UrlChanged | NoBody | NetworkFailed
  | RetrievalTimedOut | RetrievalCancelled

datatype read_result = Chunk bytes | NoValue | ReadFails

text \<open>
  A response: \<open>rs_reads\<close> is what each read of the body gives until it is done, if there is a body.
\<close>

record http_response =
  rs_status :: nat
  rs_url :: jsstr
  rs_length :: "jsstr option"
  rs_reads :: "read_result list option"

definition BLOSSOM_OPERATION_TIMEOUT_MS :: int where "BLOSSOM_OPERATION_TIMEOUT_MS = 30 * 60 * 1000"

definition timeout_of :: "jsnum option \<Rightarrow> blossom_error + int" where
  "timeout_of timeoutMs =
     (case timeoutMs of
        None \<Rightarrow> Inr BLOSSOM_OPERATION_TIMEOUT_MS
      | Some (Whole n) \<Rightarrow> if n \<le> 0 then Inl BadTimeout else Inr n
      | Some _ \<Rightarrow> Inl BadTimeout)"

text \<open>What \<open>explain\<close> makes of an error: an abort that has happened outranks it.\<close>

definition explain :: "abort_cause option \<Rightarrow> blossom_error \<Rightarrow> blossom_error" where
  "explain cause e = (case cause of Some TimedOut \<Rightarrow> RetrievalTimedOut | Some CallerCancelled \<Rightarrow> RetrievalCancelled | None \<Rightarrow> e)"

fun read_body_loop :: "(nat \<Rightarrow> abort_cause option) \<Rightarrow> nat \<Rightarrow> nat \<Rightarrow> bytes \<Rightarrow> read_result list \<Rightarrow> (nat \<times> blossom_error) + (nat \<times> bytes)" where
  "read_body_loop signal sz n got [] = (if signal n \<noteq> None then Inl (n, NetworkFailed) else Inr (n + 1, got))"
| "read_body_loop signal sz n got (r # rs) =
     (if signal n \<noteq> None then Inl (n, NetworkFailed)
      else
        (case r of
           ReadFails \<Rightarrow> Inl (n, NetworkFailed)
         | NoValue \<Rightarrow> read_body_loop signal sz (n + 1) got rs
         | Chunk c \<Rightarrow>
             if length got + length c > sz then Inl (n, RetrievalIntegrity ''more bytes than signed'')
             else read_body_loop signal sz (n + 1) (got @ c) rs))"

record verifiable_blob =
  vb_url :: jsstr
  vb_sha256 :: jsstr
  vb_size :: nat

text \<open>
  The retrieval inside its deadline: \<open>signal n\<close> is what the signal says at the \<open>n\<close>th wait (0 before
  the request, 1 at the request, then one for each read and one for the hash). An error carries
  the wait it happened at, for \<open>explain\<close>.
\<close>

definition retrieve ::
  "(bytes \<Rightarrow> bytes) \<Rightarrow> (nat \<Rightarrow> abort_cause option) \<Rightarrow> (jsstr \<Rightarrow> http_response option) \<Rightarrow> jsstr \<Rightarrow> verifiable_blob \<Rightarrow>
   (nat \<times> blossom_error) + bytes" where
  "retrieve digest signal fetch url vb =
     (if signal 0 \<noteq> None then Inl (0, NetworkFailed)
      else if signal 1 \<noteq> None then Inl (1, NetworkFailed)
      else
        (case fetch url of
           None \<Rightarrow> Inl (1, NetworkFailed)
         | Some response \<Rightarrow>
             if rs_status response < 200 \<or> 299 < rs_status response then Inl (1, RetrievalHttp (rs_status response))
             else if rs_url response \<noteq> [] \<and> rs_url response \<noteq> url then Inl (1, UrlChanged)
             else if rs_length response \<noteq> None \<and> \<not> number_is (js_Number (the (rs_length response))) (int (vb_size vb))
               then Inl (1, RetrievalIntegrity ''advertised byte count differs'')
             else
               (case rs_reads response of
                  None \<Rightarrow> Inl (1, NoBody)
                | Some reads \<Rightarrow>
                    bindR (read_body_loop signal (vb_size vb) 2 [] reads) (\<lambda>(n, got).
                      if length got \<noteq> vb_size vb then Inl (n, RetrievalIntegrity ''fewer bytes than signed'')
                      else if signal n \<noteq> None then Inl (n, NetworkFailed)
                      else
                        (case sha256Hex digest (\<lambda>_. False) [got] of
                           Inl _ \<Rightarrow> Inl (n, NetworkFailed)
                         | Inr h \<Rightarrow> if h \<noteq> vb_sha256 vb then Inl (n, RetrievalIntegrity ''hash'') else Inr got)))))"

text \<open>The address asked: the signed one, or the chosen replica's with the same hash.\<close>

definition retrieval_url :: "platform \<Rightarrow> profile \<Rightarrow> jsstr option \<Rightarrow> verifiable_blob \<Rightarrow> security_error + jsstr" where
  "retrieval_url pf p replicaServer vb =
     bindR (normaliseBlossomUrl pf (vb_url vb) (Some (vb_sha256 vb)) p) (\<lambda>signedUrl.
       (case replicaServer of
          None \<Rightarrow> Inr signedUrl
        | Some r \<Rightarrow>
            if trim r = [] then Inr signedUrl
            else
              bindR (normaliseBlossomServer pf (trim r) p) (\<lambda>server.
              bindR (assertHex64 (unicode_tables pf) (vb_sha256 vb)) (\<lambda>h. Inr (server @ js ''/'' @ h)))))"

definition fetchVerifiedBlob ::
  "platform \<Rightarrow> (bytes \<Rightarrow> bytes) \<Rightarrow> profile \<Rightarrow> jsnum option \<Rightarrow> jsstr option \<Rightarrow> (nat \<Rightarrow> abort_cause option) \<Rightarrow>
   (jsstr \<Rightarrow> http_response option) \<Rightarrow> verifiable_blob \<Rightarrow> blossom_error + bytes" where
  "fetchVerifiedBlob pf digest p timeoutMs replicaServer signal fetch vb =
     (case retrieval_url pf p replicaServer vb of
        Inl e \<Rightarrow> Inl (BadAddress e)
      | Inr url \<Rightarrow>
          bindR (timeout_of timeoutMs) (\<lambda>_.
            (case retrieve digest signal fetch url vb of
               Inl (n, e) \<Rightarrow> Inl (explain (signal n) e)
             | Inr blob \<Rightarrow> Inr blob)))"

subsection \<open>The share descriptor\<close>

record share_descriptor =
  sd_url :: jsstr
  sd_sha256 :: jsstr
  sd_size :: nat
  sd_key :: jsstr
  sd_name :: jsstr
  sd_bytes :: nat
  sd_expires :: int

datatype descriptor_error = DescriptorInvalid | DescriptorTooLarge

definition SHARE_DESCRIPTOR_MAX_BYTES :: nat where "SHARE_DESCRIPTOR_MAX_BYTES = 16364"

definition SHARE_DESCRIPTOR_KEYS :: jsstr where "SHARE_DESCRIPTOR_KEYS = js ''bytes,expires,key,name,sha256,size,url,v''"

definition SHARE_KEY :: "jsstr \<Rightarrow> bool" where
  "SHARE_KEY s \<longleftrightarrow> startsWith s (js ''wbk1_'') \<and> length s = 48 \<and> list_all is_base64url (drop 5 s)"

definition HEX_64 :: "jsstr \<Rightarrow> bool" where
  "HEX_64 s \<longleftrightarrow> length s = 64 \<and> list_all is_hex s"

text \<open>\<open>Number.isSafeInteger(count) && count > 0\<close> of a number.\<close>

definition positive_count :: "json option \<Rightarrow> nat option" where
  "positive_count v = (case v of Some (JNum (Whole n)) \<Rightarrow> if n > 0 then Some (nat n) else None | _ \<Rightarrow> None)"

definition path_end :: "jsstr \<Rightarrow> jsstr" where
  "path_end path = last (split_on (\<lambda>u. u = 0x2F) path)"

definition descriptor_body :: "platform \<Rightarrow> profile \<Rightarrow> (jsstr \<times> json) list \<Rightarrow> descriptor_error + share_descriptor" where
  "descriptor_body pf p body =
     (let field = (\<lambda>n. map_of body (js n)) in
      if join (js '','') (sort (map fst body)) \<noteq> SHARE_DESCRIPTOR_KEYS then Inl DescriptorInvalid
      else if field ''v'' \<noteq> Some (JStr (js ''wildbloom-share/1'')) then Inl DescriptorInvalid
      else
        (case (field ''sha256'', field ''url'') of
           (Some (JStr sha), Some (JStr url)) \<Rightarrow>
             if \<not> HEX_64 sha then Inl DescriptorInvalid
             else
               (case normaliseBlossomUrl pf url (Some sha) p of
                  Inl _ \<Rightarrow> Inl DescriptorInvalid
                | Inr normalised \<Rightarrow>
                    (case new_URL pf normalised of
                       None \<Rightarrow> Inl DescriptorInvalid
                     | Some parsedUrl \<Rightarrow>
                         if normalised \<noteq> url \<or> path_end (pathname parsedUrl) \<noteq> sha then Inl DescriptorInvalid
                         else
                           (case (field ''key'', field ''name'', positive_count (field ''size''), positive_count (field ''bytes''),
                                  positive_count (field ''expires'')) of
                              (Some (JStr key), Some (JStr name), Some sz, Some plain, Some expires) \<Rightarrow>
                                if \<not> SHARE_KEY key \<or> name = [] \<or> sanitiseFileName (unicode_tables pf) name \<noteq> name then Inl DescriptorInvalid
                                else if sz > MAX_PROTOTYPE_TRANSFER_BYTES \<or> plain > MAX_PROTOTYPE_FILE_BYTES then Inl DescriptorTooLarge
                                else Inr \<lparr>sd_url = normalised, sd_sha256 = sha, sd_size = sz, sd_key = key, sd_name = name,
                                          sd_bytes = plain, sd_expires = int expires\<rparr>
                            | _ \<Rightarrow> Inl DescriptorInvalid)))
         | _ \<Rightarrow> Inl DescriptorInvalid))"

definition parseShareDescriptor :: "platform \<Rightarrow> profile \<Rightarrow> bytes \<Rightarrow> descriptor_error + share_descriptor" where
  "parseShareDescriptor pf p payload =
     (if payload = [] \<or> length payload > SHARE_DESCRIPTOR_MAX_BYTES then Inl DescriptorInvalid
      else
        (case Option.bind (utf8_decode_bom payload) JSON_parse of
           Some (JObj body) \<Rightarrow> descriptor_body pf p body
         | _ \<Rightarrow> Inl DescriptorInvalid))"

definition fetchVerifiedShare ::
  "platform \<Rightarrow> (bytes \<Rightarrow> bytes) \<Rightarrow> profile \<Rightarrow> jsnum option \<Rightarrow> (nat \<Rightarrow> abort_cause option) \<Rightarrow>
   (jsstr \<Rightarrow> http_response option) \<Rightarrow> share_descriptor \<Rightarrow> blossom_error + bytes" where
  "fetchVerifiedShare pf digest p timeoutMs signal fetch d =
     fetchVerifiedBlob pf digest p timeoutMs None signal fetch \<lparr>vb_url = sd_url d, vb_sha256 = sd_sha256 d, vb_size = sd_size d\<rparr>"

subsection \<open>What a failed download is called\<close>

datatype download_failure = DownloadMissing | DownloadUnavailable | DownloadDamaged

datatype download_stage = FetchStage | OpenStage

definition classifyDownloadFailure :: "blossom_error \<Rightarrow> download_stage \<Rightarrow> download_failure" where
  "classifyDownloadFailure e stage =
     (if stage = OpenStage then DownloadDamaged
      else
        (case e of
           RetrievalIntegrity _ \<Rightarrow> DownloadDamaged
         | RetrievalHttp status \<Rightarrow> if status = 404 \<or> status = 410 then DownloadMissing else DownloadUnavailable
         | _ \<Rightarrow> DownloadUnavailable))"

subsection \<open>What a retrieval promises\<close>

lemma updateBlobHash_feeds: "updateBlobHash (\<lambda>_. False) n fed cs = Inr (n + 2 * length cs + 2, fed @ concat cs)"
  by (induction cs arbitrary: n fed) simp_all

text \<open>The hash does not depend on how the stream is cut.\<close>

lemma sha256Hex_chunks: "sha256Hex digest (\<lambda>_. False) cs = Inr (toHex (digest (concat cs)))"
  by (simp add: sha256Hex_def updateBlobHash_feeds)

fun body_bytes :: "read_result list \<Rightarrow> bytes" where
  "body_bytes [] = []"
| "body_bytes (Chunk c # rs) = c @ body_bytes rs"
| "body_bytes (_ # rs) = body_bytes rs"

lemma read_loop_gets:
  "read_body_loop signal sz n got rs = Inr (n', out) \<Longrightarrow> out = got @ body_bytes rs \<and> length out \<le> max sz (length got) \<and> ReadFails \<notin> set rs"
proof (induction rs arbitrary: n got rule: body_bytes.induct)
  case (2 c rs)
  then show ?case using "2.IH"[of "n + 1" "got @ c"] by (auto split: if_splits)
qed (auto split: if_splits)

lemma read_loop_works:
  "(\<And>m. signal m = None) \<Longrightarrow> ReadFails \<notin> set rs \<Longrightarrow> length got + length (body_bytes rs) \<le> sz \<Longrightarrow>
   \<exists>n'. read_body_loop signal sz n got rs = Inr (n', got @ body_bytes rs)"
proof (induction rs arbitrary: n got rule: body_bytes.induct)
  case (2 c rs)
  then show ?case using "2.IH"[of "got @ c" "n + 1"] by auto
qed auto

lemma retrieve_sound:
  assumes "retrieve digest signal fetch url vb = Inr blob"
  shows "toHex (digest blob) = vb_sha256 vb \<and> length blob = vb_size vb \<and>
    (\<exists>response reads. fetch url = Some response \<and> rs_reads response = Some reads \<and> blob = body_bytes reads)"
  using assms by (auto simp: retrieve_def sha256Hex_chunks bindR_def split: if_splits option.splits sum.splits dest!: read_loop_gets)

lemma retrieve_complete:
  assumes "\<And>m. signal m = None" "fetch url = Some response" "200 \<le> rs_status response" "rs_status response \<le> 299"
    and "rs_url response \<in> {[], url}" "rs_length response = None" "rs_reads response = Some reads" "ReadFails \<notin> set reads"
    and "length (body_bytes reads) = vb_size vb" "toHex (digest (body_bytes reads)) = vb_sha256 vb"
  shows "retrieve digest signal fetch url vb = Inr (body_bytes reads)"
proof -
  obtain n where "read_body_loop signal (vb_size vb) 2 [] reads = Inr (n, body_bytes reads)"
    using read_loop_works[of signal reads "[]" "vb_size vb" 2] assms by auto
  then show ?thesis using assms by (auto simp: retrieve_def sha256Hex_chunks)
qed

lemma retrieved_sound:
  assumes "fetchVerifiedBlob pf digest p timeoutMs replicaServer signal fetch vb = Inr blob"
  shows "toHex (digest blob) = vb_sha256 vb \<and> length blob = vb_size vb"
proof -
  obtain url where "retrieve digest signal fetch url vb = Inr blob" using assms by (auto simp: fetchVerifiedBlob_def bindR_def split: sum.splits)
  from retrieve_sound[OF this] show ?thesis by simp
qed

text \<open>
  Property C39: bytes that a retrieval hands on are the ones the signed event names, whatever the
  server sends, redirects or advertises: they have its size and its SHA-256, they were read from an
  address that carries that hash and obeys the profile's transport rule, and they were all
  received within the signed size.
\<close>

theorem retrieved_bytes_verified:
  assumes "fetchVerifiedBlob pf digest p timeoutMs replicaServer signal fetch vb = Inr blob"
  shows "toHex (digest blob) = vb_sha256 vb \<and> length blob = vb_size vb \<and>
    (\<exists>url response reads. retrieval_url pf p replicaServer vb = Inr url \<and> fetch url = Some response \<and>
       rs_url response \<in> {[], url} \<and> rs_reads response = Some reads \<and> blob = body_bytes reads)"
proof -
  obtain url where u: "retrieval_url pf p replicaServer vb = Inr url" "retrieve digest signal fetch url vb = Inr blob"
    using assms by (auto simp: fetchVerifiedBlob_def bindR_def split: sum.splits)
  then have "\<exists>response. fetch url = Some response \<and> rs_url response \<in> {[], url}"
    by (auto simp: retrieve_def split: if_splits option.splits)
  then show ?thesis using u retrieve_sound[OF u(2)] by fastforce
qed

definition sample_response :: "bytes \<Rightarrow> http_response" where
  "sample_response bs = \<lparr>rs_status = 200, rs_url = [], rs_length = None, rs_reads = Some [Chunk bs]\<rparr>"

text \<open>A platform whose parser knows one address, and a hash that is the bytes themselves.\<close>

definition sample_platform :: platform where
  "sample_platform = \<lparr>new_URL = (\<lambda>s. Some \<lparr>protocol = js ''https:'', hostname = js ''a'', username = [], password = [], pathname = js ''/01'',
      search = [], hash = [], origin = js ''https://a'', href = js ''https://a/01''\<rparr>),
     unicode_tables = \<lparr>nfc = id, lower = id\<rparr>, sha3 = id\<rparr>"

theorem retrieved_bytes_verified_witness:
  "length [1 :: byte] = 1 \<and> fetchVerifiedBlob sample_platform id Direct None None (\<lambda>_. None) (\<lambda>_. Some (sample_response [1]))
     \<lparr>vb_url = js ''https://a/01'', vb_sha256 = js ''01'', vb_size = 1\<rparr> = Inr [1]"
proof -
  have ok: "fetchVerifiedBlob sample_platform id Direct None None (\<lambda>_. None) (\<lambda>_. Some (sample_response [1]))
     \<lparr>vb_url = js ''https://a/01'', vb_sha256 = js ''01'', vb_size = 1\<rparr> = Inr [1]" by code_simp
  from retrieved_bytes_verified[OF ok] ok show ?thesis by simp
qed

end
