(* ===== verification/Pool.thy ===== *)
theory Pool
  imports Blossom Erasure_Parts
begin

text \<open>
  Pool storage (\<open>src/core/pool.ts\<close>): nodes and manifests as they are validated, the layout of a
  new pool, replacement nodes, uploading and fetching. SHA-256, the URL parser and the network are
  arguments, and so is the weighted order of the nodes, which the code computes with \<open>Math.log\<close>.
\<close>

record pool_node =
  pn_id :: jsstr
  pn_origin :: jsstr
  pn_group :: jsstr
  pn_weight :: int

record pool_part =
  pp_index :: nat
  pp_sha256 :: jsstr
  pp_size :: nat
  pp_targets :: "pool_node list"

text \<open>The mode is kept as it was given: the check looks at its text, not at its type.\<close>

record pool_manifest =
  pm_mode :: json
  pm_profile :: profile
  pm_sha256 :: jsstr
  pm_size :: nat
  pm_required :: nat
  pm_total :: nat
  pm_copies :: nat
  pm_parts :: "pool_part list"

datatype pool_error =
    PoolSchema | PoolNode | PoolNodeCount | PoolNotUnique | PoolHosts | PoolVersion | PoolPayload | PoolCopies | PoolParameters
  | PoolErasureLayout | PoolReplicaLayout | PoolPartCount | PoolPart | PoolGroups | PoolSharedGroup | PoolReplicaHash
  | PoolListTooLong | PoolLine | PoolNotEncrypted | PoolSecurity security_error | PoolCoding erasure_error
  | PoolAborted | PoolTooFew nat | PoolUnverified | PoolUploadMismatch

definition poolR :: "('e \<Rightarrow> pool_error) \<Rightarrow> 'e + 'a \<Rightarrow> pool_error + 'a" where
  "poolR f r = (case r of Inl e \<Rightarrow> Inl (f e) | Inr x \<Rightarrow> Inr x)"

definition is_id_unit :: "code_unit \<Rightarrow> bool" where
  "is_id_unit u \<longleftrightarrow> (let n = unat u in (0x61 \<le> n \<and> n \<le> 0x7A) \<or> (0x30 \<le> n \<and> n \<le> 0x39) \<or> n = 0x5F \<or> n = 0x2D)"

definition ID :: "jsstr \<Rightarrow> bool" where
  "ID s \<longleftrightarrow> 1 \<le> length s \<and> length s \<le> 40 \<and> list_all is_id_unit s"

text \<open>\<open>record(value, keys)\<close>: an object whose member names, sorted and joined, are the given ones.\<close>

definition keys_are :: "(jsstr \<times> json) list \<Rightarrow> string list \<Rightarrow> bool" where
  "keys_are body keys \<longleftrightarrow> join (js '','') (sort (map fst body)) = join (js '','') (sort (map js keys))"

definition record_of :: "json \<Rightarrow> string list \<Rightarrow> pool_error + (jsstr \<times> json) list" where
  "record_of value keys =
     (case value of
        JObj body \<Rightarrow>
          if keys_are body keys then Inr body else Inl PoolSchema
      | _ \<Rightarrow> Inl PoolSchema)"

definition field :: "(jsstr \<times> json) list \<Rightarrow> string \<Rightarrow> json option" where
  "field body name = map_of body (js name)"

definition validateNode :: "platform \<Rightarrow> profile \<Rightarrow> json \<Rightarrow> pool_error + pool_node" where
  "validateNode pf p value =
     bindR (record_of value [''id'', ''origin'', ''failure_group'', ''weight'']) (\<lambda>body.
       (case (field body ''id'', field body ''failure_group'', field body ''origin'') of
          (Some (JStr i), Some (JStr grp), Some (JStr ori)) \<Rightarrow>
            if \<not> ID i \<or> \<not> ID grp \<or> length ori > 256 then Inl PoolNode
            else
              bindR (poolR PoolSecurity (normaliseBlossomServer pf ori p)) (\<lambda>server.
                if ori \<noteq> server @ js ''/'' then Inl PoolNode
                else
                  (case field body ''weight'' of
                     Some (JNum (Whole w)) \<Rightarrow>
                       if w < 1 \<or> w > 1000 then Inl PoolNode
                       else Inr \<lparr>pn_id = i, pn_origin = ori, pn_group = grp, pn_weight = w\<rparr>
                   | _ \<Rightarrow> Inl PoolNode))
        | _ \<Rightarrow> Inl PoolNode))"

text \<open>The name a node counts under: its host, or its whole origin on this machine.\<close>

definition node_host :: "platform \<Rightarrow> pool_node \<Rightarrow> pool_error + jsstr" where
  "node_host pf node =
     (case new_URL pf (pn_origin node) of
        None \<Rightarrow> Inl PoolNode
      | Some u \<Rightarrow> Inr (if isLocalHost (hostname u) then origin u else hostname u))"

definition validateNodes :: "platform \<Rightarrow> profile \<Rightarrow> json list \<Rightarrow> pool_error + pool_node list" where
  "validateNodes pf p values =
     (if length values < 1 \<or> length values > 16 then Inl PoolNodeCount
      else
        bindR (mapR (validateNode pf p) values) (\<lambda>nodes.
          if \<not> distinct (map pn_id nodes) \<or> \<not> distinct (map pn_origin nodes) then Inl PoolNotUnique
          else
            bindR (mapR (node_host pf) nodes) (\<lambda>hosts.
              if \<not> distinct hosts then Inl PoolHosts else Inr nodes)))"

definition node_json :: "pool_node \<Rightarrow> json" where
  "node_json n =
     JObj [(js ''id'', JStr (pn_id n)), (js ''origin'', JStr (pn_origin n)), (js ''failure_group'', JStr (pn_group n)),
           (js ''weight'', JNum (Whole (pn_weight n)))]"

text \<open>The node a line of text names, before it is validated: the weight may be any number.\<close>

definition line_node :: "jsstr \<Rightarrow> jsstr \<Rightarrow> jsstr \<Rightarrow> jsnum \<Rightarrow> json" where
  "line_node i ori grp w =
     JObj [(js ''id'', JStr i), (js ''origin'', JStr ori), (js ''failure_group'', JStr grp), (js ''weight'', JNum w)]"

definition words_of :: "jsstr \<Rightarrow> jsstr list" where
  "words_of line = filter (\<lambda>w. w \<noteq> []) (split_on is_space (trim line))"

definition lines_of :: "jsstr \<Rightarrow> jsstr list" where
  "lines_of text = filter (\<lambda>line. trim line \<noteq> []) (split_on (\<lambda>u. u = 0x0A) (trim text))"

definition pool_line :: "platform \<Rightarrow> profile \<Rightarrow> nat \<times> jsstr \<Rightarrow> pool_error + json" where
  "pool_line pf p il =
     (let node = (\<lambda>ori grp w.
        bindR (poolR PoolSecurity (normaliseBlossomServer pf ori p)) (\<lambda>server.
          Inr (line_node (js ''node-'' @ decimal (fst il + 1)) (server @ js ''/'') grp (js_Number w))))
      in case words_of (snd il) of
           [ori, grp] \<Rightarrow> node ori grp (js ''1'')
         | [ori, grp, w] \<Rightarrow> node ori grp w
         | _ \<Rightarrow> Inl PoolLine)"

definition parsePoolNodes :: "platform \<Rightarrow> profile \<Rightarrow> jsstr \<Rightarrow> pool_error + pool_node list" where
  "parsePoolNodes pf p text =
     (if length text > 8192 then Inl PoolListTooLong
      else bindR (mapR (pool_line pf p) (enumerate 0 (lines_of text))) (validateNodes pf p))"

subsection \<open>Manifests\<close>

text \<open>\<open>String(value)\<close> is the given text: a string, or an array of one such value.\<close>

fun text_is :: "jsstr \<Rightarrow> json \<Rightarrow> bool" where
  "text_is t (JStr s) = (s = t)"
| "text_is t (JArr [v]) = text_is t v"
| "text_is t _ = False"

definition WILDBLOOM_ENCRYPTION_V2 :: jsstr where "WILDBLOOM_ENCRYPTION_V2 = js ''forgesworn-aes-256-gcm-chunked-v2''"

definition profile_name :: "profile \<Rightarrow> jsstr" where
  "profile_name p = (if p = Direct then js ''direct'' else js ''tor'')"

definition is_erasure :: "json \<Rightarrow> bool" where
  "is_erasure mode \<longleftrightarrow> mode = JStr (js ''erasure'')"

definition is_replicas :: "json \<Rightarrow> bool" where
  "is_replicas mode \<longleftrightarrow> mode = JStr (js ''replicas'')"

definition part_body :: "nat \<Rightarrow> nat \<Rightarrow> nat \<Rightarrow> (jsstr \<times> json) list \<Rightarrow> pool_error + jsstr \<times> json list" where
  "part_body idx sz required body =
     (case (field body ''index'', field body ''sha256'', field body ''size'', field body ''targets'') of
        (Some (JNum i), Some (JStr sha), Some (JNum n), Some (JArr targets)) \<Rightarrow>
          if \<not> number_is i (int idx) \<or> \<not> HEX_64 sha \<or> \<not> number_is n (int (ceil_div sz required)) then Inl PoolPart
          else Inr (sha, targets)
      | _ \<Rightarrow> Inl PoolPart)"

text \<open>The loop over the parts: it carries the groups already assigned and the nodes seen.\<close>

fun validate_parts ::
  "platform \<Rightarrow> profile \<Rightarrow> json \<Rightarrow> jsstr \<Rightarrow> nat \<Rightarrow> nat \<Rightarrow> nat \<Rightarrow> nat \<Rightarrow> jsstr list \<Rightarrow> pool_node list \<Rightarrow> json list \<Rightarrow>
   pool_error + pool_part list \<times> pool_node list" where
  "validate_parts pf p mode payload sz required copies idx assigned allNodes [] = Inr ([], allNodes)"
| "validate_parts pf p mode payload sz required copies idx assigned allNodes (v # vs) =
     bindR (record_of v [''index'', ''sha256'', ''size'', ''targets'']) (\<lambda>body.
     bindR (part_body idx sz required body) (\<lambda>(sha, targets).
     bindR (validateNodes pf p targets) (\<lambda>nodes.
       let groups = remdups (map pn_group nodes) in
       if length groups < copies then Inl PoolGroups
       else if list_ex (\<lambda>g. g \<in> set assigned) groups then Inl PoolSharedGroup
       else if is_replicas mode \<and> sha \<noteq> payload then Inl PoolReplicaHash
       else
         bindR (validate_parts pf p mode payload sz required copies (idx + 1) (assigned @ groups) (allNodes @ nodes) vs) (\<lambda>(parts, all).
           Inr (\<lparr>pp_index = idx, pp_sha256 = sha, pp_size = ceil_div sz required, pp_targets = nodes\<rparr> # parts, all)))))"

definition layout_ok :: "json \<Rightarrow> jsnum \<Rightarrow> jsnum \<Rightarrow> int \<Rightarrow> nat \<Rightarrow> pool_error + nat \<times> nat" where
  "layout_ok mode required tot copies sz =
     (if is_erasure mode then
        bindR (poolR PoolCoding (codingBounds required tot)) (\<lambda>_.
          (case (required, tot) of
             (Whole k, Whole n) \<Rightarrow> if copies \<noteq> 1 \<or> int sz < k then Inl PoolErasureLayout else Inr (nat k, nat n)
           | _ \<Rightarrow> Inl PoolErasureLayout))
      else if required \<noteq> Whole 1 \<or> tot \<noteq> Whole 1 \<or> copies < 2 then Inl PoolReplicaLayout
      else Inr (1, 1))"

definition validateManifest :: "platform \<Rightarrow> profile \<Rightarrow> json \<Rightarrow> pool_error + pool_manifest" where
  "validateManifest pf p value =
     bindR (record_of value [''type'', ''version'', ''mode'', ''profile'', ''payload'', ''required'', ''total'', ''copies'', ''parts'']) (\<lambda>body.
       if field body ''type'' \<noteq> Some (JStr (js ''wildbloom.pool'')) \<or> field body ''version'' \<noteq> Some (JNum (Whole 1)) \<or>
          field body ''profile'' \<noteq> Some (JStr (profile_name p)) then Inl PoolVersion
       else
         (case (field body ''mode'', field body ''payload'') of
            (Some mode, Some payload) \<Rightarrow>
              if \<not> text_is (js ''replicas'') mode \<and> \<not> text_is (js ''erasure'') mode then Inl PoolVersion
              else
                bindR (record_of payload [''sha256'', ''size'', ''encryption'']) (\<lambda>pl.
                  (case (field pl ''sha256'', field pl ''size'') of
                     (Some (JStr sha), Some (JNum n)) \<Rightarrow>
                       if \<not> HEX_64 sha \<or> field pl ''encryption'' \<noteq> Some (JStr WILDBLOOM_ENCRYPTION_V2) then Inl PoolPayload
                       else
                         bindR (poolR PoolSecurity (assertPrototypeTransferSize n)) (\<lambda>sz.
                           (case field body ''copies'' of
                              Some (JNum (Whole copies)) \<Rightarrow>
                                if copies < 1 \<or> copies > 3 then Inl PoolCopies
                                else
                                  (case (field body ''required'', field body ''total'') of
                                     (Some (JNum required), Some (JNum tot)) \<Rightarrow>
                                       bindR (layout_ok mode required tot copies sz) (\<lambda>(k, n).
                                         (case field body ''parts'' of
                                            Some (JArr parts) \<Rightarrow>
                                              if length parts \<noteq> n then Inl PoolPartCount
                                              else
                                                bindR (validate_parts pf p mode sha sz k (nat copies) 0 [] [] parts) (\<lambda>(ps, all).
                                                bindR (validateNodes pf p (map node_json all)) (\<lambda>_.
                                                  Inr \<lparr>pm_mode = mode, pm_profile = p, pm_sha256 = sha, pm_size = sz, pm_required = k,
                                                       pm_total = n, pm_copies = nat copies, pm_parts = ps\<rparr>))
                                          | _ \<Rightarrow> Inl PoolPartCount))
                                   | _ \<Rightarrow> Inl PoolParameters)
                            | _ \<Rightarrow> Inl PoolCopies))
                   | _ \<Rightarrow> Inl PoolPayload))
          | _ \<Rightarrow> Inl PoolVersion))"

definition part_json :: "pool_part \<Rightarrow> json" where
  "part_json part =
     JObj [(js ''index'', JNum (Whole (int (pp_index part)))), (js ''sha256'', JStr (pp_sha256 part)),
           (js ''size'', JNum (Whole (int (pp_size part)))), (js ''targets'', JArr (map node_json (pp_targets part)))]"

definition manifest_json :: "json \<Rightarrow> profile \<Rightarrow> jsstr \<Rightarrow> nat \<Rightarrow> nat \<Rightarrow> nat \<Rightarrow> nat \<Rightarrow> json list \<Rightarrow> json" where
  "manifest_json mode p sha sz required tot copies parts =
     JObj [(js ''type'', JStr (js ''wildbloom.pool'')), (js ''version'', JNum (Whole 1)), (js ''mode'', mode),
           (js ''profile'', JStr (profile_name p)),
           (js ''payload'', JObj [(js ''sha256'', JStr sha), (js ''size'', JNum (Whole (int sz))), (js ''encryption'', JStr WILDBLOOM_ENCRYPTION_V2)]),
           (js ''required'', JNum (Whole (int required))), (js ''total'', JNum (Whole (int tot))), (js ''copies'', JNum (Whole (int copies))),
           (js ''parts'', JArr parts)]"

subsection \<open>Preparing a pool\<close>

text \<open>The nodes of each failure group, in the order in which a group is first met (a \<open>Map\<close>).\<close>

definition group_nodes :: "pool_node list \<Rightarrow> pool_node list list" where
  "group_nodes ranked =
     map (\<lambda>g. filter (\<lambda>n. pn_group n = g) ranked) (rev (remdups (rev (map pn_group ranked))))"

text \<open>\<open>forEach((group, i) => targets[i % total].push(...group))\<close>.\<close>

definition deal_groups :: "nat \<Rightarrow> pool_node list list \<Rightarrow> pool_node list list" where
  "deal_groups tot groups = map (\<lambda>t. concat (map snd (filter (\<lambda>(i, g). i mod tot = t) (enumerate 0 groups)))) [0..<tot]"

definition MAGIC_V2 :: bytes where "MAGIC_V2 = [0x46, 0x53, 0x57, 0x4E, 0x45, 0x4E, 0x43, 0x32]"

definition hash_hex :: "(bytes \<Rightarrow> bytes) \<Rightarrow> bytes \<Rightarrow> jsstr" where
  "hash_hex digest bs = toHex (digest bs)"

definition new_part :: "(bytes \<Rightarrow> bytes) \<Rightarrow> pool_node list list \<Rightarrow> nat \<times> bytes \<Rightarrow> pool_part" where
  "new_part digest targets ib =
     \<lparr>pp_index = fst ib, pp_sha256 = hash_hex digest (snd ib), pp_size = length (snd ib), pp_targets = targets ! fst ib\<rparr>"

definition preparePool ::
  "platform \<Rightarrow> (bytes \<Rightarrow> bytes) \<Rightarrow> (jsstr \<Rightarrow> pool_node list \<Rightarrow> pool_node list) \<Rightarrow> (nat \<Rightarrow> bool) \<Rightarrow> bytes \<Rightarrow> json \<Rightarrow> pool_node list \<Rightarrow>
   nat \<Rightarrow> nat \<Rightarrow> nat \<Rightarrow> profile \<Rightarrow> pool_error + pool_manifest \<times> bytes list" where
  "preparePool pf digest rank aborted encrypted mode nodes required0 total0 copies0 p =
     bindR (validateNodes pf p (map node_json nodes)) (\<lambda>_.
     bindR (poolR PoolSecurity (assertPrototypeTransferSize (Whole (int (length encrypted))))) (\<lambda>_.
       if take 8 encrypted \<noteq> MAGIC_V2 then Inl PoolNotEncrypted
       else
         bindR (if is_erasure mode then poolR PoolCoding (codingBounds (Whole (int required0)) (Whole (int total0))) else Inr ()) (\<lambda>_.
         let (required, tot, copies) = (if is_erasure mode then (required0, total0, 1) else (1, 1, copies0)) in
         if card (set (map pn_group nodes)) < tot * copies then Inl PoolGroups
         else
           let payloadHash = hash_hex digest encrypted;
               targets = deal_groups tot (group_nodes (rank payloadHash nodes)) in
           bindR (if is_erasure mode then poolR PoolCoding (encodeParts aborted encrypted required tot) else Inr [encrypted]) (\<lambda>blobs.
           let parts = map (new_part digest targets) (enumerate 0 blobs) in
           bindR (validateManifest pf p (manifest_json mode p payloadHash (length encrypted) required tot copies (map part_json parts))) (\<lambda>manifest.
             Inr (manifest, blobs))))))"

subsection \<open>Replacement nodes\<close>

text \<open>The first \<open>replacement-i\<close> that is not taken; one of the first \<open>length ids + 1\<close> is free.\<close>

definition replacement_id :: "jsstr list \<Rightarrow> jsstr" where
  "replacement_id ids =
     (case filter (\<lambda>i. i \<notin> set ids) (map (\<lambda>i. js ''replacement-'' @ decimal i) [1..<length ids + 2]) of
        i # _ \<Rightarrow> i
      | [] \<Rightarrow> [])"

definition replacement_line :: "platform \<Rightarrow> profile \<Rightarrow> nat \<Rightarrow> jsstr list \<Rightarrow> jsstr \<Rightarrow> pool_error + nat \<times> jsstr \<times> json" where
  "replacement_line pf p tot ids line =
     (let node = (\<lambda>number ori grp w.
        (case js_Number number of
           Whole n \<Rightarrow>
             if n - 1 < 0 \<or> n - 1 \<ge> int tot then Inl PoolLine
             else
               bindR (poolR PoolSecurity (normaliseBlossomServer pf ori p)) (\<lambda>server.
                 let i = replacement_id ids in Inr (nat (n - 1), i, line_node i (server @ js ''/'') grp (js_Number w)))
         | _ \<Rightarrow> Inl PoolLine))
      in case words_of line of
           [number, ori, grp] \<Rightarrow> node number ori grp (js ''1'')
         | [number, ori, grp, w] \<Rightarrow> node number ori grp w
         | _ \<Rightarrow> Inl PoolLine)"

text \<open>The targets of the parts as values, with each line's node pushed onto its part's.\<close>

fun replacement_loop :: "platform \<Rightarrow> profile \<Rightarrow> nat \<Rightarrow> jsstr list \<Rightarrow> json list list \<Rightarrow> jsstr list \<Rightarrow> pool_error + json list list" where
  "replacement_loop pf p tot ids targets [] = Inr targets"
| "replacement_loop pf p tot ids targets (line # ls) =
     bindR (replacement_line pf p tot ids line) (\<lambda>(k, i, node).
       replacement_loop pf p tot (ids @ [i]) (targets[k := targets ! k @ [node]]) ls)"

definition extended_part :: "pool_part \<Rightarrow> json list \<Rightarrow> json" where
  "extended_part part targets =
     JObj [(js ''index'', JNum (Whole (int (pp_index part)))), (js ''sha256'', JStr (pp_sha256 part)),
           (js ''size'', JNum (Whole (int (pp_size part)))), (js ''targets'', JArr targets)]"

definition whole_manifest :: "pool_manifest \<Rightarrow> json list \<Rightarrow> json" where
  "whole_manifest m parts =
     manifest_json (pm_mode m) (pm_profile m) (pm_sha256 m) (pm_size m) (pm_required m) (pm_total m) (pm_copies m) parts"

definition extendPool :: "platform \<Rightarrow> pool_manifest \<Rightarrow> jsstr \<Rightarrow> pool_error + pool_manifest" where
  "extendPool pf m replacements =
     bindR (validateManifest pf (pm_profile m) (whole_manifest m (map part_json (pm_parts m)))) (\<lambda>_.
       if length replacements > 8192 then Inl PoolListTooLong
       else
         bindR (replacement_loop pf (pm_profile m) (pm_total m) (concat (map (\<lambda>part. map pn_id (pp_targets part)) (pm_parts m)))
             (map (\<lambda>part. map node_json (pp_targets part)) (pm_parts m)) (lines_of replacements)) (\<lambda>targets.
           validateManifest pf (pm_profile m) (whole_manifest m (map2 extended_part (pm_parts m) targets))))"

subsection \<open>Uploading and fetching\<close>

definition partEvent :: "pool_part \<Rightarrow> pool_node \<Rightarrow> verifiable_blob" where
  "partEvent part node = \<lparr>vb_url = pn_origin node @ pp_sha256 part, vb_sha256 = pp_sha256 part, vb_size = pp_size part\<rparr>"

text \<open>The deadline: 256 KiB a second, 128 over Tor, and a ceiling of half an hour.\<close>

definition pool_timeout :: "pool_manifest \<Rightarrow> nat" where
  "pool_timeout m =
     (let tor = (pm_profile m = Tor); sz = pp_size (hd (pm_parts m)) in
      min (30 * 60 * 1000) ((if tor then 180000 else 30000) + ceil_div sz ((if tor then 128 else 256) * 1024) * 1000))"

record pool_report =
  pr_verified :: "nat list"
  pr_protected :: bool
  pr_recoverable :: bool

definition pool_status :: "pool_manifest \<Rightarrow> nat list \<Rightarrow> pool_report" where
  "pool_status m verified =
     \<lparr>pr_verified = verified, pr_protected = list_all (\<lambda>n. n \<ge> pm_copies m) verified,
      pr_recoverable = (length (filter (\<lambda>n. n > 0) verified) \<ge> pm_required m)\<rparr>"

text \<open>
  One part: \<open>holds\<close> says whether a node already has the verified part, \<open>stores\<close> whether it took it
  and gave it back verified. \<open>aborted n\<close> is the state of the signal at the \<open>n\<close>th look at it.
\<close>

fun upload_part :: "(nat \<Rightarrow> bool) \<Rightarrow> (pool_node \<Rightarrow> bool) \<Rightarrow> (pool_node \<Rightarrow> bool) \<Rightarrow> nat \<Rightarrow> nat \<Rightarrow> jsstr list \<Rightarrow> pool_node list \<Rightarrow>
    pool_error + nat \<times> jsstr list" where
  "upload_part aborted holds stores copies n groups [] = Inr (n, groups)"
| "upload_part aborted holds stores copies n groups (node # ns) =
     (if aborted n then Inl PoolAborted
      else if pn_group node \<in> set groups then upload_part aborted holds stores copies (n + 1) groups ns
      else if \<not> holds node \<and> aborted (n + 1) then Inl PoolAborted
      else if \<not> holds node \<and> \<not> stores node then
        (if aborted (n + 2) then Inl PoolAborted else upload_part aborted holds stores copies (n + 3) groups ns)
      else
        let groups' = groups @ [pn_group node] in
        if length groups' \<ge> copies then Inr (n + 3, groups')
        else upload_part aborted holds stores copies (n + 3) groups' ns)"

fun upload_parts :: "(nat \<Rightarrow> bool) \<Rightarrow> (pool_part \<Rightarrow> pool_node \<Rightarrow> bool) \<Rightarrow> (pool_part \<Rightarrow> pool_node \<Rightarrow> bool) \<Rightarrow> nat \<Rightarrow> nat \<Rightarrow> pool_part list \<Rightarrow>
    pool_error + nat list" where
  "upload_parts aborted holds stores copies n [] = Inr []"
| "upload_parts aborted holds stores copies n (part # parts) =
     bindR (upload_part aborted (holds part) (stores part) copies n [] (pp_targets part)) (\<lambda>(n', groups).
     bindR (upload_parts aborted holds stores copies n' parts) (\<lambda>counts. Inr (length groups # counts)))"

definition files_match :: "(bytes \<Rightarrow> bytes) \<Rightarrow> pool_manifest \<Rightarrow> bytes list \<Rightarrow> bool" where
  "files_match digest m files \<longleftrightarrow> length files = pm_total m \<and>
     list_all2 (\<lambda>f part. hash_hex digest f = pp_sha256 part \<and> length f = pp_size part) files (pm_parts m)"

definition uploadPool ::
  "(bytes \<Rightarrow> bytes) \<Rightarrow> (nat \<Rightarrow> bool) \<Rightarrow> (pool_part \<Rightarrow> pool_node \<Rightarrow> bool) \<Rightarrow> (pool_part \<Rightarrow> pool_node \<Rightarrow> bool) \<Rightarrow> pool_manifest \<Rightarrow> bytes list \<Rightarrow>
   pool_error + pool_report" where
  "uploadPool digest aborted holds stores m files =
     (if \<not> files_match digest m files then Inl PoolUploadMismatch
      else bindR (upload_parts aborted holds stores (pm_copies m) 0 (pm_parts m)) (\<lambda>counts. Inr (pool_status m counts)))"

fun fetch_part :: "(nat \<Rightarrow> bool) \<Rightarrow> (pool_node \<Rightarrow> blossom_error + bytes) \<Rightarrow> nat \<Rightarrow> pool_node list \<Rightarrow> pool_error + nat \<times> bytes option" where
  "fetch_part aborted get n [] = Inr (n, None)"
| "fetch_part aborted get n (node # ns) =
     (if aborted n then Inl PoolAborted
      else
        (case get node of
           Inr blob \<Rightarrow> Inr (n + 1, Some blob)
         | Inl _ \<Rightarrow> if aborted (n + 1) then Inl PoolAborted else fetch_part aborted get (n + 2) ns))"

fun fetch_parts :: "(nat \<Rightarrow> bool) \<Rightarrow> (pool_part \<Rightarrow> pool_node \<Rightarrow> blossom_error + bytes) \<Rightarrow> nat \<Rightarrow> nat \<Rightarrow> (int \<times> bytes) list \<Rightarrow> pool_part list \<Rightarrow>
    pool_error + (int \<times> bytes) list" where
  "fetch_parts aborted get required n available [] = Inr available"
| "fetch_parts aborted get required n available (part # parts) =
     bindR (fetch_part aborted (get part) n (pp_targets part)) (\<lambda>(n', got).
       let available' = available @ (case got of None \<Rightarrow> [] | Some blob \<Rightarrow> [(int (pp_index part), blob)]) in
       if length available' \<ge> required then Inr available' else fetch_parts aborted get required n' available' parts)"

definition fetchPool ::
  "(bytes \<Rightarrow> bytes) \<Rightarrow> (nat \<Rightarrow> bool) \<Rightarrow> (nat \<Rightarrow> bool) \<Rightarrow> (pool_part \<Rightarrow> pool_node \<Rightarrow> blossom_error + bytes) \<Rightarrow> pool_manifest \<Rightarrow> pool_error + bytes" where
  "fetchPool digest aborted coding_aborted get m =
     bindR (fetch_parts aborted get (pm_required m) 0 [] (pm_parts m)) (\<lambda>available.
       if length available < pm_required m then Inl (PoolTooFew (length available))
       else
         bindR (if is_replicas (pm_mode m) then Inr (snd (hd available))
                else poolR PoolCoding (decodeParts coding_aborted available (pm_required m) (pm_total m) (pm_size m))) (\<lambda>payload.
           if length payload \<noteq> pm_size m \<or> hash_hex digest payload \<noteq> pm_sha256 m then Inl PoolUnverified else Inr payload))"

definition preparePoolRepair ::
  "(bytes \<Rightarrow> bytes) \<Rightarrow> (nat \<Rightarrow> bool) \<Rightarrow> (nat \<Rightarrow> bool) \<Rightarrow> (pool_part \<Rightarrow> pool_node \<Rightarrow> blossom_error + bytes) \<Rightarrow> pool_manifest \<Rightarrow>
   pool_error + pool_manifest \<times> bytes list" where
  "preparePoolRepair digest aborted coding_aborted get m =
     bindR (fetchPool digest aborted coding_aborted get m) (\<lambda>payload.
     bindR (if is_replicas (pm_mode m) then Inr [payload]
            else poolR PoolCoding (encodeParts coding_aborted payload (pm_required m) (pm_total m))) (\<lambda>parts.
       Inr (m, parts)))"

subsection \<open>What a validated manifest is\<close>

lemma poolR_Inr [simp]: "poolR f r = Inr x \<longleftrightarrow> r = Inr x"
  by (cases r) (auto simp: poolR_def)

lemma field_simps [simp]: "field ((js k, v) # body) n = (if k = n then Some v else field body n)" "field [] n = None"
  by (auto simp: field_def)

lemma number_is_Whole [simp]: "number_is (Whole a) b \<longleftrightarrow> a = b"
  by (simp add: number_is_def)

lemma record_of_obj: "record_of (JObj body) keys = Inr b \<longleftrightarrow> b = body \<and> keys_are body keys"
  by (auto simp: record_of_def)

lemma part_body_json:
  assumes "record_of (part_json q) keys = Inr body" "part_body idx sz required body = Inr (sha, targets)"
  shows "pp_index q = idx \<and> sha = pp_sha256 q \<and> pp_size q = ceil_div sz required"
  using assms by (auto simp: part_json_def record_of_obj part_body_def split: if_splits)

lemma validate_parts_json:
  assumes "validate_parts pf p mode payload sz required copies idx assigned allNodes (map part_json qs) = Inr (ps, all)"
  shows "list_all2 (\<lambda>q part. pp_index part = pp_index q \<and> pp_sha256 part = pp_sha256 q \<and> pp_size part = pp_size q) qs ps \<and>
    map pp_index ps = [idx..<idx + length qs]"
  using assms
proof (induction qs arbitrary: idx assigned allNodes ps all)
  case (Cons q qs)
  from Cons.prems obtain body sha targets nodes ps' where b: "record_of (part_json q) [''index'', ''sha256'', ''size'', ''targets''] = Inr body"
    "part_body idx sz required body = Inr (sha, targets)"
    and r: "validate_parts pf p mode payload sz required copies (idx + 1) (assigned @ remdups (map pn_group nodes)) (allNodes @ nodes) (map part_json qs) = Inr (ps', all)"
    and ps: "ps = \<lparr>pp_index = idx, pp_sha256 = sha, pp_size = ceil_div sz required, pp_targets = nodes\<rparr> # ps'"
    by (auto simp: bindR_def Let_def split: sum.splits if_splits prod.splits)
  have "[idx..<idx + length (q # qs)] = idx # [idx + 1..<(idx + 1) + length qs]" by (simp add: upt_conv_Cons del: upt_Suc)
  then show ?case using Cons.IH[OF r] part_body_json[OF b] ps by (simp del: upt_Suc)
qed simp

lemma validateManifest_json:
  assumes "validateManifest pf p (manifest_json mode p sha sz required tot copies (map part_json qs)) = Inr m"
  shows "pm_mode m = mode \<and> pm_sha256 m = sha \<and> pm_size m = sz \<and> pm_required m = required \<and> pm_total m = tot \<and> length qs = tot \<and>
    list_all2 (\<lambda>q part. pp_index part = pp_index q \<and> pp_sha256 part = pp_sha256 q \<and> pp_size part = pp_size q) qs (pm_parts m) \<and>
    map pp_index (pm_parts m) = [0..<tot]"
proof -
  define body where "body = [(js ''type'', JStr (js ''wildbloom.pool'')), (js ''version'', JNum (Whole 1)), (js ''mode'', mode),
           (js ''profile'', JStr (profile_name p)),
           (js ''payload'', JObj [(js ''sha256'', JStr sha), (js ''size'', JNum (Whole (int sz))), (js ''encryption'', JStr WILDBLOOM_ENCRYPTION_V2)]),
           (js ''required'', JNum (Whole (int required))), (js ''total'', JNum (Whole (int tot))), (js ''copies'', JNum (Whole (int copies))),
           (js ''parts'', JArr (map part_json qs))]"
  have f: "field body ''mode'' = Some mode" "field body ''payload'' = Some (JObj [(js ''sha256'', JStr sha), (js ''size'', JNum (Whole (int sz))), (js ''encryption'', JStr WILDBLOOM_ENCRYPTION_V2)])"
    "field body ''required'' = Some (JNum (Whole (int required)))" "field body ''total'' = Some (JNum (Whole (int tot)))"
    "field body ''copies'' = Some (JNum (Whole (int copies)))" "field body ''parts'' = Some (JArr (map part_json qs))"
    by (simp_all add: body_def)
  have v: "validateManifest pf p (JObj body) = Inr m" using assms by (simp add: manifest_json_def body_def)
  have sz: "assertPrototypeTransferSize (Whole (int sz)) = Inr n \<Longrightarrow> n = sz" for n
    by (auto simp: assertPrototypeTransferSize_def split: if_splits)
  have layout: "layout_ok mode (Whole (int required)) (Whole (int tot)) (int copies) sz = Inr (k, n) \<Longrightarrow> k = required \<and> n = tot" for k n
    by (auto simp: layout_ok_def result_split split: if_splits)
  from v obtain ps all where "validate_parts pf p mode sha sz required copies 0 [] [] (map part_json qs) = Inr (ps, all)" "length qs = tot"
    "m = \<lparr>pm_mode = mode, pm_profile = p, pm_sha256 = sha, pm_size = sz, pm_required = required, pm_total = tot, pm_copies = copies, pm_parts = ps\<rparr>"
    unfolding validateManifest_def by (auto simp: f result_split record_of_obj dest!: sz layout split: if_splits)
  then show ?thesis using validate_parts_json by fastforce
qed

subsection \<open>A pool as a store\<close>

text \<open>
  What a pool promises, without parts, nodes, hashes or codes: the payload comes back when at least
  \<open>required\<close> of its parts are to be had, and otherwise the number that is.
\<close>

definition pool_spec :: "bytes \<Rightarrow> nat \<Rightarrow> nat set \<Rightarrow> pool_error + bytes" where
  "pool_spec payload required live = (if required \<le> card live then Inr payload else Inl (PoolTooFew (card live)))"

text \<open>Fetching a part from a node is a verified retrieval.\<close>

definition pool_get ::
  "platform \<Rightarrow> (bytes \<Rightarrow> bytes) \<Rightarrow> (pool_part \<Rightarrow> pool_node \<Rightarrow> nat \<Rightarrow> abort_cause option) \<Rightarrow> (jsstr \<Rightarrow> http_response option) \<Rightarrow>
   pool_manifest \<Rightarrow> pool_part \<Rightarrow> pool_node \<Rightarrow> blossom_error + bytes" where
  "pool_get pf digest signal fetch m part node =
     fetchVerifiedBlob pf digest (pm_profile m) (Some (Whole (int (pool_timeout m)))) None (signal part node) fetch (partEvent part node)"

text \<open>The contract between the pool and the code its parts are split with.\<close>

locale split_code =
  fixes split_parts :: "bytes \<Rightarrow> nat \<Rightarrow> nat \<Rightarrow> bytes list \<Rightarrow> bool"
    and join_parts :: "(int \<times> bytes) list \<Rightarrow> nat \<Rightarrow> nat \<Rightarrow> nat \<Rightarrow> bytes option"
  assumes join_any: "split_parts payload required tot parts \<Longrightarrow> distinct chosen \<Longrightarrow> length chosen = required \<Longrightarrow> set chosen \<subseteq> {..<tot} \<Longrightarrow>
      join_parts (map (\<lambda>r. (int r, parts ! r)) chosen) required tot (length payload) = Some payload"
    and split_length: "split_parts payload required tot parts \<Longrightarrow> length parts = tot"
begin

text \<open>Any list of parts that holds enough of them, cut to the number required, gives the payload.\<close>

lemma join_enough:
  assumes "split_parts payload required tot parts" "distinct held" "required \<le> length held" "set held \<subseteq> {..<tot}"
  shows "join_parts (map (\<lambda>r. (int r, parts ! r)) (take required held)) required tot (length payload) = Some payload"
  using assms join_any[OF assms(1), of "take required held"] set_take_subset[of required held] by auto

end

definition split_ok :: "bytes \<Rightarrow> nat \<Rightarrow> nat \<Rightarrow> bytes list \<Rightarrow> bool" where
  "split_ok payload required tot parts \<longleftrightarrow> encodeParts (\<lambda>_. False) payload required tot = Inr parts"

definition join_ok :: "(int \<times> bytes) list \<Rightarrow> nat \<Rightarrow> nat \<Rightarrow> nat \<Rightarrow> bytes option" where
  "join_ok ps required tot len = (case decodeParts (\<lambda>_. False) ps required tot len of Inl _ \<Rightarrow> None | Inr b \<Rightarrow> Some b)"

lemma encodeParts_bounds:
  assumes "encodeParts aborted blob required tot = Inr parts"
  shows "2 \<le> required" "required < tot" "tot \<le> 16" "int (length blob) \<le> MAX_SAFE_INTEGER" "required \<le> length blob"
  using assms by (auto simp: encodeParts_def generator_def codingBounds_def result_split)

interpretation coded: split_code split_ok join_ok
proof
  fix payload required tot parts and chosen :: "nat list"
  assume s: "split_ok payload required tot parts" and c: "distinct chosen" "length chosen = required" "set chosen \<subseteq> {..<tot}"
  note b = encodeParts_bounds[OF s[unfolded split_ok_def]]
  have "\<forall>r \<in> set chosen. r < tot" using c(3) by auto
  from recovered[OF b(1-5) _ c(1,2) this, of "\<lambda>_. False"] s
  show "join_ok (map (\<lambda>r. (int r, parts ! r)) chosen) required tot (length payload) = Some payload"
    by (auto simp: split_ok_def join_ok_def)
next
  fix payload required tot parts
  assume s: "split_ok payload required tot parts"
  note b = encodeParts_bounds[OF s[unfolded split_ok_def]]
  from recovered[OF b(1-5), of "\<lambda>_. False" "[0..<required]"] b(2) s show "length parts = tot" by (auto simp: split_ok_def)
qed

text \<open>Nobody can offer other bytes of the same length and hash as one of the parts.\<close>

definition no_second :: "(bytes \<Rightarrow> bytes) \<Rightarrow> bytes list \<Rightarrow> bool" where
  "no_second digest files \<longleftrightarrow> (\<forall>f \<in> set files. \<forall>b. length b = length f \<and> hash_hex digest b = hash_hex digest f \<longrightarrow> b = f)"

definition holds_part :: "(pool_part \<Rightarrow> pool_node \<Rightarrow> 'e + bytes) \<Rightarrow> pool_part \<Rightarrow> bool" where
  "holds_part get part \<longleftrightarrow> list_ex (\<lambda>node. \<not> isl (get part node)) (pp_targets part)"

lemma fetch_part_finds:
  assumes "\<And>node b. node \<in> set nodes \<Longrightarrow> get node = Inr b \<Longrightarrow> b = f"
  shows "\<exists>n'. fetch_part (\<lambda>_. False) get n nodes = Inr (n', if list_ex (\<lambda>node. \<not> isl (get node)) nodes then Some f else None)"
  using assms
proof (induction nodes arbitrary: n)
  case (Cons node nodes)
  show ?case
  proof (cases "get node")
    case (Inl e)
    have "\<exists>n'. fetch_part (\<lambda>_. False) get (n + 2) nodes = Inr (n', if list_ex (\<lambda>node. \<not> isl (get node)) nodes then Some f else None)"
      by (rule Cons.IH) (use Cons.prems in auto)
    then show ?thesis using Inl by simp
  next
    case (Inr b)
    then show ?thesis using Cons.prems[of node b] by simp
  qed
qed simp

lemma fetch_parts_finds:
  assumes "\<And>part node b. part \<in> set parts \<Longrightarrow> node \<in> set (pp_targets part) \<Longrightarrow> get part node = Inr b \<Longrightarrow> b = files ! pp_index part"
    and "length available < required"
  shows "fetch_parts (\<lambda>_. False) get required n available parts =
    Inr (available @ map (\<lambda>part. (int (pp_index part), files ! pp_index part)) (take (required - length available) (filter (holds_part get) parts)))"
  using assms
proof (induction parts arbitrary: n available)
  case (Cons part parts)
  obtain n' where f: "fetch_part (\<lambda>_. False) (get part) n (pp_targets part) = Inr (n', if holds_part get part then Some (files ! pp_index part) else None)"
    using fetch_part_finds[of "pp_targets part" "get part" "files ! pp_index part" n] Cons.prems(1) by (auto simp: holds_part_def)
  show ?case
  proof (cases "holds_part get part \<and> length available + 1 < required")
    case True
    then show ?thesis using f Cons.IH[of "available @ [(int (pp_index part), files ! pp_index part)]" n'] Cons.prems
      by (simp add: take_Cons' Suc_diff_le)
  next
    case False
    then show ?thesis using f Cons.IH[of available n'] Cons.prems by (auto simp: Let_def take_Cons' Suc_diff_le)
  qed
qed simp

text \<open>The parts of a prepared pool, in order, and the bytes they stand for.\<close>

lemma prepared_parts:
  assumes "preparePool pf digest rank aborted encrypted mode nodes required tot copies p = Inr (m, files)"
    and "is_erasure mode \<or> is_replicas mode"
  shows "pm_mode m = mode" "pm_sha256 m = hash_hex digest encrypted" "pm_size m = length encrypted" "map pp_index (pm_parts m) = [0..<pm_total m]"
    "length files = pm_total m" "1 \<le> pm_required m"
    "\<And>i. i < pm_total m \<Longrightarrow> pp_sha256 (pm_parts m ! i) = hash_hex digest (files ! i) \<and> pp_size (pm_parts m ! i) = length (files ! i)"
    "if is_erasure mode then split_ok encrypted (pm_required m) (pm_total m) files else files = [encrypted] \<and> pm_required m = 1 \<and> pm_total m = 1"
proof -
  define k n c where "k = (if is_erasure mode then required else 1)" and "n = (if is_erasure mode then tot else 1)"
    and "c = (if is_erasure mode then 1 else copies)"
  obtain targets where f: "(if is_erasure mode then poolR PoolCoding (encodeParts aborted encrypted required tot) else Inr [encrypted]) = Inr files"
    and v: "validateManifest pf p (manifest_json mode p (hash_hex digest encrypted) (length encrypted) k n c
      (map part_json (map (new_part digest targets) (enumerate 0 files)))) = Inr m"
    using assms(1) by (auto simp: preparePool_def k_def n_def c_def Let_def result_split split: if_splits)
  note m = validateManifest_json[OF v]
  have code: "is_erasure mode \<Longrightarrow> split_ok encrypted k n files" using f encode_abort by (auto simp: split_ok_def k_def n_def)
  show "pm_mode m = mode" "pm_sha256 m = hash_hex digest encrypted" "pm_size m = length encrypted" "map pp_index (pm_parts m) = [0..<pm_total m]"
    "length files = pm_total m" using m by simp_all
  show "1 \<le> pm_required m" using m code encodeParts_bounds(1)[of "\<lambda>_. False" encrypted k n files] by (cases "is_erasure mode") (auto simp: split_ok_def k_def)
  show "if is_erasure mode then split_ok encrypted (pm_required m) (pm_total m) files else files = [encrypted] \<and> pm_required m = 1 \<and> pm_total m = 1"
    using m code f by (auto simp: k_def n_def)
  fix i assume i: "i < pm_total m"
  show "pp_sha256 (pm_parts m ! i) = hash_hex digest (files ! i) \<and> pp_size (pm_parts m ! i) = length (files ! i)"
    using m i by (auto simp: list_all2_conv_all_nth new_part_def nth_enumerate_eq)
qed

lemma part_at:
  assumes "map pp_index parts = [0..<n]" "part \<in> set parts"
  shows "pp_index part < n \<and> parts ! pp_index part = part"
proof -
  obtain i where i: "i < length parts" "parts ! i = part" using assms(2) by (auto simp: in_set_conv_nth)
  have l: "length parts = n" using arg_cong[OF assms(1), of length] by simp
  then have "pp_index part = i" using arg_cong[OF assms(1), of "\<lambda>xs. xs ! i"] i by simp
  then show ?thesis using i l by simp
qed

text \<open>Whatever a node gives for a part is that part.\<close>

lemma pool_get_part:
  assumes "preparePool pf digest rank aborted encrypted mode nodes required tot copies p = Inr (m, files)"
    and "is_erasure mode \<or> is_replicas mode" "no_second digest files" "part \<in> set (pm_parts m)"
    and "pool_get pf digest signal fetch m part node = Inr b"
  shows "b = files ! pp_index part"
proof -
  note m = prepared_parts[OF assms(1,2)]
  have i: "pp_index part < pm_total m" "pm_parts m ! pp_index part = part" using part_at[OF m(4) assms(4)] by simp_all
  have "hash_hex digest b = pp_sha256 part" "length b = pp_size part"
    using retrieved_sound[OF assms(5)[unfolded pool_get_def]] by (simp_all add: partEvent_def hash_hex_def)
  then have "hash_hex digest b = hash_hex digest (files ! pp_index part)" "length b = length (files ! pp_index part)" using m(7)[OF i(1)] i(2) by simp_all
  moreover have "files ! pp_index part \<in> set files" using i(1) m(5) by simp
  ultimately show ?thesis using assms(3) by (auto simp: no_second_def)
qed

lemma fetchPool_spec:
  assumes "preparePool pf digest rank aborted encrypted mode nodes required tot copies p = Inr (m, files)"
    and "is_erasure mode \<or> is_replicas mode" "no_second digest files"
  shows "fetchPool digest (\<lambda>_. False) (\<lambda>_. False) (pool_get pf digest signal fetch m) m =
    pool_spec encrypted (pm_required m) {i. i < pm_total m \<and> holds_part (pool_get pf digest signal fetch m) (pm_parts m ! i)}"
proof -
  define get where "get = pool_get pf digest signal fetch m"
  define held where "held = map pp_index (filter (holds_part get) (pm_parts m))"
  note m = prepared_parts[OF assms(1,2)]
  have len: "length (pm_parts m) = pm_total m" using arg_cong[OF m(4), of length] by simp
  have nth: "i < pm_total m \<Longrightarrow> pp_index (pm_parts m ! i) = i" for i using arg_cong[OF m(4), of "\<lambda>xs. xs ! i"] len by simp
  have "held = filter (\<lambda>i. holds_part get (pm_parts m ! i)) (map pp_index (pm_parts m))"
    unfolding held_def filter_map using part_at[OF m(4)] by (auto intro!: arg_cong[of _ _ "map pp_index"] filter_cong)
  then have h: "held = filter (\<lambda>i. holds_part get (pm_parts m ! i)) [0..<pm_total m]" using m(4) by simp
  then have d: "distinct held" "set held = {i. i < pm_total m \<and> holds_part get (pm_parts m ! i)}" by auto
  then have c: "card {i. i < pm_total m \<and> holds_part get (pm_parts m ! i)} = length held" using distinct_card by metis
  have g: "b = files ! pp_index part" if "part \<in> set (pm_parts m)" "get part node = Inr b" for part node b
    using pool_get_part[OF assms that(1)] that(2) by (simp add: get_def)
  have fp: "fetch_parts (\<lambda>_. False) get (pm_required m) 0 [] (pm_parts m) = Inr (map (\<lambda>r. (int r, files ! r)) (take (pm_required m) held))"
    using fetch_parts_finds[of "pm_parts m" get files "[]" "pm_required m" 0] g m(6) by (simp add: held_def take_map comp_def)
  show ?thesis
  proof (cases "pm_required m \<le> length held")
    case False
    then show ?thesis unfolding get_def[symmetric] fetchPool_def fp pool_spec_def c by simp
  next
    case True
    have "(if is_replicas (pm_mode m) then Inr (snd (hd (map (\<lambda>r. (int r, files ! r)) (take (pm_required m) held))))
        else poolR PoolCoding (decodeParts (\<lambda>_. False) (map (\<lambda>r. (int r, files ! r)) (take (pm_required m) held)) (pm_required m) (pm_total m) (pm_size m))) = Inr encrypted"
    proof (cases "is_erasure mode")
      case er: True
      then have "\<not> is_replicas mode" by (auto simp: is_erasure_def is_replicas_def)
      moreover have "join_ok (map (\<lambda>r. (int r, files ! r)) (take (pm_required m) held)) (pm_required m) (pm_total m) (length encrypted) = Some encrypted"
        using coded.join_enough[of encrypted "pm_required m" "pm_total m" files held] m(8) er d True by auto
      ultimately show ?thesis using m(1,3) by (auto simp: join_ok_def split: sum.splits)
    next
      case False
      then have "files = [encrypted]" "pm_required m = 1" "pm_total m = 1" "is_replicas mode" using m(8) assms(2) by auto
      moreover have "set held \<subseteq> {0}" using d(2) calculation by auto
      then have "hd held = 0" using True calculation by (cases held) auto
      ultimately show ?thesis using m(1) True by (cases held) auto
    qed
    then show ?thesis using True m(2,3) unfolding get_def[symmetric] fetchPool_def fp pool_spec_def c by simp
  qed
qed

text \<open>
  Property C4: fetching from a pool that was prepared refines a plain store. Whatever the nodes
  answer, as long as nobody finds other bytes with a part's length and hash, the fetch gives
  back the very payload exactly if at least \<open>required\<close> of the parts are held by some node of
  theirs that answers, and otherwise it says how many there were; no layout, order of nodes, dead
  node or forged answer changes that.
\<close>

theorem fetchPool_refines_store:
  assumes "preparePool pf digest rank aborted encrypted mode nodes required tot copies p = Inr (m, files)"
    and "is_erasure mode \<or> is_replicas mode" "no_second digest files"
  shows "fetchPool digest (\<lambda>_. False) (\<lambda>_. False) (pool_get pf digest signal fetch m) m =
    pool_spec encrypted (pm_required m) {i. i < pm_total m \<and> holds_part (pool_get pf digest signal fetch m) (pm_parts m ! i)}"
  by (rule fetchPool_spec[OF assms])

definition sample_pool_platform :: platform where
  "sample_pool_platform = \<lparr>new_URL = (\<lambda>s. Some \<lparr>protocol = js ''https:'', hostname = s, username = [], password = [], pathname = js ''/'',
      search = [], hash = [], origin = take 9 s, href = s\<rparr>),
     unicode_tables = \<lparr>nfc = id, lower = id\<rparr>, sha3 = id\<rparr>"

definition sample_digest :: "bytes \<Rightarrow> bytes" where
  "sample_digest bs = take 32 (bs @ replicate 32 0)"

definition sample_nodes :: "pool_node list" where
  "sample_nodes = [\<lparr>pn_id = js ''a'', pn_origin = js ''https://a/'', pn_group = js ''a'', pn_weight = 1\<rparr>,
                   \<lparr>pn_id = js ''b'', pn_origin = js ''https://b/'', pn_group = js ''b'', pn_weight = 1\<rparr>]"

lemma sample_nodes_valid: "\<not> isl (validateNodes sample_pool_platform Direct (map node_json sample_nodes))"
  by code_simp

lemma sample_manifest_valid:
  "\<not> isl (validateManifest sample_pool_platform Direct (manifest_json (JStr (js ''replicas'')) Direct (hash_hex sample_digest MAGIC_V2)
     8 1 1 2 (map part_json [new_part sample_digest [sample_nodes] (0, MAGIC_V2)])))"
  by code_simp

lemma sample_dealt: "deal_groups 1 (group_nodes sample_nodes) = [sample_nodes]" "card (set (map pn_group sample_nodes)) = 2" "length MAGIC_V2 = 8"
  by code_simp+

lemma sample_prepared:
  "\<exists>m. preparePool sample_pool_platform sample_digest (\<lambda>_ ns. ns) (\<lambda>_. False) MAGIC_V2 (JStr (js ''replicas'')) sample_nodes 1 1 2 Direct = Inr (m, [MAGIC_V2])"
proof -
  obtain ns m where v: "validateNodes sample_pool_platform Direct (map node_json sample_nodes) = Inr ns"
    "validateManifest sample_pool_platform Direct (manifest_json (JStr (js ''replicas'')) Direct (hash_hex sample_digest MAGIC_V2)
     8 1 1 2 (map part_json [new_part sample_digest [sample_nodes] (0, MAGIC_V2)])) = Inr m"
    using sample_nodes_valid sample_manifest_valid by (metis sum.collapse(2))
  have "assertPrototypeTransferSize (Whole 8) = Inr 8" by code_simp
  then show ?thesis using v sample_dealt by (simp add: preparePool_def is_erasure_def poolR_def Let_def)
qed

lemma sample_no_second: "no_second sample_digest [MAGIC_V2]"
proof -
  have "b = MAGIC_V2" if "length b = 8" "hash_hex sample_digest b = hash_hex sample_digest MAGIC_V2" for b
  proof -
    have "sample_digest b = sample_digest MAGIC_V2" using that(2) toHex_inj by (simp add: hash_hex_def)
    then have "take 8 (sample_digest b) = take 8 (sample_digest MAGIC_V2)" by simp
    then show ?thesis using that(1) sample_dealt(3) by (simp add: sample_digest_def)
  qed
  then show ?thesis using sample_dealt(3) by (simp add: no_second_def)
qed

theorem fetchPool_refines_store_witness:
  "\<exists>m. preparePool sample_pool_platform sample_digest (\<lambda>_ ns. ns) (\<lambda>_. False) MAGIC_V2 (JStr (js ''replicas'')) sample_nodes 1 1 2 Direct = Inr (m, [MAGIC_V2]) \<and>
     fetchPool sample_digest (\<lambda>_. False) (\<lambda>_. False) (pool_get sample_pool_platform sample_digest (\<lambda>_ _ _. None) (\<lambda>_. None) m) m =
       pool_spec MAGIC_V2 (pm_required m)
         {i. i < pm_total m \<and> holds_part (pool_get sample_pool_platform sample_digest (\<lambda>_ _ _. None) (\<lambda>_. None) m) (pm_parts m ! i)}"
proof -
  obtain m where m: "preparePool sample_pool_platform sample_digest (\<lambda>_ ns. ns) (\<lambda>_. False) MAGIC_V2 (JStr (js ''replicas'')) sample_nodes 1 1 2 Direct = Inr (m, [MAGIC_V2])"
    using sample_prepared by blast
  have "is_erasure (JStr (js ''replicas'')) \<or> is_replicas (JStr (js ''replicas''))" by (simp add: is_replicas_def)
  from fetchPool_refines_store[OF m this sample_no_second, of "\<lambda>_ _ _. None" "\<lambda>_. None"] m show ?thesis by blast
qed

subsection \<open>A mode that is no string\<close>

text \<open>
  The check of the mode looks at its text: an array that holds one of the two words passes it, is
  laid out as replicas whichever word it holds, and is then fetched as if it were coded.
\<close>

lemma mode_array_accepted:
  "\<not> isl (validateManifest sample_pool_platform Direct (manifest_json (JArr [JStr (js ''erasure'')]) Direct (hash_hex sample_digest MAGIC_V2)
     8 1 1 2 (map part_json [new_part sample_digest [sample_nodes] (0, MAGIC_V2)])))"
  by code_simp

end
