(* ===== verification/Pages.thy ===== *)
theory Pages
  imports Messages Keys Get_View
begin

text \<open>
  The small parts of the two pages: which link is expired and which is broken (\<open>src/get/link.ts\<close>),
  the one reply the recipient sends (\<open>src/get/reply.ts\<close>), the loopback rule (\<open>src/get/config.ts\<close>),
  the name and type a sender's file is given (\<open>src/send/source.ts\<close>) and the lock that keeps the
  screen on (\<open>src/send/wakelock.ts\<close>).
\<close>

subsection \<open>Links\<close>

definition decodeFragment :: "jsstr \<Rightarrow> json option" where
  "decodeFragment fragment =
     (if fragment = [] \<or> length fragment > 1400 \<or> \<not> list_all is_base64url fragment then None
      else Option.bind (Option.bind (atob (map from_url fragment)) utf8_decode_bom) JSON_parse)"

text \<open>\<open>value?.name\<close> of parsed JSON: anything but an object has no such member.\<close>

definition chain :: "json option \<Rightarrow> string \<Rightarrow> json option" where
  "chain v name = (case v of Some (JObj body) \<Rightarrow> map_of body (js name) | _ \<Rightarrow> None)"

definition classifyLinkFailure :: "jsstr \<Rightarrow> int \<Rightarrow> link_problem" where
  "classifyLinkFailure h nowSeconds =
     (let fragment = (if startsWith h (js ''#'') then drop 1 h else h) in
      if fragment = [] then LinkMissing
      else
        (case chain (chain (chain (decodeFragment fragment) ''room'') ''session'') ''expires'' of
           Some (JNum (Whole expires)) \<Rightarrow> if expires \<le> nowSeconds then LinkExpired else LinkInvalid
         | Some (JNum NegZero) \<Rightarrow> if 0 \<le> nowSeconds then LinkExpired else LinkInvalid
         | _ \<Rightarrow> LinkInvalid))"

definition allowsLoopbackHttp :: "platform \<Rightarrow> jsstr \<Rightarrow> bool" where
  "allowsLoopbackHttp pf service =
     (case new_URL pf service of
        None \<Rightarrow> False
      | Some u \<Rightarrow> protocol u = js ''http:'' \<and> isLocalHost (hostname u))"

subsection \<open>The reply\<close>

definition DOWNLOADED_REPLY :: jsstr where "DOWNLOADED_REPLY = js ''{\"v\":1,\"event\":\"downloaded\"}''"

text \<open>\<open>rp_sent\<close> is what was handed to the channel, \<open>rp_disposed\<close> how often it was disposed of.\<close>

record reply_state =
  rp_started :: bool
  rp_closed :: bool
  rp_waiting :: bool
  rp_sent :: "bytes list"
  rp_disposed :: nat

definition createDownloadedReply :: reply_state where
  "createDownloadedReply = \<lparr>rp_started = False, rp_closed = False, rp_waiting = False, rp_sent = [], rp_disposed = 0\<rparr>"

definition reply_close :: "reply_state \<Rightarrow> reply_state" where
  "reply_close r = (if rp_closed r then r else r\<lparr>rp_closed := True, rp_disposed := rp_disposed r + 1\<rparr>)"

definition reply_send :: "reply_state \<Rightarrow> reply_state" where
  "reply_send r =
     (if rp_started r \<or> rp_closed r then r
      else r\<lparr>rp_started := True, rp_waiting := True, rp_sent := rp_sent r @ [utf8_encode DOWNLOADED_REPLY]\<rparr>)"

text \<open>The attempt has settled, well or badly.\<close>

definition reply_settles :: "reply_state \<Rightarrow> reply_state" where
  "reply_settles r = (if rp_waiting r then reply_close (r\<lparr>rp_waiting := False\<rparr>) else r)"

datatype reply_event = ReplySend | ReplySettles | ReplyDispose

fun reply_step :: "reply_state \<Rightarrow> reply_event \<Rightarrow> reply_state" where
  "reply_step r ReplySend = reply_send r"
| "reply_step r ReplySettles = reply_settles r"
| "reply_step r ReplyDispose = reply_close r"

lemma reply_at_most_once:
  "let r = foldl reply_step createDownloadedReply es in
   rp_sent r \<in> {[], [utf8_encode DOWNLOADED_REPLY]} \<and> rp_disposed r \<le> 1 \<and> (rp_closed r \<longleftrightarrow> rp_disposed r = 1)"
proof -
  have "(rp_sent r = [] \<or> rp_started r \<and> rp_sent r = [utf8_encode DOWNLOADED_REPLY]) \<and> rp_disposed r = (if rp_closed r then 1 else 0)"
    if "r = foldl reply_step createDownloadedReply es" for r
    using that
  proof (induction es arbitrary: r rule: rev_induct)
    case (snoc e es)
    then show ?case by (cases e) (auto simp: reply_send_def reply_settles_def reply_close_def)
  qed (simp add: createDownloadedReply_def)
  then show ?thesis unfolding Let_def by (metis (full_types) insert_iff le_refl zero_le_one zero_neq_one)
qed

subsection \<open>The file a sender offers\<close>

definition FALLBACK_TYPE :: jsstr where "FALLBACK_TYPE = js ''application/octet-stream''"

definition PRINTABLE_ASCII :: "jsstr \<Rightarrow> bool" where
  "PRINTABLE_ASCII s \<longleftrightarrow> list_all (\<lambda>u. 0x20 \<le> unat u \<and> unat u \<le> 0x7E) s"

definition wellFormed :: "jsstr \<Rightarrow> jsstr" where
  "wellFormed text = from_points (map (\<lambda>p. if surrogate p then 0xFFFD else p) (code_points text))"

definition safeMediaType :: "unicode \<Rightarrow> jsstr \<Rightarrow> jsstr" where
  "safeMediaType uc type =
     (let lowered = lower uc type in
      if lowered = [] \<or> length lowered > 255 \<or> \<not> PRINTABLE_ASCII lowered then FALLBACK_TYPE else lowered)"

definition plainName :: "jsstr \<Rightarrow> jsstr" where
  "plainName name = from_points (filter (\<lambda>p. \<not> disguising p) (code_points name))"

record source_file =
  sf_name :: jsstr
  sf_type :: jsstr
  sf_bytes :: bytes

definition prepareSource :: "unicode \<Rightarrow> source_file \<Rightarrow> source_file" where
  "prepareSource uc f =
     \<lparr>sf_name = sanitiseFileName uc (wellFormed (plainName (sf_name f))), sf_type = safeMediaType uc (sf_type f), sf_bytes = sf_bytes f\<rparr>"

lemma fallback_printable: "PRINTABLE_ASCII FALLBACK_TYPE" "FALLBACK_TYPE \<noteq> []" "length FALLBACK_TYPE \<le> 255"
  by code_simp+

lemma safe_type: "PRINTABLE_ASCII (safeMediaType uc t) \<and> safeMediaType uc t \<noteq> [] \<and> length (safeMediaType uc t) \<le> 255"
  using fallback_printable by (simp add: safeMediaType_def Let_def)

text \<open>What is made well formed can be written as UTF-8.\<close>

lemma wellFormed_ok: "\<not> lone_surrogate (wellFormed s)"
proof -
  have "scalar (if surrogate p then 0xFFFD else p)" if "p \<in> set (code_points s)" for p
    using code_points_bound[OF that] by (auto simp: scalar_def surrogate_def)
  then have "\<forall>q \<in> set (map (\<lambda>p. if surrogate p then 0xFFFD else p) (code_points s)). scalar q" unfolding set_map by blast
  then show ?thesis unfolding wellFormed_def by (rule not_lone_surrogate_from_points)
qed

lemma wellFormed_id: "\<not> lone_surrogate s \<Longrightarrow> wellFormed s = s"
proof -
  assume s: "\<not> lone_surrogate s"
  then have "map (\<lambda>p. if surrogate p then 0xFFFD else p) (code_points s) = code_points s"
    by (intro map_idI) (auto simp: lone_surrogate_def list_ex_iff)
  then show ?thesis by (simp add: wellFormed_def from_points_code_points)
qed

subsection \<open>The screen lock\<close>

text \<open>
  \<open>sl_sentinel\<close> is the lock the page holds, by number; \<open>sl_given\<close> counts the locks the browser gave,
  \<open>sl_released\<close> are the ones that were let go or that the browser took back, and \<open>sl_letting\<close> holds
  while \<open>acquire\<close> awaits the release of a lock that came too late.
\<close>

record screen_lock =
  sl_supported :: bool
  sl_wanted :: bool
  sl_sentinel :: "nat option"
  sl_pending :: bool
  sl_letting :: bool
  sl_given :: nat
  sl_released :: "nat list"

definition createScreenLock :: "bool \<Rightarrow> screen_lock" where
  "createScreenLock supported =
     \<lparr>sl_supported = supported, sl_wanted = False, sl_sentinel = None, sl_pending = False, sl_letting = False, sl_given = 0, sl_released = []\<rparr>"

definition lock_acquire :: "screen_lock \<Rightarrow> screen_lock" where
  "lock_acquire s =
     (if \<not> sl_supported s \<or> \<not> sl_wanted s \<or> sl_sentinel s \<noteq> None \<or> sl_pending s then s else s\<lparr>sl_pending := True\<rparr>)"

text \<open>The browser gives the lock asked for, or refuses it.\<close>

definition lock_granted :: "screen_lock \<Rightarrow> screen_lock" where
  "lock_granted s =
     (if \<not> sl_pending s \<or> sl_letting s then s
      else
        let n = sl_given s; s1 = s\<lparr>sl_given := n + 1\<rparr>
        in if sl_wanted s then s1\<lparr>sl_sentinel := Some n, sl_pending := False\<rparr>
           else s1\<lparr>sl_released := sl_released s @ [n], sl_letting := True\<rparr>)"

definition lock_refused :: "screen_lock \<Rightarrow> screen_lock" where
  "lock_refused s = (if \<not> sl_pending s \<or> sl_letting s then s else s\<lparr>sl_pending := False\<rparr>)"

definition lock_let_go :: "screen_lock \<Rightarrow> screen_lock" where
  "lock_let_go s = (if sl_letting s then s\<lparr>sl_letting := False, sl_pending := False\<rparr> else s)"

text \<open>The browser drops a lock on its own.\<close>

definition lock_dropped :: "nat \<Rightarrow> screen_lock \<Rightarrow> screen_lock" where
  "lock_dropped n s = (if sl_sentinel s = Some n then s\<lparr>sl_sentinel := None, sl_released := sl_released s @ [n]\<rparr> else s)"

definition lock_hold :: "screen_lock \<Rightarrow> screen_lock" where
  "lock_hold s = (if sl_wanted s then s else lock_acquire (s\<lparr>sl_wanted := True\<rparr>))"

definition lock_release :: "screen_lock \<Rightarrow> screen_lock" where
  "lock_release s =
     (if \<not> sl_wanted s then s
      else s\<lparr>sl_wanted := False, sl_sentinel := None,
             sl_released := sl_released s @ (case sl_sentinel s of None \<Rightarrow> [] | Some n \<Rightarrow> [n])\<rparr>)"

datatype lock_event = LockHold | LockRelease | LockVisible | LockGranted | LockRefused | LockLetGo | LockDropped nat

fun lock_step :: "screen_lock \<Rightarrow> lock_event \<Rightarrow> screen_lock" where
  "lock_step s LockHold = lock_hold s"
| "lock_step s LockRelease = lock_release s"
| "lock_step s LockVisible = (if sl_wanted s then lock_acquire s else s)"
| "lock_step s LockGranted = lock_granted s"
| "lock_step s LockRefused = lock_refused s"
| "lock_step s LockLetGo = lock_let_go s"
| "lock_step s (LockDropped n) = lock_dropped n s"

definition held_list :: "screen_lock \<Rightarrow> nat list" where
  "held_list s = (case sl_sentinel s of None \<Rightarrow> [] | Some n \<Rightarrow> [n])"

text \<open>No lock is lost: each one the browser gave was released, in their order, but for the one that is held, and that one is wanted.\<close>

definition lock_ok :: "screen_lock \<Rightarrow> bool" where
  "lock_ok s \<longleftrightarrow> sl_released s @ held_list s = [0..<sl_given s] \<and> (sl_sentinel s \<noteq> None \<longrightarrow> sl_wanted s \<and> \<not> sl_pending s)"

lemma lock_ok_acquire: "lock_ok s \<Longrightarrow> lock_ok (lock_acquire s)"
  by (cases "sl_sentinel s") (auto simp: lock_ok_def lock_acquire_def held_list_def)

lemma lock_ok_granted: "lock_ok s \<Longrightarrow> lock_ok (lock_granted s)"
  by (cases "sl_sentinel s") (simp_all add: lock_ok_def lock_granted_def Let_def held_list_def)

lemma lock_ok_release: "lock_ok s \<Longrightarrow> lock_ok (lock_release s) \<and> lock_ok (lock_dropped n s)"
  by (cases "sl_sentinel s") (auto simp: lock_ok_def lock_release_def lock_dropped_def held_list_def)

lemma lock_ok_settled: "lock_ok s \<Longrightarrow> lock_ok (lock_refused s) \<and> lock_ok (lock_let_go s)"
  by (cases "sl_sentinel s") (auto simp: lock_ok_def lock_refused_def lock_let_go_def held_list_def)

lemma lock_ok_hold: "lock_ok s \<Longrightarrow> lock_ok (lock_hold s)"
proof -
  assume "lock_ok s"
  then have "lock_ok (s\<lparr>sl_wanted := True\<rparr>)" by (simp add: lock_ok_def held_list_def)
  then show ?thesis using \<open>lock_ok s\<close> lock_ok_acquire by (simp add: lock_hold_def)
qed

lemma lock_ok_step: "lock_ok s \<Longrightarrow> lock_ok (lock_step s e)"
  by (cases e) (simp_all add: lock_ok_acquire lock_ok_granted lock_ok_release lock_ok_settled lock_ok_hold)

lemma no_lock_lost:
  "let s = foldl lock_step (createScreenLock b) es in \<not> sl_wanted s \<longrightarrow> sl_released s = [0..<sl_given s]"
proof -
  have "lock_ok (foldl lock_step (createScreenLock b) es)"
  proof (induction es rule: rev_induct)
    case (snoc e es)
    then show ?case using lock_ok_step by simp
  qed (simp add: createScreenLock_def lock_ok_def held_list_def)
  then show ?thesis unfolding Let_def lock_ok_def held_list_def by (cases "sl_sentinel (foldl lock_step (createScreenLock b) es)") auto
qed

end
