(* ===== verification/Spec2Isabelle.thy ===== *)
theory Spec2Isabelle
  imports Prelude Jsstring Json Config Frames Security Messages Keys Envelope Envelope_Open
    Transfer_Ends Transfer_Sender Transfer_Receiver Transfer_System Transfer_Sink Transfer_Liveness Transfer_File
    Pacing Get_View Send_View Galois Erasure Erasure_Parts Words Peer Link Watch
    Session Session_Send Session_Send_Order Session_Receive Blossom Pool Pages
begin

text \<open>
  Wildbloom is a browser application that moves a file from one person to another. It has two ways
  of doing it. A \<^emph>\<open>direct send\<close> encrypts the file record by record and sends the envelope over a
  WebRTC data channel, after two short exchanges through a pairing service; the receiver opens the
  envelope in memory and keeps the file only if it is the one announced. A \<^emph>\<open>share\<close> stores the same
  kind of envelope on Blossom servers, whole or split into erasure-coded parts over a pool of nodes, and
  hands the address, the hash and the key to the recipient, who fetches the bytes and checks them.
  This library models the code that decides what is sent, accepted, kept and shown, and proves what makes
  it correct. File names below are under \<open>src/src\<close>.

  \<^bold>\<open>Foundations.\<close>
  \<^item> Prelude: results as sums (\<open>Inl\<close> is what the code throws), big-endian integers, and two interfaces, an
    \<open>encoder\<close> and a \<open>canonical_codec\<close>, which the frames, the messages and the recovery keys interpret.
  \<^item> Jsstring: strings as lists of 16-bit code units, code points, UTF-8 both ways, trimming and splitting.
  \<^item> Json: \<open>JSON.parse\<close> and the parts of \<open>JSON.stringify\<close> the code uses. Numbers are kept as far as the code
    looks at them: a safe integer, minus zero, or any other double.

  \<^bold>\<open>Direct send.\<close>
  \<^item> Config (\<open>direct/config.ts\<close>): limits, timeouts and the allowlist of ICE servers.
  \<^item> Frames (\<open>direct/frames.ts\<close>): the binary frames. What a role may write is read back as written, and what
    is read is a frame that role may write.
  \<^item> Security (\<open>core/security.ts\<close>): the rules for endpoints, names, sizes and hashes. A name the rule has
    repaired is a fixed point; nothing but an onion service passes the Tor profile; the base32 loop is
    the mathematical decoding.
  \<^item> Messages (\<open>direct/messages.ts\<close>): the exchange messages. The codec is canonical, and an
    invitation is confined to the allowlist.
  \<^item> Keys, Envelope, Envelope_Open (\<open>core/crypto.ts\<close>): recovery keys and the encrypted envelope. What is
    sealed opens to the same file, what opens was sealed, and the sealing loop ends.
  \<^item> Transfer_Ends, Transfer_Sender, Transfer_Receiver, Transfer_System, Transfer_Sink, Transfer_Liveness,
    Transfer_File (\<open>direct/transfer.ts\<close>, \<open>direct/sink.ts\<close>): \<open>sendEnvelope\<close> and \<open>receiveEnvelope\<close> as what each does
    at a frame, a turn of its loop and a step of its queue; the system of both over an ordered channel,
    where a run is any interleaving; the sink as the interface \<open>direct_sink\<close>, with the memory sink its
    instance; and \<open>willing_sink\<close>, under which every transfer can be completed. The end result is that the
    kept file is the source file.
  \<^item> Pacing (\<open>direct/pacing.ts\<close>): the token bucket and the rule that follows the path, as instances of
    \<open>pacing_contract\<close>, and the watch that reads which path is in use.
  \<^item> Peer (\<open>direct/peer.ts\<close>): the configuration of the connection and the flags and listeners of a peer. A
    hidden end uses relays only, and a channel or a track the code did not ask for closes the peer.
  \<^item> Link, Watch, Session, Session_Send, Session_Send_Order, Session_Receive (\<open>direct/session.ts\<close>,
    \<open>get/failure.ts\<close>): one end of the exchange with its indices, the watch over the connection with its
    timers, and both sessions as state machines over what the code awaits; \<open>session_hook\<close> is the interface
    through which a session hears of the connection. The page sends only the messages their index
    allows; Drop does so but for two messages the code lets it send early, a stop at index 0 and a restart
    at index 1, which the page refuses. The file is sent only after it was accepted, and a stop always
    has a place left.

  \<^bold>\<open>Shares.\<close>
  \<^item> Blossom (\<open>core/blossom.ts\<close>, \<open>sha256Hex\<close>): the verified retrieval and the share descriptor.
  \<^item> Galois, Erasure, Erasure_Parts (\<open>core/erasure.ts\<close>): the field by its tables, the inversion of
    matrices, and coding by stripes. Any \<open>required\<close> parts give the payload back.
  \<^item> Pool (\<open>core/pool.ts\<close>): manifests, layout, upload, fetch and repair. Fetching refines a plain store: it
    returns the payload exactly when enough parts can be had. The interface \<open>split_code\<close> is what it needs of
    a code, and erasure coding interprets it.

  \<^bold>\<open>Pages.\<close>
  \<^item> Words (\<open>get/words.ts\<close>): the words a recipient types. The table computes the edit distance, and
    a suggestion is the one nearest word.
  \<^item> Get_View, Send_View (\<open>get/state.ts\<close>, \<open>send/state.ts\<close>, \<open>send/screens.ts\<close>, \<open>send/copy.ts\<close>): the screens.
    Nothing is fetched or sent before the words were confirmed.
  \<^item> Pages (\<open>get/link.ts\<close>, \<open>get/reply.ts\<close>, \<open>get/config.ts\<close>, \<open>send/source.ts\<close>, \<open>send/wakelock.ts\<close>): expired and
    broken links, the one reply, the file as it is offered, and the screen lock.

  \<^bold>\<open>How the model corresponds to the code.\<close> A class or a closure's variables are a record, a union of
  literals a datatype, a function a definition of the same name where the name is free. Code that
  awaits is cut at its awaits: each stretch between two of them is one definition, where the code is
  is a component of the state, and a run is a list of events, so that every interleaving is covered.
  What is not code of the repository is an argument: the URL parser, SHA-256, SHA3, AES-GCM and HKDF, Unicode
  normalisation and lower-casing, the word list, the signature check, the browser's connection, the network and the clock. Where a
  theorem needs something of them it is a named predicate (\<open>nfc_laws\<close>, \<open>lower_laws\<close>, \<open>aead_laws\<close>, \<open>entropy_ok\<close>), and each
  such theorem has a witness with a concrete instance.

  \<^bold>\<open>Bounds and fuel.\<close> The JSON parser takes fuel, twice the length of the text and one;
  \<open>parse_value_fuel\<close> shows that more changes nothing. Every other loop is a structural recursion or has a
  termination proof. Bytes are 8-bit words and code units 16-bit words; frame offsets and sizes are
  written out at their width in the frames and are natural numbers elsewhere, below the code's
  own limits. The token bucket is exact rational arithmetic where the code's is in floating point, so
  nothing is stated of it that hangs on the last bit of a rounding: the rates are bounded, and whether a
  sender that waits exactly the time it was told is then let through is left open.
  The \<open>File\<close> constructor keeps the name and the type it is given. What a listener does when it is told of a
  peer's state is a later event of the run. The calls on a session come in the order its
  documentation gives.

  \<^bold>\<open>Not modelled.\<close> The pages' own scripts (\<open>main.ts\<close>, \<open>get/main.ts\<close>, \<open>send/main.ts\<close>, \<open>services-ui.ts\<close>, \<open>marketing.ts\<close>)
  build and update the document and call the parts above. The modules that sign and read Nostr events, order from checkouts, discover services and storage and talk to relays (core/nostr.ts and what rests on it) are not modelled. The torrent modules
  drive WebTorrent. The programs under \<open>scripts\<close> are builds and
  acceptance runs that start browsers and servers. The overwriting of keys and plaintext in memory is
  not visible in values.
\<close>

end
